(* ===== verification/Prelude.thy ===== *)
theory Prelude
  imports Main "HOL-Library.Word"
begin

text \<open>
  What the components share: the machine types of the code, bytes and C strings, memory
  reads of 16, 32 and 64 bits on the little-endian host, byte swaps, writes into a byte
  buffer, and the collections of facts (\<^theory_text>\<open>named_theorems\<close>) the component proofs use.
\<close>

section \<open>Machine types\<close>

unbundle bit_operations_syntax

type_synonym byte = "8 word"
type_synonym uint16_t = "16 word"
type_synonym uint32_t = "32 word"
type_synonym uint64_t = "64 word"
type_synonym size_t = "64 word"

named_theorems load_simps \<open>reading integers from memory\<close>
named_theorems buffer_simps \<open>splicing bytes into a buffer\<close>

text \<open>The bytes of a C string literal, without its terminating NUL.\<close>

definition bytes_of :: "string \<Rightarrow> byte list" where
  "bytes_of s = map of_char s"

lemma bytes_of_Nil [simp]: "bytes_of [] = []"
  by (simp add: bytes_of_def)

lemma bytes_of_Cons [simp]: "bytes_of (c # s) = of_char c # bytes_of s"
  by (simp add: bytes_of_def)

lemma bytes_of_append [simp]: "bytes_of (s @ t) = bytes_of s @ bytes_of t"
  by (simp add: bytes_of_def)

lemma length_bytes_of [simp]: "length (bytes_of s) = length s"
  by (simp add: bytes_of_def)

section \<open>Slices of memory\<close>

text \<open>\<open>slice_at m i n\<close> is the \<open>n\<close> bytes of \<open>m\<close> from index \<open>i\<close> on, where they exist.\<close>

definition slice_at :: "'a list \<Rightarrow> nat \<Rightarrow> nat \<Rightarrow> 'a list" where
  "slice_at m i n = take n (drop i m)"

lemma length_slice_at [simp]: "i + n \<le> length m \<Longrightarrow> length (slice_at m i n) = n"
  by (simp add: slice_at_def)

lemma slice_at_0 [simp]: "slice_at m i 0 = []"
  by (simp add: slice_at_def)

lemma slice_at_append: "slice_at m i (a + b) = slice_at m i a @ slice_at m (i + a) b"
  by (simp add: slice_at_def take_add add.commute)

lemma slice_at_append_left: "i + n \<le> length xs \<Longrightarrow> slice_at (xs @ ys) i n = slice_at xs i n"
  by (simp add: slice_at_def)

lemma slice_at_append_right:
  "length xs \<le> i \<Longrightarrow> slice_at (xs @ ys) i n = slice_at ys (i - length xs) n"
  by (simp add: slice_at_def)

lemma slice_at_whole [simp]: "slice_at xs 0 (length xs) = xs"
  by (simp add: slice_at_def)

lemma slice_at_take: "n \<le> k \<Longrightarrow> take n (slice_at m i k) = slice_at m i n"
  by (simp add: slice_at_def min_absorb1)

lemma slice_at_drop: "n \<le> k \<Longrightarrow> drop n (slice_at m i k) = slice_at m (i + n) (k - n)"
  by (simp add: slice_at_def drop_take add.commute)

text \<open>
  \<open>store_at m i bs\<close> is \<open>m\<close> after \<open>memcpy(m + i, bs, |bs|)\<close>; the length of the memory
  never changes.
\<close>

definition store_at :: "'a list \<Rightarrow> nat \<Rightarrow> 'a list \<Rightarrow> 'a list" where
  "store_at m i bs = take (length m) (take i m @ bs @ drop (i + length bs) m)"

lemma length_store_at [simp]: "i \<le> length m \<Longrightarrow> length (store_at m i bs) = length m"
  by (simp add: store_at_def)

lemma store_at_in [buffer_simps]:
  "i + length bs \<le> length m \<Longrightarrow> store_at m i bs = take i m @ bs @ drop (i + length bs) m"
  by (simp add: store_at_def)

lemma slice_store_same [buffer_simps]:
  "i + length bs \<le> length m \<Longrightarrow> slice_at (store_at m i bs) i (length bs) = bs"
  by (simp add: store_at_in slice_at_def)

lemma slice_store_below [buffer_simps]:
  "i + length bs \<le> length m \<Longrightarrow> j + n \<le> i \<Longrightarrow> slice_at (store_at m i bs) j n = slice_at m j n"
  by (simp add: store_at_in slice_at_def drop_take min_absorb1)

section \<open>Integers in memory\<close>

text \<open>
  \<open>*(uint16_t*)p\<close>, \<open>*(uint32_t*)p\<close> and \<open>*(uint64_t*)p\<close> on a little-endian host (the
  \<open>__LITTLE_ENDIAN__\<close> branch of the sources), and the byte order functions of the
  socket library there.
\<close>

definition load16 :: "byte list \<Rightarrow> nat \<Rightarrow> uint16_t" where
  "load16 m i = ucast (m ! i) OR push_bit 8 (ucast (m ! (i + 1)))"

definition load32 :: "byte list \<Rightarrow> nat \<Rightarrow> uint32_t" where
  "load32 m i = ucast (load16 m i) OR push_bit 16 (ucast (load16 m (i + 2)))"

definition load64 :: "byte list \<Rightarrow> nat \<Rightarrow> uint64_t" where
  "load64 m i = ucast (load32 m i) OR push_bit 32 (ucast (load32 m (i + 4)))"

definition ntohs :: "uint16_t \<Rightarrow> uint16_t" where
  "ntohs x = push_bit 8 x OR drop_bit 8 x"

definition ntohl :: "uint32_t \<Rightarrow> uint32_t" where
  "ntohl x =
     push_bit 24 (x AND 0x000000FF) OR push_bit 8 (x AND 0x0000FF00)
     OR drop_bit 8 (x AND 0x00FF0000) OR drop_bit 24 (x AND 0xFF000000)"

definition htonl :: "uint32_t \<Rightarrow> uint32_t" where
  "htonl x = ntohl x"

text \<open>Big-endian (network order) encodings, as a peer puts them on the wire.\<close>

definition be16 :: "uint16_t \<Rightarrow> byte list" where
  "be16 x = [ucast (drop_bit 8 x), ucast x]"

definition be32 :: "uint32_t \<Rightarrow> byte list" where
  "be32 x = be16 (ucast (drop_bit 16 x)) @ be16 (ucast x)"

definition be64 :: "uint64_t \<Rightarrow> byte list" where
  "be64 x = be32 (ucast (drop_bit 32 x)) @ be32 (ucast x)"

lemma length_be16 [simp]: "length (be16 x) = 2"
  by (simp add: be16_def)

lemma length_be32 [simp]: "length (be32 x) = 4"
  by (simp add: be32_def)

lemma length_be64 [simp]: "length (be64 x) = 8"
  by (simp add: be64_def)

text \<open>A read inside a slice is a read of the memory.\<close>

lemma load16_append [load_simps]:
  "i + 2 \<le> length xs \<Longrightarrow> load16 (xs @ ys) i = load16 xs i"
  "load16 (xs @ ys) (length xs + i) = load16 ys i"
  by (simp_all add: load16_def nth_append)

lemma load32_append [load_simps]:
  "i + 4 \<le> length xs \<Longrightarrow> load32 (xs @ ys) i = load32 xs i"
  "load32 (xs @ ys) (length xs + i) = load32 ys i"
  using load16_append(2) [of xs ys "i + 2"]
  by (simp_all add: load32_def load16_append add.assoc)

lemma load64_append [load_simps]:
  "i + 8 \<le> length xs \<Longrightarrow> load64 (xs @ ys) i = load64 xs i"
  "load64 (xs @ ys) (length xs + i) = load64 ys i"
  using load32_append(2) [of xs ys "i + 4"]
  by (simp_all add: load64_def load32_append add.assoc)

lemma load16_drop [load_simps]: "i \<le> length m \<Longrightarrow> load16 (drop i m) j = load16 m (i + j)"
  by (simp add: load16_def nth_drop)

lemma load32_drop [load_simps]: "i \<le> length m \<Longrightarrow> load32 (drop i m) j = load32 m (i + j)"
  by (simp add: load32_def load16_drop add.assoc)

text \<open>Decoding in network order what was encoded in network order.\<close>

lemma ntohs_load_be16 [load_simps]: "ntohs (load16 (be16 x @ r) 0) = x"
  by (rule bit_word_eqI) (auto simp: ntohs_def load16_def be16_def bit_simps)

text \<open>
  The byte swaps are written with masks and shifts; a bit of the result is found by the
  byte it lies in. \<open>byte_cases32\<close> and \<open>byte_cases64\<close> split a bit index that way.
\<close>

lemma masks32:
  "(0x000000FF :: uint32_t) = mask 8"
  "(0x0000FF00 :: uint32_t) = push_bit 8 (mask 8)"
  "(0x00FF0000 :: uint32_t) = push_bit 16 (mask 8)"
  "(0xFF000000 :: uint32_t) = push_bit 24 (mask 8)"
  by (simp_all add: mask_eq_decr_exp push_bit_eq_mult)

lemma masks64:
  "(0x00000000000000FF :: uint64_t) = mask 8"
  "(0x000000000000FF00 :: uint64_t) = push_bit 8 (mask 8)"
  "(0x0000000000FF0000 :: uint64_t) = push_bit 16 (mask 8)"
  "(0x00000000FF000000 :: uint64_t) = push_bit 24 (mask 8)"
  "(0x000000FF00000000 :: uint64_t) = push_bit 32 (mask 8)"
  "(0x0000FF0000000000 :: uint64_t) = push_bit 40 (mask 8)"
  "(0x00FF000000000000 :: uint64_t) = push_bit 48 (mask 8)"
  "(0xFF00000000000000 :: uint64_t) = push_bit 56 (mask 8)"
  by (simp_all add: mask_eq_decr_exp push_bit_eq_mult)

lemma byte_index_cases:
  fixes n :: nat
  assumes "n < 8 * m"
  obtains q k where "q < m" "k < 8" "n = k + 8 * q"
proof
  show "n div 8 < m" using assms by (simp add: less_mult_imp_div_less)
  show "n = n mod 8 + 8 * (n div 8)" by simp
qed simp

lemma byte_cases32:
  fixes n :: nat
  assumes "n < 32"
  obtains k where "k < 8" "n = k" | k where "k < 8" "n = k + 8"
    | k where "k < 8" "n = k + 16" | k where "k < 8" "n = k + 24"
proof -
  from assms obtain q k where "q < 4" "k < 8" "n = k + 8 * q"
    using byte_index_cases [of n 4] by auto
  moreover from this(1) have "q = 0 \<or> q = 1 \<or> q = 2 \<or> q = 3" by auto
  ultimately show thesis using that by fastforce
qed

lemma byte_cases64:
  fixes n :: nat
  assumes "n < 64"
  obtains k where "k < 8" "n = k" | k where "k < 8" "n = k + 8"
    | k where "k < 8" "n = k + 16" | k where "k < 8" "n = k + 24"
    | k where "k < 8" "n = k + 32" | k where "k < 8" "n = k + 40"
    | k where "k < 8" "n = k + 48" | k where "k < 8" "n = k + 56"
proof (cases "n < 32")
  case True
  then show thesis by (cases rule: byte_cases32) (use that in blast)+
next
  case False
  then have "n - 32 < 32" and n: "n = (n - 32) + 32" using assms by auto
  from this(1) show thesis
  proof (cases rule: byte_cases32)
    case (1 k) with that(5) [of k] n show thesis by simp
  next
    case (2 k) with that(6) [of k] n show thesis by simp
  next
    case (3 k) with that(7) [of k] n show thesis by simp
  next
    case (4 k) with that(8) [of k] n show thesis by simp
  qed
qed

lemma ntohl_load_be32 [load_simps]: "ntohl (load32 (be32 x @ r) 0) = x"
proof (rule bit_word_eqI)
  fix n assume "n < LENGTH(32)"
  then have "n < 32" by simp
  then show "bit (ntohl (load32 (be32 x @ r) 0)) n \<longleftrightarrow> bit x n"
    by (cases rule: byte_cases32)
      (simp_all add: ntohl_def masks32 load32_def load16_def be32_def be16_def bit_simps add.commute)
qed

text \<open>Reading an integer where its encoding lies.\<close>

lemma slice_at_split:
  assumes "slice_at m n (length xs) = xs" and "xs \<noteq> []"
  shows "m = take n m @ xs @ drop (n + length xs) m" and "length (take n m) = n"
proof -
  have "length (slice_at m n (length xs)) = length xs" using assms(1) by simp
  with assms(2) have n: "n + length xs \<le> length m"
    by (cases xs) (auto simp: slice_at_def)
  then show "length (take n m) = n" by simp
  have "drop n m = take (length xs) (drop n m) @ drop (n + length xs) m"
    by (metis add.commute append_take_drop_id drop_drop)
  with assms(1) have "drop n m = xs @ drop (n + length xs) m" by (simp add: slice_at_def)
  then show "m = take n m @ xs @ drop (n + length xs) m"
    by (metis append_take_drop_id)
qed

lemma ntohs_load_slice: "slice_at m n 2 = be16 x \<Longrightarrow> ntohs (load16 m n) = x"
proof -
  assume s: "slice_at m n 2 = be16 x"
  have ne: "be16 x \<noteq> []" by (simp add: be16_def)
  note m = slice_at_split [of m n "be16 x", unfolded length_be16, OF s ne]
  have "load16 m n = load16 (be16 x @ drop (n + 2) m) 0"
    using m load16_append(2) [of "take n m" "be16 x @ drop (n + 2) m" 0] by simp
  then show ?thesis by (simp add: ntohs_load_be16)
qed

lemma ntohl_load_slice: "slice_at m n 4 = be32 x \<Longrightarrow> ntohl (load32 m n) = x"
  using slice_at_split [of m n "be32 x"] load32_append(2) [of "take n m" "be32 x @ drop (n + 4) m" 0]
  by (simp add: ntohl_load_be32 length_0_conv [symmetric])

text \<open>Lengths as machine words.\<close>

lemma unat_of_nat_size: "n < 2 ^ 64 \<Longrightarrow> unat (of_nat n :: size_t) = n"
  by (simp add: unat_of_nat take_bit_nat_eq_self)

lemma unat_of_nat_32: "n < 2 ^ 32 \<Longrightarrow> unat (of_nat n :: uint32_t) = n"
  by (simp add: unat_of_nat take_bit_nat_eq_self)

lemma unat_of_nat_16: "n < 2 ^ 16 \<Longrightarrow> unat (of_nat n :: uint16_t) = n"
  by (simp add: unat_of_nat take_bit_nat_eq_self)

lemma unat_of_nat_8: "n < 2 ^ 8 \<Longrightarrow> unat (of_nat n :: byte) = n"
  by (simp add: unat_of_nat take_bit_nat_eq_self)

lemma unat_ucast_size [simp]: "unat (ucast (b :: uint32_t) :: size_t) = unat b"
  by (simp add: unsigned_ucast_eq take_bit_nat_eq_self order_less_le_trans [OF unsigned_less])

end
