(* ===== verification/Endian.thy ===== *)
theory Endian
  imports Prelude
begin

text \<open>
  \<^verbatim>\<open>src/mp/endian.h\<close>: the 64-bit byte swaps. The file is compiled for a little-endian host
  (\<open>__LITTLE_ENDIAN__\<close>), in the portable branch that writes the swap out.
\<close>

definition htonll :: "uint64_t \<Rightarrow> uint64_t" where
  "htonll x =
     (push_bit 56 x AND 0xff00000000000000) OR
     (push_bit 40 x AND 0x00ff000000000000) OR
     (push_bit 24 x AND 0x0000ff0000000000) OR
     (push_bit  8 x AND 0x000000ff00000000) OR
     (drop_bit  8 x AND 0x00000000ff000000) OR
     (drop_bit 24 x AND 0x0000000000ff0000) OR
     (drop_bit 40 x AND 0x000000000000ff00) OR
     (drop_bit 56 x AND 0x00000000000000ff)"

definition ntohll :: "uint64_t \<Rightarrow> uint64_t" where
  "ntohll x =
     (push_bit 56 x AND 0xff00000000000000) OR
     (push_bit 40 x AND 0x00ff000000000000) OR
     (push_bit 24 x AND 0x0000ff0000000000) OR
     (push_bit  8 x AND 0x000000ff00000000) OR
     (drop_bit  8 x AND 0x00000000ff000000) OR
     (drop_bit 24 x AND 0x0000000000ff0000) OR
     (drop_bit 40 x AND 0x000000000000ff00) OR
     (drop_bit 56 x AND 0x00000000000000ff)"

lemma bit_htonll [simp]:
  "k < 8 \<Longrightarrow> bit (htonll x) k = bit x (k + 56)"
  "k < 8 \<Longrightarrow> bit (htonll x) (k + 8) = bit x (k + 48)"
  "k < 8 \<Longrightarrow> bit (htonll x) (k + 16) = bit x (k + 40)"
  "k < 8 \<Longrightarrow> bit (htonll x) (k + 24) = bit x (k + 32)"
  "k < 8 \<Longrightarrow> bit (htonll x) (k + 32) = bit x (k + 24)"
  "k < 8 \<Longrightarrow> bit (htonll x) (k + 40) = bit x (k + 16)"
  "k < 8 \<Longrightarrow> bit (htonll x) (k + 48) = bit x (k + 8)"
  "k < 8 \<Longrightarrow> bit (htonll x) (k + 56) = bit x k"
  by (simp_all add: htonll_def masks64 bit_simps add.commute)

text \<open>The two directions are one function, its own inverse.\<close>

lemma ntohll_eq_htonll: "ntohll = htonll"
  by (simp add: fun_eq_iff ntohll_def htonll_def)

lemma ntohll_htonll: "ntohll (htonll x) = x"
proof (rule bit_word_eqI)
  fix n assume "n < LENGTH(64)"
  then have "n < 64" by simp
  then show "bit (ntohll (htonll x)) n \<longleftrightarrow> bit x n"
    by (cases rule: byte_cases64) (simp_all add: ntohll_eq_htonll)
qed

lemma htonll_load_be64 [load_simps]: "htonll (load64 (be64 x @ r) 0) = x"
proof (rule bit_word_eqI)
  fix n assume "n < LENGTH(64)"
  then have "n < 64" by simp
  then show "bit (htonll (load64 (be64 x @ r) 0)) n \<longleftrightarrow> bit x n"
    by (cases rule: byte_cases64)
      (simp_all add: load64_def load32_def load16_def be64_def be32_def be16_def bit_simps add.commute)
qed

lemma htonll_load_slice: "slice_at m n 8 = be64 x \<Longrightarrow> htonll (load64 m n) = x"
  using slice_at_split [of m n "be64 x"] load64_append(2) [of "take n m" "be64 x @ drop (n + 8) m" 0]
  by (simp add: htonll_load_be64 length_0_conv [symmetric])

end
