(* ===== verification/Memproto.thy ===== *)
theory Memproto
  imports Endian
begin

text \<open>
  \<^verbatim>\<open>src/memproto/memproto.c\<close> and \<^verbatim>\<open>memproto.h\<close>: the parser of the memcached binary protocol.
  A pointer into the caller's buffer is its index there; a read past the end of the buffer or
  of the callback table is the outcome \<open>Fault\<close>. A callback is an opaque value \<open>'f\<close>; calling
  it is the outcome \<open>Invoke\<close>, with the arguments the code passes.
\<close>

section \<open>Data\<close>

datatype memproto_command =
    MEMPROTO_CMD_GET | MEMPROTO_CMD_SET | MEMPROTO_CMD_ADD | MEMPROTO_CMD_REPLACE
  | MEMPROTO_CMD_DELETE | MEMPROTO_CMD_INCREMENT | MEMPROTO_CMD_DECREMENT | MEMPROTO_CMD_QUIT
  | MEMPROTO_CMD_FLUSH | MEMPROTO_CMD_GETQ | MEMPROTO_CMD_NOOP | MEMPROTO_CMD_VERSION
  | MEMPROTO_CMD_GETK | MEMPROTO_CMD_GETKQ | MEMPROTO_CMD_APPEND | MEMPROTO_CMD_PREPEND

text \<open>The enumeration's values, in their order.\<close>

definition memproto_commands :: "memproto_command list" where
  "memproto_commands =
    [MEMPROTO_CMD_GET, MEMPROTO_CMD_SET, MEMPROTO_CMD_ADD, MEMPROTO_CMD_REPLACE,
     MEMPROTO_CMD_DELETE, MEMPROTO_CMD_INCREMENT, MEMPROTO_CMD_DECREMENT, MEMPROTO_CMD_QUIT,
     MEMPROTO_CMD_FLUSH, MEMPROTO_CMD_GETQ, MEMPROTO_CMD_NOOP, MEMPROTO_CMD_VERSION,
     MEMPROTO_CMD_GETK, MEMPROTO_CMD_GETKQ, MEMPROTO_CMD_APPEND, MEMPROTO_CMD_PREPEND]"

instantiation memproto_command :: enum
begin

definition enum_memproto_command :: "memproto_command list" where
  "enum_memproto_command = memproto_commands"

definition enum_all_memproto_command :: "(memproto_command \<Rightarrow> bool) \<Rightarrow> bool" where
  "enum_all_memproto_command P \<longleftrightarrow> list_all P memproto_commands"

definition enum_ex_memproto_command :: "(memproto_command \<Rightarrow> bool) \<Rightarrow> bool" where
  "enum_ex_memproto_command P \<longleftrightarrow> list_ex P memproto_commands"

instance
proof
  show univ: "(UNIV :: memproto_command set) = set enum_class.enum"
    using memproto_command.exhaust by (auto simp: enum_memproto_command_def memproto_commands_def)
  show "distinct (enum_class.enum :: memproto_command list)"
    by (simp add: enum_memproto_command_def memproto_commands_def)
  show "enum_class.enum_all P \<longleftrightarrow> Ball UNIV P" for P :: "memproto_command \<Rightarrow> bool"
    by (simp add: univ enum_all_memproto_command_def enum_memproto_command_def list_all_iff)
  show "enum_class.enum_ex P \<longleftrightarrow> Bex UNIV P" for P :: "memproto_command \<Rightarrow> bool"
    by (simp add: univ enum_ex_memproto_command_def enum_memproto_command_def list_ex_iff)
qed

end

text \<open>
  The last case of \<open>memproto_switch\<close> below is that of append and prepend: the others are named, and the
  \<open>return -cmd\<close> behind the switch of the code is not reached.
\<close>

lemma append_or_prepend:
  "\<forall>cmd. cmd \<notin> {MEMPROTO_CMD_GET, MEMPROTO_CMD_GETQ, MEMPROTO_CMD_GETK, MEMPROTO_CMD_GETKQ,
      MEMPROTO_CMD_DELETE, MEMPROTO_CMD_FLUSH, MEMPROTO_CMD_SET, MEMPROTO_CMD_ADD, MEMPROTO_CMD_REPLACE,
      MEMPROTO_CMD_INCREMENT, MEMPROTO_CMD_DECREMENT, MEMPROTO_CMD_QUIT, MEMPROTO_CMD_NOOP, MEMPROTO_CMD_VERSION}
    \<longleftrightarrow> cmd \<in> {MEMPROTO_CMD_APPEND, MEMPROTO_CMD_PREPEND}"
  by code_simp

text \<open>Every command is the one of some opcode below 16.\<close>

lemma memproto_command_opcode: "\<exists>n < 16. memproto_commands ! n = cmd"
proof -
  have "cmd \<in> set memproto_commands" using UNIV_I [of cmd] by (simp only: UNIV_enum enum_memproto_command_def)
  then obtain n where "n < length memproto_commands" "memproto_commands ! n = cmd" by (auto simp: in_set_conv_nth)
  then show ?thesis by (intro exI [of _ n]) (simp add: memproto_commands_def)
qed

definition MEMPROTO_REQUEST :: byte where "MEMPROTO_REQUEST = 0x80"

definition MEMPROTO_HEADER_SIZE :: nat where [simp]: "MEMPROTO_HEADER_SIZE = 24"

definition MEMPROTO_INVALID_ARGUMENT :: int where [simp]: "MEMPROTO_INVALID_ARGUMENT = -128"

record memproto_header =
  magic :: byte
  opcode :: byte
  data_type :: byte
  reserved :: uint16_t
  opaque :: uint32_t
  cas :: uint64_t

record 'f memproto_callback =
  cb_get :: "'f option"
  cb_set :: "'f option"
  cb_add :: "'f option"
  cb_replace :: "'f option"
  cb_delete :: "'f option"
  cb_increment :: "'f option"
  cb_decrement :: "'f option"
  cb_quit :: "'f option"
  cb_flush :: "'f option"
  cb_getq :: "'f option"
  cb_noop :: "'f option"
  cb_version :: "'f option"
  cb_getk :: "'f option"
  cb_getkq :: "'f option"
  cb_append :: "'f option"
  cb_prepend :: "'f option"

record ('f, 'u) memproto_parser =
  header :: nat
  callback :: "'f option list"
  user :: 'u

text \<open>The arguments of the callbacks, by the signatures of the callback structure.\<close>

datatype memproto_args =
    Key_args nat uint16_t
  | Key_exp_args nat uint16_t uint32_t
  | Exp_args uint32_t
  | Store_args nat uint16_t nat uint32_t uint32_t uint32_t
  | Numeric_args nat uint16_t uint64_t uint64_t uint32_t
  | No_args
  | Append_args nat uint16_t nat uint32_t

datatype 'f dispatch_result =
    Fault
  | Return int
  | Invoke 'f memproto_header memproto_args

section \<open>Byte order and header access\<close>

definition memproto_be64h :: "uint64_t \<Rightarrow> uint64_t" where
  "memproto_be64h x =
     (push_bit 56 x AND 0xff00000000000000) OR
     (push_bit 40 x AND 0x00ff000000000000) OR
     (push_bit 24 x AND 0x0000ff0000000000) OR
     (push_bit  8 x AND 0x000000ff00000000) OR
     (drop_bit  8 x AND 0x00000000ff000000) OR
     (drop_bit 24 x AND 0x0000000000ff0000) OR
     (drop_bit 40 x AND 0x000000000000ff00) OR
     (drop_bit 56 x AND 0x00000000000000ff)"

definition MEMPROTO_MAGIC :: "byte list \<Rightarrow> nat \<Rightarrow> byte" where
  "MEMPROTO_MAGIC m h = m ! h"

definition MEMPROTO_OPCODE :: "byte list \<Rightarrow> nat \<Rightarrow> byte" where
  "MEMPROTO_OPCODE m h = m ! (h + 1)"

definition MEMPROTO_KEY_LENGTH :: "byte list \<Rightarrow> nat \<Rightarrow> uint16_t" where
  "MEMPROTO_KEY_LENGTH m h = ntohs (load16 m (h + 2))"

definition MEMPROTO_EXTRA_LENGTH :: "byte list \<Rightarrow> nat \<Rightarrow> byte" where
  "MEMPROTO_EXTRA_LENGTH m h = m ! (h + 4)"

definition MEMPROTO_DATA_TYPE :: "byte list \<Rightarrow> nat \<Rightarrow> byte" where
  "MEMPROTO_DATA_TYPE m h = m ! (h + 5)"

definition MEMPROTO_STATUS :: "byte list \<Rightarrow> nat \<Rightarrow> uint16_t" where
  "MEMPROTO_STATUS m h = ntohs (load16 m (h + 6))"

definition MEMPROTO_BODY_LENGTH :: "byte list \<Rightarrow> nat \<Rightarrow> uint32_t" where
  "MEMPROTO_BODY_LENGTH m h = ntohl (load32 m (h + 8))"

definition MEMPROTO_OPAQUE :: "byte list \<Rightarrow> nat \<Rightarrow> uint32_t" where
  "MEMPROTO_OPAQUE m h = ntohl (load32 m (h + 12))"

definition MEMPROTO_CAS :: "byte list \<Rightarrow> nat \<Rightarrow> uint64_t" where
  "MEMPROTO_CAS m h = memproto_be64h (load64 m (h + 16))"

definition MEMPROTO_EXTRA_4_EXPIRATION :: "byte list \<Rightarrow> nat \<Rightarrow> uint32_t" where
  "MEMPROTO_EXTRA_4_EXPIRATION m extra = htonl (load32 m extra)"

definition MEMPROTO_EXTRA_8_FLAGS :: "byte list \<Rightarrow> nat \<Rightarrow> uint32_t" where
  "MEMPROTO_EXTRA_8_FLAGS m extra = htonl (load32 m extra)"

definition MEMPROTO_EXTRA_8_EXPIRATION :: "byte list \<Rightarrow> nat \<Rightarrow> uint32_t" where
  "MEMPROTO_EXTRA_8_EXPIRATION m extra = htonl (load32 m (extra + 4))"

definition MEMPROTO_EXTRA_20_AMOUNT :: "byte list \<Rightarrow> nat \<Rightarrow> uint64_t" where
  "MEMPROTO_EXTRA_20_AMOUNT m extra = memproto_be64h (load64 m extra)"

definition MEMPROTO_EXTRA_20_INITIAL :: "byte list \<Rightarrow> nat \<Rightarrow> uint64_t" where
  "MEMPROTO_EXTRA_20_INITIAL m extra = memproto_be64h (load64 m (extra + 8))"

text \<open>
  The macro applies the 64-bit swap to a 32-bit read: the read is widened to the swap's
  argument type, and the callback's \<open>uint32_t\<close> parameter keeps the low half of the result.
\<close>

definition MEMPROTO_EXTRA_20_EXPIRATION :: "byte list \<Rightarrow> nat \<Rightarrow> uint32_t" where
  "MEMPROTO_EXTRA_20_EXPIRATION m extra = ucast (memproto_be64h (ucast (load32 m (extra + 16))))"

section \<open>Operations\<close>

definition memproto_parser_init ::
    "'f memproto_callback \<Rightarrow> 'u \<Rightarrow> ('f, 'u) memproto_parser" where
  "memproto_parser_init cb u =
     \<lparr>header = 0,
      callback =
        [cb_get cb, cb_set cb, cb_add cb, cb_replace cb, cb_delete cb, cb_increment cb,
         cb_decrement cb, cb_quit cb, cb_flush cb, cb_getq cb, cb_noop cb, cb_version cb,
         cb_getk cb, cb_getkq cb, cb_append cb, cb_prepend cb],
      user = u\<rparr>"

text \<open>
  \<open>None\<close> is a read outside \<open>data\<close>. The subtraction \<open>datalen - *off\<close> and the 32-bit addition
  of the header size to the body length wrap as they do in the code.
\<close>

definition memproto_parser_execute ::
    "('f, 'u) memproto_parser \<Rightarrow> byte list \<Rightarrow> size_t \<Rightarrow>
     (int \<times> ('f, 'u) memproto_parser \<times> size_t) option" where
  "memproto_parser_execute ctx data off =
    (let region = of_nat (length data) - off in
     if unat region < MEMPROTO_HEADER_SIZE then Some (0, ctx, off)
     else if length data < unat off + MEMPROTO_HEADER_SIZE then None
     else
       let ctx = ctx\<lparr>header := unat off\<rparr>;
           bodylen = MEMPROTO_BODY_LENGTH data (header ctx);
           region = region - of_nat MEMPROTO_HEADER_SIZE
       in
       if region < ucast bodylen then Some (0, ctx, off)
       else if MEMPROTO_MAGIC data (header ctx) \<noteq> MEMPROTO_REQUEST then Some (-1, ctx, off)
       else Some (1, ctx, off + ucast (of_nat MEMPROTO_HEADER_SIZE + bodylen)))"

text \<open>
  The switch of \<open>memproto_dispatch\<close>, for a callback \<open>cb\<close> that is set. A read of the extras
  beyond the buffer is a \<open>Fault\<close>.
\<close>

definition memproto_switch ::
    "memproto_command \<Rightarrow> 'f \<Rightarrow> memproto_header \<Rightarrow> byte list \<Rightarrow> nat \<Rightarrow>
     uint16_t \<Rightarrow> uint16_t \<Rightarrow> uint32_t \<Rightarrow> 'f dispatch_result" where
  "memproto_switch cmd cb h mem extra extralen keylen vallen =
    (let key = extra + unat extralen;
         val = key + unat keylen;
         invalid = Return MEMPROTO_INVALID_ARGUMENT
     in
     if cmd \<in> {MEMPROTO_CMD_GET, MEMPROTO_CMD_GETQ, MEMPROTO_CMD_GETK, MEMPROTO_CMD_GETKQ} then
       (if extralen \<noteq> 0 then invalid
        else if vallen \<noteq> 0 then invalid
        else if keylen = 0 then invalid
        else Invoke cb h (Key_args key keylen))
     else if cmd = MEMPROTO_CMD_DELETE then
       (if keylen = 0 then invalid
        else if vallen \<noteq> 0 then invalid
        else if extralen = 0 then Invoke cb h (Key_exp_args key keylen 0)
        else if extralen = 4 then
          (if length mem < extra + 4 then Fault
           else Invoke cb h (Key_exp_args key keylen (MEMPROTO_EXTRA_4_EXPIRATION mem extra)))
        else invalid)
     else if cmd = MEMPROTO_CMD_FLUSH then
       (if keylen \<noteq> 0 then invalid
        else if vallen \<noteq> 0 then invalid
        else if extralen = 0 then Invoke cb h (Exp_args 0)
        else if extralen = 4 then
          (if length mem < extra + 4 then Fault
           else Invoke cb h (Exp_args (MEMPROTO_EXTRA_4_EXPIRATION mem extra)))
        else invalid)
     else if cmd \<in> {MEMPROTO_CMD_SET, MEMPROTO_CMD_ADD, MEMPROTO_CMD_REPLACE} then
       (if keylen = 0 then invalid
        else if extralen \<noteq> 8 then invalid
        else if length mem < extra + 8 then Fault
        else Invoke cb h
          (Store_args key keylen val vallen
             (MEMPROTO_EXTRA_8_FLAGS mem extra) (MEMPROTO_EXTRA_8_EXPIRATION mem extra)))
     else if cmd \<in> {MEMPROTO_CMD_INCREMENT, MEMPROTO_CMD_DECREMENT} then
       (if extralen \<noteq> 20 then invalid
        else if keylen = 0 then invalid
        else if vallen \<noteq> 0 then invalid
        else if length mem < extra + 20 then Fault
        else Invoke cb h
          (Numeric_args key keylen (MEMPROTO_EXTRA_20_AMOUNT mem extra)
             (MEMPROTO_EXTRA_20_INITIAL mem extra) (MEMPROTO_EXTRA_20_EXPIRATION mem extra)))
     else if cmd \<in> {MEMPROTO_CMD_QUIT, MEMPROTO_CMD_NOOP, MEMPROTO_CMD_VERSION} then
       (if keylen \<noteq> 0 then invalid
        else if extralen \<noteq> 0 then invalid
        else if vallen \<noteq> 0 then invalid
        else Invoke cb h No_args)
     else
       (if keylen = 0 then invalid
        else if extralen \<noteq> 0 then invalid
        else Invoke cb h (Append_args key keylen val vallen)))"

definition header_of :: "byte list \<Rightarrow> nat \<Rightarrow> memproto_header" where
  "header_of mem h =
     \<lparr>magic = MEMPROTO_MAGIC mem h, opcode = MEMPROTO_OPCODE mem h,
      data_type = MEMPROTO_DATA_TYPE mem h, reserved = MEMPROTO_STATUS mem h,
      opaque = MEMPROTO_OPAQUE mem h, cas = MEMPROTO_CAS mem h\<rparr>"

text \<open>
  \<open>ctx->callback\<close> has sixteen entries: an opcode from sixteen on reads past it. With no
  callback the result is the negated command, which is 0 for a GET.
\<close>

definition memproto_dispatch ::
    "('f, 'u) memproto_parser \<Rightarrow> byte list \<Rightarrow> 'f dispatch_result" where
  "memproto_dispatch ctx mem =
    (if length mem < header ctx + MEMPROTO_HEADER_SIZE then Fault
     else
       let h = header_of mem (header ctx);
           keylen = MEMPROTO_KEY_LENGTH mem (header ctx);
           extralen = ucast (MEMPROTO_EXTRA_LENGTH mem (header ctx));
           bodylen = MEMPROTO_BODY_LENGTH mem (header ctx);
           extra = header ctx + MEMPROTO_HEADER_SIZE;
           vallen = bodylen - ucast extralen - ucast keylen;
           cmd = unat (opcode h)
       in
       if length (callback ctx) \<le> cmd then Fault
       else case callback ctx ! cmd of
         None \<Rightarrow> Return (- int cmd)
       | Some cb \<Rightarrow>
           memproto_switch (memproto_commands ! cmd) cb h mem extra extralen keylen vallen)"

section \<open>Packets on the wire\<close>

text \<open>
  The packet format the parser is for: 24 bytes of header, then extras, key and value. This
  is what a client of the binary protocol sends.
\<close>

record packet =
  pk_opcode :: byte
  pk_data_type :: byte
  pk_reserved :: uint16_t
  pk_opaque :: uint32_t
  pk_cas :: uint64_t
  pk_extra :: "byte list"
  pk_key :: "byte list"
  pk_val :: "byte list"

definition body_of :: "packet \<Rightarrow> byte list" where
  "body_of k = pk_extra k @ pk_key k @ pk_val k"

definition encode :: "packet \<Rightarrow> byte list" where
  "encode k =
     [MEMPROTO_REQUEST, pk_opcode k] @ be16 (of_nat (length (pk_key k))) @
     [of_nat (length (pk_extra k)), pk_data_type k] @ be16 (pk_reserved k) @
     be32 (of_nat (length (body_of k))) @ be32 (pk_opaque k) @ be64 (pk_cas k) @ body_of k"

text \<open>Packets whose length fields hold their lengths.\<close>

definition packet_ok :: "packet \<Rightarrow> bool" where
  "packet_ok k \<longleftrightarrow> length (pk_key k) < 2 ^ 16 \<and> length (pk_extra k) < 2 ^ 8 \<and>
     length (body_of k) + 24 < 2 ^ 32"

definition header_of_packet :: "packet \<Rightarrow> memproto_header" where
  "header_of_packet k =
     \<lparr>magic = MEMPROTO_REQUEST, opcode = pk_opcode k, data_type = pk_data_type k,
      reserved = pk_reserved k, opaque = pk_opaque k, cas = pk_cas k\<rparr>"

lemma length_encode [simp]: "length (encode k) = 24 + length (body_of k)"
  by (simp add: encode_def)

text \<open>Reading back each field, wherever the packet lies in the buffer.\<close>

lemma memproto_be64h_eq: "memproto_be64h = htonll"
  by (simp add: fun_eq_iff memproto_be64h_def htonll_def)

lemmas header_access =
  MEMPROTO_MAGIC_def MEMPROTO_OPCODE_def MEMPROTO_KEY_LENGTH_def MEMPROTO_EXTRA_LENGTH_def
  MEMPROTO_DATA_TYPE_def MEMPROTO_STATUS_def MEMPROTO_BODY_LENGTH_def MEMPROTO_OPAQUE_def
  MEMPROTO_CAS_def

lemma encoded_fields:
  assumes m: "m = pre @ encode k @ post" and h: "h = length pre"
  shows "MEMPROTO_MAGIC m h = MEMPROTO_REQUEST"
    "MEMPROTO_OPCODE m h = pk_opcode k"
    "MEMPROTO_KEY_LENGTH m h = of_nat (length (pk_key k))"
    "MEMPROTO_EXTRA_LENGTH m h = of_nat (length (pk_extra k))"
    "MEMPROTO_DATA_TYPE m h = pk_data_type k"
    "MEMPROTO_STATUS m h = pk_reserved k"
    "MEMPROTO_BODY_LENGTH m h = of_nat (length (body_of k))"
    "MEMPROTO_OPAQUE m h = pk_opaque k"
    "MEMPROTO_CAS m h = pk_cas k"
  unfolding header_access memproto_be64h_eq m h encode_def
  by (simp_all add: nth_append ntohs_load_slice ntohl_load_slice htonll_load_slice slice_at_def)

lemma header_of_encoded: "header_of (pre @ encode k @ post) (length pre) = header_of_packet k"
  by (simp add: header_of_def header_of_packet_def encoded_fields [OF refl refl])

section \<open>Framing\<close>

lemma unat_region:
  assumes "unat off \<le> n" and "n < 2 ^ 64"
  shows "unat (of_nat n - off :: size_t) = n - unat off"
  using assms by (simp add: unat_sub word_le_nat_alt unat_of_nat_size)

text \<open>
  What one call does on a buffer whose unread part starts with a header, in terms of the
  body length that header announces.
\<close>

lemma execute_header:
  assumes "unat off + 24 \<le> length data" and "length data < 2 ^ 64"
  shows "memproto_parser_execute ctx data off =
    (let b = MEMPROTO_BODY_LENGTH data (unat off) in
     if length data < unat off + 24 + unat b then Some (0, ctx\<lparr>header := unat off\<rparr>, off)
     else if MEMPROTO_MAGIC data (unat off) \<noteq> MEMPROTO_REQUEST
       then Some (-1, ctx\<lparr>header := unat off\<rparr>, off)
     else Some (1, ctx\<lparr>header := unat off\<rparr>, off + ucast (24 + b)))"
proof -
  let ?r = "of_nat (length data) - off :: size_t"
  have r: "unat ?r = length data - unat off" using assms by (intro unat_region) auto
  have 24: "unat (24 :: size_t) = 24" by simp
  have r24: "unat (?r - 24) = length data - unat off - 24"
    using assms r by (simp add: unat_sub word_le_nat_alt)
  have "?r - 24 < ucast b \<longleftrightarrow> length data < unat off + 24 + unat b" for b :: uint32_t
    using assms r24 by (auto simp: word_less_nat_alt unat_ucast_size)
  moreover have "\<not> length data - unat off < 24" using assms(1) by simp
  ultimately show ?thesis
    using assms r by (simp add: memproto_parser_execute_def Let_def)
qed

lemma execute_short:
  assumes "unat off \<le> length data" "length data < unat off + 24" and "length data < 2 ^ 64"
  shows "memproto_parser_execute ctx data off = Some (0, ctx, off)"
  using assms unat_region [of off "length data"]
  by (simp add: memproto_parser_execute_def Let_def)

text \<open>Framing: a buffer with a whole packet at the offset is accepted, and the offset moves
  to exactly the packet's end, whatever is before and after it; this is what lets a caller loop.\<close>

theorem memproto_execute_packet:
  assumes "packet_ok k" and "length (pre @ encode k @ post) < 2 ^ 64"
  shows "memproto_parser_execute ctx (pre @ encode k @ post) (of_nat (length pre)) =
    Some (1, ctx\<lparr>header := length pre\<rparr>, of_nat (length (pre @ encode k)))"
proof -
  let ?m = "pre @ encode k @ post"
  have off: "unat (of_nat (length pre) :: size_t) = length pre"
    using assms(2) by (intro unat_of_nat_size) simp
  have body: "unat (of_nat (length (body_of k)) :: uint32_t) = length (body_of k)"
    using assms(1) by (intro unat_of_nat_32) (simp add: packet_ok_def)
  have "unat (24 + of_nat (length (body_of k)) :: uint32_t) = 24 + length (body_of k)"
    using assms(1) unat_of_nat_32 [of "24 + length (body_of k)"] by (simp add: packet_ok_def)
  then have "ucast (24 + of_nat (length (body_of k)) :: uint32_t)
      = (of_nat (24 + length (body_of k)) :: size_t)"
    by (metis of_nat_unat)
  then show ?thesis
    using assms(2) off body encoded_fields [of ?m pre k post, OF refl refl]
    by (simp add: execute_header Let_def)
qed

text \<open>A strict prefix of a packet is never taken for a packet: the call asks for more
  data and leaves the offset.\<close>

theorem memproto_execute_partial:
  assumes "packet_ok k" and "n < length (encode k)" and "length (pre @ encode k) < 2 ^ 64"
  shows "\<exists>ctx'. memproto_parser_execute ctx (pre @ take n (encode k)) (of_nat (length pre)) =
    Some (0, ctx', of_nat (length pre))"
proof -
  let ?m = "pre @ take n (encode k)"
  have off: "unat (of_nat (length pre) :: size_t) = length pre"
    using assms(3) by (intro unat_of_nat_size) simp
  have len: "length ?m = length pre + n" using assms(2) by simp
  have body: "unat (of_nat (length (body_of k)) :: uint32_t) = length (body_of k)"
    using assms(1) by (intro unat_of_nat_32) (simp add: packet_ok_def)
  show ?thesis
  proof (cases "n < 24")
    case True
    then show ?thesis using execute_short [of "of_nat (length pre)" ?m ctx] off len assms(3)
      by auto
  next
    case False
    have "MEMPROTO_BODY_LENGTH ?m (length pre) = of_nat (length (body_of k))"
      using False unfolding MEMPROTO_BODY_LENGTH_def encode_def
      by (simp add: ntohl_load_slice slice_at_def take_Cons')
    then show ?thesis
      using False assms off len body execute_header [of "of_nat (length pre)" ?m ctx]
      by (auto simp: Let_def)
  qed
qed

section \<open>Dispatch\<close>

text \<open>
  The shapes the protocol allows, by command: the extras' length, whether there is a key and
  whether there may be a value.
\<close>

definition shape_ok :: "memproto_command \<Rightarrow> nat \<Rightarrow> nat \<Rightarrow> nat \<Rightarrow> bool" where
  "shape_ok cmd extralen keylen vallen =
    (case cmd of
       MEMPROTO_CMD_GET \<Rightarrow> extralen = 0 \<and> 0 < keylen \<and> vallen = 0
     | MEMPROTO_CMD_GETQ \<Rightarrow> extralen = 0 \<and> 0 < keylen \<and> vallen = 0
     | MEMPROTO_CMD_GETK \<Rightarrow> extralen = 0 \<and> 0 < keylen \<and> vallen = 0
     | MEMPROTO_CMD_GETKQ \<Rightarrow> extralen = 0 \<and> 0 < keylen \<and> vallen = 0
     | MEMPROTO_CMD_DELETE \<Rightarrow> extralen \<in> {0, 4} \<and> 0 < keylen \<and> vallen = 0
     | MEMPROTO_CMD_FLUSH \<Rightarrow> extralen \<in> {0, 4} \<and> keylen = 0 \<and> vallen = 0
     | MEMPROTO_CMD_SET \<Rightarrow> extralen = 8 \<and> 0 < keylen
     | MEMPROTO_CMD_ADD \<Rightarrow> extralen = 8 \<and> 0 < keylen
     | MEMPROTO_CMD_REPLACE \<Rightarrow> extralen = 8 \<and> 0 < keylen
     | MEMPROTO_CMD_INCREMENT \<Rightarrow> extralen = 20 \<and> 0 < keylen \<and> vallen = 0
     | MEMPROTO_CMD_DECREMENT \<Rightarrow> extralen = 20 \<and> 0 < keylen \<and> vallen = 0
     | MEMPROTO_CMD_QUIT \<Rightarrow> extralen = 0 \<and> keylen = 0 \<and> vallen = 0
     | MEMPROTO_CMD_NOOP \<Rightarrow> extralen = 0 \<and> keylen = 0 \<and> vallen = 0
     | MEMPROTO_CMD_VERSION \<Rightarrow> extralen = 0 \<and> keylen = 0 \<and> vallen = 0
     | MEMPROTO_CMD_APPEND \<Rightarrow> extralen = 0 \<and> 0 < keylen
     | MEMPROTO_CMD_PREPEND \<Rightarrow> extralen = 0 \<and> 0 < keylen)"

lemma switch_shape:
  assumes "extra + unat extralen \<le> length mem"
  shows "if shape_ok cmd (unat extralen) (unat keylen) (unat vallen)
    then \<exists>args. memproto_switch cmd cb h mem extra extralen keylen vallen = Invoke cb h args
    else memproto_switch cmd cb h mem extra extralen keylen vallen =
      Return MEMPROTO_INVALID_ARGUMENT"
proof -
  have unat_eq: "unat x = n \<longleftrightarrow> x = of_nat n" if "n < 2 ^ 16" for x :: uint16_t and n
    using unat_of_nat_16 [OF that] by auto
  have lens: "unat extralen = 8 \<longleftrightarrow> extralen = 8" "unat extralen = 4 \<longleftrightarrow> extralen = 4"
    "unat extralen = 20 \<longleftrightarrow> extralen = 20"
    using unat_eq [of 8 extralen] unat_eq [of 4 extralen] unat_eq [of 20 extralen] by simp_all
  have fits: "length mem < extra + 4 \<longleftrightarrow> False" if "extralen = 4"
    using assms that by simp
  have fits8: "length mem < extra + 8 \<longleftrightarrow> False" if "extralen = 8"
    using assms that by simp
  have fits20: "length mem < extra + 20 \<longleftrightarrow> False" if "extralen = 20"
    using assms that by simp
  show ?thesis
    by (cases cmd; simp add: memproto_switch_def shape_ok_def Let_def lens unsigned_eq_0_iff
          unat_gt_0 fits fits8 fits20)
qed

lemma length_memproto_commands [simp]: "length memproto_commands = 16"
  by (simp add: memproto_commands_def)

text \<open>What dispatch does on an encoded packet, up to the callback's arguments.\<close>

lemma dispatch_encoded:
  assumes "packet_ok k" and "unat (pk_opcode k) < length (callback ctx)"
    and "header ctx = length pre" and "m = pre @ encode k @ post"
  shows "memproto_dispatch ctx m =
    (case callback ctx ! unat (pk_opcode k) of
       None \<Rightarrow> Return (- int (unat (pk_opcode k)))
     | Some cb \<Rightarrow> memproto_switch (memproto_commands ! unat (pk_opcode k)) cb (header_of_packet k) m
         (length pre + 24) (of_nat (length (pk_extra k))) (of_nat (length (pk_key k)))
         (of_nat (length (pk_val k))))"
proof -
  have "ucast (of_nat n :: byte) = (of_nat n :: uint16_t)" if "n < 2 ^ 8" for n
    using that by (metis of_nat_unat unat_of_nat_8)
  moreover have "ucast (of_nat n :: uint16_t) = (of_nat n :: uint32_t)" if "n < 2 ^ 16" for n
    using that by (metis of_nat_unat unat_of_nat_16)
  moreover have "of_nat (length (body_of k)) - of_nat (length (pk_extra k)) - of_nat (length (pk_key k))
      = (of_nat (length (pk_val k)) :: uint32_t)"
    by (simp add: body_of_def)
  ultimately show ?thesis
    using assms by (simp add: memproto_dispatch_def Let_def encoded_fields header_of_encoded
      packet_ok_def header_of_packet_def cong: option.case_cong)
qed

text \<open>Shape check: where the extras lie in the buffer, the callback of a known opcode runs
  exactly for the shapes of the protocol's table; every other shape is refused with
  \<open>MEMPROTO_INVALID_ARGUMENT\<close>, and the callback is not called.\<close>

theorem memproto_dispatch_shape:
  assumes "packet_ok k" and "callback ctx ! unat (pk_opcode k) = Some cb"
    and "unat (pk_opcode k) < length (callback ctx)"
    and "header ctx = length pre" and "m = pre @ encode k @ post"
  shows "if shape_ok (memproto_commands ! unat (pk_opcode k))
        (length (pk_extra k)) (length (pk_key k)) (length (pk_val k))
    then \<exists>args. memproto_dispatch ctx m = Invoke cb (header_of_packet k) args
    else memproto_dispatch ctx m = Return MEMPROTO_INVALID_ARGUMENT"
proof -
  have l: "unat (of_nat (length (pk_extra k)) :: uint16_t) = length (pk_extra k)"
    "unat (of_nat (length (pk_key k)) :: uint16_t) = length (pk_key k)"
    "unat (of_nat (length (pk_val k)) :: uint32_t) = length (pk_val k)"
    using assms(1) by (simp_all add: packet_ok_def body_of_def unat_of_nat_16 unat_of_nat_32)
  have "length pre + 24 + unat (of_nat (length (pk_extra k)) :: uint16_t) \<le> length m"
    using assms(5) by (simp add: l body_of_def)
  from switch_shape [OF this, of "memproto_commands ! unat (pk_opcode k)"
      "of_nat (length (pk_key k))" "of_nat (length (pk_val k))" cb "header_of_packet k"]
  show ?thesis
    using dispatch_encoded [OF assms(1,3,4,5)] assms(2) by (simp add: l)
qed

lemma encode_tail: "drop 24 (encode k) = body_of k"
  by (simp add: encode_def)

text \<open>The extras of a packet as the switch reads them.\<close>

lemma extra_at:
  assumes "m = pre @ encode k @ post"
  shows "slice_at m (length pre + 24 + i) n = slice_at (pk_extra k @ pk_key k @ pk_val k @ post) i n"
proof -
  define hd where "hd = take 24 (encode k)"
  have "encode k = hd @ body_of k"
    unfolding hd_def using append_take_drop_id [of 24 "encode k"] by (simp only: encode_tail)
  moreover have "length hd = 24" by (simp add: hd_def)
  ultimately show ?thesis
    using assms slice_at_append_right [of "pre @ hd" "length pre + 24 + i" "body_of k @ post" n]
    by (simp add: body_of_def)
qed


lemma bswap64_of_32_low: "ucast (memproto_be64h (ucast (x :: uint32_t))) = (0 :: uint32_t)"
proof (rule bit_word_eqI)
  fix n assume "n < LENGTH(32)"
  then have "n < 32" by simp
  then show "bit (ucast (memproto_be64h (ucast x)) :: uint32_t) n \<longleftrightarrow> bit (0 :: uint32_t) n"
    by (cases rule: byte_cases32)
      (auto simp: memproto_be64h_eq bit_ucast_iff dest!: bit_imp_le_length)
qed

text \<open>INCREMENT and DECREMENT deliver the amount and the initial value of the packet, but the
  expiration the callback gets is 0 whatever the packet says: the macro swaps 64 bits of a
  32-bit field.\<close>

theorem memproto_numeric_expiration_lost:
  assumes "packet_ok k" and "unat (pk_opcode k) \<in> {5, 6}"
    and "callback ctx ! unat (pk_opcode k) = Some cb" and "length (callback ctx) = 16"
    and "pk_extra k = be64 amount @ be64 initial @ be32 expiration"
    and "pk_key k \<noteq> []" and "pk_val k = []"
    and "header ctx = length pre" and "m = pre @ encode k @ post"
  shows "\<exists>key. memproto_dispatch ctx m =
      Invoke cb (header_of_packet k)
        (Numeric_args key (of_nat (length (pk_key k))) amount initial 0)
    \<and> slice_at m key (length (pk_key k)) = pk_key k"
proof -
  have kl: "unat (of_nat (length (pk_key k)) :: uint16_t) = length (pk_key k)"
    using assms(1) by (simp add: packet_ok_def unat_of_nat_16)
  then have kl0: "of_nat (length (pk_key k)) \<noteq> (0 :: uint16_t)" using assms(6) by force
  have cmd: "memproto_commands ! unat (pk_opcode k)
      \<in> {MEMPROTO_CMD_INCREMENT, MEMPROTO_CMD_DECREMENT}"
    using assms(2) by (auto simp: memproto_commands_def)
  have extra: "MEMPROTO_EXTRA_20_AMOUNT m (length pre + 24) = amount"
    "MEMPROTO_EXTRA_20_INITIAL m (length pre + 24) = initial"
    "MEMPROTO_EXTRA_20_EXPIRATION m (length pre + 24) = 0"
    using extra_at [OF assms(9), of 0 8] extra_at [OF assms(9), of 8 8] assms(5)
      bswap64_of_32_low [of "load32 m (length pre + 24 + 16)"]
    by (simp_all add: MEMPROTO_EXTRA_20_AMOUNT_def MEMPROTO_EXTRA_20_INITIAL_def
      MEMPROTO_EXTRA_20_EXPIRATION_def memproto_be64h_eq htonll_load_slice slice_at_def)
  have len: "length m = length pre + 24 + 20 + length (pk_key k @ post)"
    using assms(5,7,9) by (simp add: body_of_def)
  have "slice_at m (length pre + 24 + 20) (length (pk_key k)) = pk_key k"
    by (simp only: extra_at [OF assms(9)] assms(5)) (simp add: slice_at_def)
  then show ?thesis
    using assms cmd extra len kl kl0 dispatch_encoded [OF assms(1) _ assms(8,9)]
    by (auto simp: memproto_switch_def Let_def add.assoc)
qed

text \<open>The lengths of a store call, as dispatch computes them.\<close>

lemma dispatch_store_lengths:
  assumes "memproto_dispatch ctx m = Invoke cb h (Store_args key keylen val vallen flags e)"
  shows "keylen = MEMPROTO_KEY_LENGTH m (header ctx)"
    "key = header ctx + 32" "val = key + unat keylen"
    "vallen = MEMPROTO_BODY_LENGTH m (header ctx) - 8 - ucast keylen"
    "header ctx + 32 \<le> length m"
proof -
  obtain cmd cb' extralen where
    s: "memproto_switch cmd cb' (header_of m (header ctx)) m (header ctx + 24) extralen
      (MEMPROTO_KEY_LENGTH m (header ctx))
      (MEMPROTO_BODY_LENGTH m (header ctx) - ucast extralen
        - ucast (MEMPROTO_KEY_LENGTH m (header ctx)))
      = Invoke cb h (Store_args key keylen val vallen flags e)"
    using assms by (auto simp: memproto_dispatch_def Let_def split: if_splits option.splits)
  then have "extralen = 8" by (auto simp: memproto_switch_def Let_def split: if_splits)
  with s show "keylen = MEMPROTO_KEY_LENGTH m (header ctx)"
    "key = header ctx + 32" "val = key + unat keylen"
    "vallen = MEMPROTO_BODY_LENGTH m (header ctx) - 8 - ucast keylen"
    "header ctx + 32 \<le> length m"
    by (auto simp: memproto_switch_def Let_def split: if_splits)
qed


section \<open>Concrete packets\<close>

definition sample_callbacks :: "nat memproto_callback" where
  "sample_callbacks =
     \<lparr>cb_get = Some 0, cb_set = Some 1, cb_add = Some 2, cb_replace = Some 3, cb_delete = Some 4,
      cb_increment = Some 5, cb_decrement = Some 6, cb_quit = Some 7, cb_flush = Some 8,
      cb_getq = Some 9, cb_noop = Some 10, cb_version = Some 11, cb_getk = Some 12,
      cb_getkq = Some 13, cb_append = Some 14, cb_prepend = Some 15\<rparr>"

definition sample_set :: packet where
  "sample_set =
     \<lparr>pk_opcode = 1, pk_data_type = 0, pk_reserved = 0, pk_opaque = 7, pk_cas = 9,
      pk_extra = be32 5 @ be32 60, pk_key = bytes_of ''ab'', pk_val = bytes_of ''xyz''\<rparr>"

definition sample_incr :: packet where
  "sample_incr =
     \<lparr>pk_opcode = 5, pk_data_type = 0, pk_reserved = 0, pk_opaque = 7, pk_cas = 9,
      pk_extra = be64 1 @ be64 10 @ be32 3600, pk_key = bytes_of ''n'', pk_val = []\<rparr>"

abbreviation sample_parser :: "(nat, unit) memproto_parser" where
  "sample_parser \<equiv> memproto_parser_init sample_callbacks ()"

text \<open>A SET whose header announces a body of 8 bytes but a key of 5: its value length wraps.\<close>

definition sample_bad_set :: "byte list" where
  "sample_bad_set =
     [0x80, 1] @ be16 5 @ [8, 0] @ be16 0 @ be32 8 @ be32 0 @ be64 0 @ be32 0 @ be32 0"

lemma sample_parser_simps [simp]:
  "length (callback sample_parser) = 16" "header sample_parser = 0"
  "callback sample_parser ! 1 = Some 1" "callback sample_parser ! Suc 0 = Some 1"
  "callback sample_parser ! 5 = Some 5"
  by (simp_all add: memproto_parser_init_def sample_callbacks_def)

lemma sample_ok [simp]: "packet_ok sample_set" "packet_ok sample_incr"
  by (simp_all add: packet_ok_def body_of_def sample_set_def sample_incr_def)

lemma sample_fields [simp]:
  "unat (pk_opcode sample_set) = 1" "length (body_of sample_set) = 13"
  "pk_key sample_set = bytes_of ''ab''" "pk_val sample_set = bytes_of ''xyz''"
  "unat (pk_opcode sample_incr) = 5" "pk_key sample_incr = bytes_of ''n''"
  "pk_val sample_incr = []"
  by (simp_all add: sample_set_def sample_incr_def body_of_def)

theorem memproto_execute_packet_witness:
  "memproto_parser_execute sample_parser ([9] @ encode sample_set @ [1]) 1 =
    Some (1, sample_parser\<lparr>header := 1\<rparr>, 38)"
  using memproto_execute_packet [of sample_set "[9]" "[1]" sample_parser] by simp

theorem memproto_execute_partial_witness:
  "\<exists>ctx'. memproto_parser_execute sample_parser ([9] @ take 36 (encode sample_set)) 1 =
    Some (0, ctx', 1)"
  using memproto_execute_partial [of sample_set 36 "[9]" sample_parser] by simp

theorem memproto_dispatch_shape_witness:
  "\<exists>args. memproto_dispatch sample_parser ([] @ encode sample_set @ [1]) =
    Invoke 1 (header_of_packet sample_set) args"
proof -
  have "shape_ok (memproto_commands ! 1) (length (pk_extra sample_set))
      (length (pk_key sample_set)) (length (pk_val sample_set))"
    by (simp add: shape_ok_def memproto_commands_def sample_set_def)
  then show ?thesis
    using memproto_dispatch_shape [of sample_set sample_parser 1 "[]" _ "[1]", OF _ _ _ _ refl]
    by (simp del: bytes_of_Cons bytes_of_Nil)
qed


theorem memproto_numeric_expiration_lost_witness:
  "\<exists>key. memproto_dispatch sample_parser ([] @ encode sample_incr @ []) =
      Invoke 5 (header_of_packet sample_incr) (Numeric_args key 1 1 10 0)
    \<and> slice_at ([] @ encode sample_incr @ []) key 1 = bytes_of ''n''"
proof -
  have "pk_extra sample_incr = be64 1 @ be64 10 @ be32 3600" by (simp add: sample_incr_def)
  then show ?thesis
    using memproto_numeric_expiration_lost
      [of sample_incr sample_parser 5 1 10 3600 "[]" _ "[]", OF _ _ _ _ _ _ _ _ refl]
    by simp
qed


end
