(* ===== verification/Memtext.thy ===== *)
theory Memtext
  imports Prelude
begin

text \<open>
  \<^verbatim>\<open>src/memproto/memtext.rl\<close> and \<^verbatim>\<open>memtext.h\<close>: the parser of the memcached text protocol. The
  source is a Ragel specification: regular expressions with embedded actions, and the C code of
  the actions. \<open>trans\<close> is the deterministic machine of those expressions, with the actions of
  each transition in Ragel's order (entering actions from the outside in, then the others);
  \<open>do_action\<close> is the C code of each action; \<open>exec_loop\<close> is the loop Ragel generates.

  The parser's fields carry the prefix \<open>mt_\<close>. Positions are offsets from \<open>data\<close>, pointers are
  \<open>base\<close> plus an offset, where \<open>base\<close> is the address of \<open>data\<close>. A callback is a function of the
  user value, the command, the request, the buffer and the state \<open>'w\<close> of everything outside the
  parser; it may write to the buffer, it returns an \<open>int\<close> or throws. An array access out of
  bounds is a \<open>Memory_fault\<close>.
\<close>

section \<open>Commands, requests, parser\<close>

datatype memtext_command =
    MEMTEXT_CMD_GET | MEMTEXT_CMD_GETS
  | MEMTEXT_CMD_SET | MEMTEXT_CMD_ADD | MEMTEXT_CMD_REPLACE | MEMTEXT_CMD_APPEND
  | MEMTEXT_CMD_PREPEND
  | MEMTEXT_CMD_CAS
  | MEMTEXT_CMD_DELETE
  | MEMTEXT_CMD_INCR | MEMTEXT_CMD_DECR

definition MEMTEXT_MAX_MULTI_GET :: nat where [simp]: "MEMTEXT_MAX_MULTI_GET = 256"
definition NUM_BUF_MAX :: nat where [simp]: "NUM_BUF_MAX = 20"

record memtext_request_retrieval =
  rr_key :: "size_t list"
  rr_key_len :: "size_t list"
  rr_key_num :: uint32_t

record memtext_request_storage =
  rs_key :: size_t
  rs_key_len :: size_t
  rs_data :: size_t
  rs_data_len :: size_t
  rs_flags :: uint16_t
  rs_exptime :: uint32_t
  rs_noreply :: bool

record memtext_request_cas =
  rc_key :: size_t
  rc_key_len :: size_t
  rc_data :: size_t
  rc_data_len :: size_t
  rc_flags :: uint16_t
  rc_exptime :: uint32_t
  rc_noreply :: bool
  rc_cas_unique :: uint64_t

record memtext_request_delete =
  rd_key :: size_t
  rd_key_len :: size_t
  rd_exptime :: uint32_t
  rd_noreply :: bool

record memtext_request_numeric =
  rn_key :: size_t
  rn_key_len :: size_t
  rn_value :: uint64_t
  rn_noreply :: bool

datatype memtext_request =
    Req_retrieval memtext_request_retrieval
  | Req_storage memtext_request_storage
  | Req_cas memtext_request_cas
  | Req_delete memtext_request_delete
  | Req_numeric memtext_request_numeric

datatype cb_result = Cb_return int | Cb_throw

type_synonym ('u, 'w) memtext_cb =
  "'u \<Rightarrow> memtext_command \<Rightarrow> memtext_request \<Rightarrow> byte list \<Rightarrow> 'w \<Rightarrow> cb_result \<times> byte list \<times> 'w"

text \<open>The structure of callbacks, as a table by command; \<open>None\<close> is a null pointer.\<close>

type_synonym ('u, 'w) memtext_callback = "memtext_command \<Rightarrow> ('u, 'w) memtext_cb option"

text \<open>The kinds of command the grammar distinguishes.\<close>

datatype kind = Retrieval | Storage | Cas | Delete | Numeric

text \<open>
  The states of the machine, named by what has been read. A \<open>0\<close> state waits for the first
  character of an item, a \<open>z\<close> state has read the number 0, an \<open>n\<close> state is inside a number.
\<close>

datatype cstate =
    S_error | S_start | S_final | S_data
  | S_kw "byte list"
  | S_key0 kind | S_key kind | S_key_sp
  | S_flags0 kind | S_flags_z kind | S_flags_n kind
  | S_exp0 kind | S_exp_z kind | S_exp_n kind
  | S_bytes0 kind | S_bytes_n kind
  | S_uniq0 kind | S_uniq_z kind | S_uniq_n kind
  | S_opt kind | S_nore kind "byte list" | S_last_sp kind
  | S_cr kind | S_hdr_cr kind | S_body kind | S_body_cr kind

record ('u, 'w) memtext_parser =
  mt_data_count :: size_t
  mt_cs :: cstate
  mt_top :: nat
  mt_stack :: "cstate list"
  mt_command :: memtext_command
  mt_key_pos :: "size_t list"
  mt_key_len :: "size_t list"
  mt_keys :: uint32_t
  mt_flags :: size_t
  mt_exptime :: uint32_t
  mt_bytes :: size_t
  mt_noreply :: bool
  mt_cas_unique :: uint64_t
  mt_data_pos :: size_t
  mt_data_len :: size_t
  mt_callback :: "('u, 'w) memtext_callback"
  mt_user :: 'u

section \<open>The machine\<close>

datatype action =
    A_reset | A_mark_key | A_key | A_incr_key
  | A_mark_flags | A_flags | A_mark_exptime | A_exptime | A_mark_bytes | A_bytes
  | A_noreply | A_mark_cas_unique | A_cas_unique | A_data_start | A_data
  | A_cmd memtext_command
  | A_do_retrieval | A_do_storage | A_do_cas | A_do_delete | A_do_numeric

definition SP :: byte where "SP = 32"
definition CR :: byte where "CR = 13"
definition LF :: byte where "LF = 10"
definition NUL :: byte where "NUL = 0"

definition key_char :: "byte \<Rightarrow> bool" where
  "key_char c \<longleftrightarrow> c \<noteq> CR \<and> c \<noteq> SP \<and> c \<noteq> NUL \<and> c \<noteq> LF"

definition digit :: "byte \<Rightarrow> bool" where
  "digit c \<longleftrightarrow> 48 \<le> c \<and> c \<le> 57"

definition digit19 :: "byte \<Rightarrow> bool" where
  "digit19 c \<longleftrightarrow> 49 \<le> c \<and> c \<le> 57"

definition command_words :: "(byte list \<times> memtext_command) list" where
  "command_words =
    [(bytes_of ''gets'', MEMTEXT_CMD_GETS), (bytes_of ''get'', MEMTEXT_CMD_GET),
     (bytes_of ''set'', MEMTEXT_CMD_SET), (bytes_of ''add'', MEMTEXT_CMD_ADD),
     (bytes_of ''replace'', MEMTEXT_CMD_REPLACE), (bytes_of ''append'', MEMTEXT_CMD_APPEND),
     (bytes_of ''prepend'', MEMTEXT_CMD_PREPEND), (bytes_of ''cas'', MEMTEXT_CMD_CAS),
     (bytes_of ''delete'', MEMTEXT_CMD_DELETE), (bytes_of ''incr'', MEMTEXT_CMD_INCR),
     (bytes_of ''decr'', MEMTEXT_CMD_DECR)]"

instantiation memtext_command :: enum
begin

definition enum_memtext_command :: "memtext_command list" where
  "enum_memtext_command = map snd command_words"

definition enum_all_memtext_command :: "(memtext_command \<Rightarrow> bool) \<Rightarrow> bool" where
  "enum_all_memtext_command P \<longleftrightarrow> list_all (\<lambda>(w, cmd). P cmd) command_words"

definition enum_ex_memtext_command :: "(memtext_command \<Rightarrow> bool) \<Rightarrow> bool" where
  "enum_ex_memtext_command P \<longleftrightarrow> list_ex (\<lambda>(w, cmd). P cmd) command_words"

instance
proof
  show univ: "(UNIV :: memtext_command set) = set enum_class.enum"
    using memtext_command.exhaust by (auto simp: enum_memtext_command_def command_words_def)
  show "distinct (enum_class.enum :: memtext_command list)"
    by (simp add: enum_memtext_command_def command_words_def)
  show "enum_class.enum_all P \<longleftrightarrow> Ball UNIV P" for P :: "memtext_command \<Rightarrow> bool"
    unfolding univ by (auto simp: enum_all_memtext_command_def enum_memtext_command_def list_all_iff)
  show "enum_class.enum_ex P \<longleftrightarrow> Bex UNIV P" for P :: "memtext_command \<Rightarrow> bool"
    unfolding univ by (force simp: enum_ex_memtext_command_def enum_memtext_command_def list_ex_iff)
qed

end

text \<open>Each command has its word, and each word one command.\<close>

lemma command_word: "\<exists>!w. (w, cmd) \<in> set command_words"
  by (cases cmd) (auto simp: command_words_def)

lemma command_words_distinct: "distinct (map fst command_words)"
  by (simp add: command_words_def)

fun kind_of :: "memtext_command \<Rightarrow> kind" where
  "kind_of MEMTEXT_CMD_GET = Retrieval"
| "kind_of MEMTEXT_CMD_GETS = Retrieval"
| "kind_of MEMTEXT_CMD_CAS = Cas"
| "kind_of MEMTEXT_CMD_DELETE = Delete"
| "kind_of MEMTEXT_CMD_INCR = Numeric"
| "kind_of MEMTEXT_CMD_DECR = Numeric"
| "kind_of _ = Storage"

definition keyword_prefix :: "byte list \<Rightarrow> bool" where
  "keyword_prefix w \<longleftrightarrow> list_ex (\<lambda>(k, _). take (length w) k = w) command_words"

definition keyword_actions :: "byte list \<Rightarrow> action list" where
  "keyword_actions w = (case map_of command_words w of None \<Rightarrow> [] | Some cmd \<Rightarrow> [A_cmd cmd])"

text \<open>The end of a command line: what follows decides whether a data block comes.\<close>

fun line_end :: "kind \<Rightarrow> cstate" where
  "line_end Storage = S_hdr_cr Storage"
| "line_end Cas = S_hdr_cr Cas"
| "line_end k = S_cr k"

fun do_command :: "kind \<Rightarrow> action" where
  "do_command Retrieval = A_do_retrieval"
| "do_command Storage = A_do_storage"
| "do_command Cas = A_do_cas"
| "do_command Delete = A_do_delete"
| "do_command Numeric = A_do_numeric"

fun after_key :: "kind \<Rightarrow> cstate" where
  "after_key Retrieval = S_key_sp"
| "after_key Storage = S_flags0 Storage"
| "after_key Cas = S_flags0 Cas"
| "after_key Delete = S_exp0 Delete"
| "after_key Numeric = S_uniq0 Numeric"

fun after_exptime :: "kind \<Rightarrow> cstate" where
  "after_exptime Delete = S_opt Delete"
| "after_exptime k = S_bytes0 k"

fun after_bytes :: "kind \<Rightarrow> cstate" where
  "after_bytes Cas = S_uniq0 Cas"
| "after_bytes k = S_opt k"

text \<open>One number: leading digit, further digits, then a space or the end of the line.\<close>

definition trans_number0 ::
    "(kind \<Rightarrow> cstate) \<Rightarrow> (kind \<Rightarrow> cstate) \<Rightarrow> action \<Rightarrow> kind \<Rightarrow> byte \<Rightarrow>
     (cstate \<times> action list) option" where
  "trans_number0 z n mark k c =
    (if c = 48 then Some (z k, [mark]) else if digit19 c then Some (n k, [mark]) else None)"

definition trans_number ::
    "bool \<Rightarrow> cstate \<Rightarrow> cstate option \<Rightarrow> cstate option \<Rightarrow> action \<Rightarrow> byte \<Rightarrow>
     (cstate \<times> action list) option" where
  "trans_number again self on_sp on_cr act c =
    (if again \<and> digit c then Some (self, [])
     else if c = SP then map_option (\<lambda>t. (t, [act])) on_sp
     else if c = CR then map_option (\<lambda>t. (t, [act])) on_cr
     else None)"

fun trans :: "cstate \<Rightarrow> byte \<Rightarrow> (cstate \<times> action list) option" where
  "trans S_error c = None"
| "trans S_start c = (if keyword_prefix [c] then Some (S_kw [c], [A_reset]) else None)"
| "trans S_final c = (if keyword_prefix [c] then Some (S_kw [c], [A_reset]) else None)"
| "trans S_data c = Some (S_data, [A_data])"
| "trans (S_kw w) c =
    (if c = SP then
       (case map_of command_words w of
          None \<Rightarrow> None
        | Some cmd \<Rightarrow> Some (S_key0 (kind_of cmd), []))
     else if keyword_prefix (w @ [c]) then Some (S_kw (w @ [c]), keyword_actions (w @ [c]))
     else None)"
| "trans (S_key0 k) c = (if key_char c then Some (S_key k, [A_mark_key]) else None)"
| "trans (S_key k) c =
    (if key_char c then Some (S_key k, [])
     else if c = SP then Some (after_key k, [A_key])
     else if c = CR \<and> k \<in> {Retrieval, Delete} then Some (S_cr k, [A_key])
     else None)"
| "trans S_key_sp c =
    (if key_char c then Some (S_key Retrieval, [A_incr_key, A_mark_key])
     else if c = CR then Some (S_cr Retrieval, [])
     else None)"
| "trans (S_flags0 k) c = trans_number0 S_flags_z S_flags_n A_mark_flags k c"
| "trans (S_flags_z k) c = trans_number False (S_flags_z k) (Some (S_exp0 k)) None A_flags c"
| "trans (S_flags_n k) c = trans_number True (S_flags_n k) (Some (S_exp0 k)) None A_flags c"
| "trans (S_exp0 k) c =
    (if k = Delete \<and> c = 110 then Some (S_nore k [c], [])
     else trans_number0 S_exp_z S_exp_n A_mark_exptime k c)"
| "trans (S_exp_z k) c =
    trans_number False (S_exp_z k) (Some (after_exptime k))
      (if k = Delete then Some (S_cr k) else None) A_exptime c"
| "trans (S_exp_n k) c =
    trans_number True (S_exp_n k) (Some (after_exptime k))
      (if k = Delete then Some (S_cr k) else None) A_exptime c"
| "trans (S_bytes0 k) c = (if digit19 c then Some (S_bytes_n k, [A_mark_bytes]) else None)"
| "trans (S_bytes_n k) c =
    trans_number True (S_bytes_n k) (Some (after_bytes k))
      (if k = Storage then Some (line_end k) else None) A_bytes c"
| "trans (S_uniq0 k) c = trans_number0 S_uniq_z S_uniq_n A_mark_cas_unique k c"
| "trans (S_uniq_z k) c =
    trans_number False (S_uniq_z k) (Some (S_opt k)) (Some (line_end k)) A_cas_unique c"
| "trans (S_uniq_n k) c =
    trans_number True (S_uniq_n k) (Some (S_opt k)) (Some (line_end k)) A_cas_unique c"
| "trans (S_opt k) c =
    (if c = 110 then Some (S_nore k [c], [])
     else if k = Storage \<and> c = CR then Some (line_end k, [])
     else None)"
| "trans (S_nore k w) c =
    (if w = bytes_of ''noreply'' then
       (if k = Storage \<and> c = SP then Some (S_last_sp k, [A_noreply])
        else if c = CR then Some (line_end k, [A_noreply])
        else None)
     else if take (length w + 1) (bytes_of ''noreply'') = w @ [c] then Some (S_nore k (w @ [c]), [])
     else None)"
| "trans (S_last_sp k) c = (if c = CR then Some (line_end k, []) else None)"
| "trans (S_cr k) c = (if c = LF then Some (S_final, [do_command k]) else None)"
| "trans (S_hdr_cr k) c = (if c = LF then Some (S_body k, [A_data_start]) else None)"
| "trans (S_body k) c = (if c = CR then Some (S_body_cr k, []) else None)"
| "trans (S_body_cr k) c = (if c = LF then Some (S_final, [do_command k]) else None)"


section \<open>The actions\<close>

text \<open>
  \<open>Convert_error\<close> is the \<open>goto convert_error\<close> of an action, \<open>Cb_threw\<close> an exception thrown by a
  callback, which passes through the parser.
\<close>

datatype 'a act = Ok 'a | Convert_error 'a | Cb_threw 'a | Memory_fault

fun map_ok :: "('a \<Rightarrow> 'b) \<Rightarrow> 'a act \<Rightarrow> 'b act" where
  "map_ok f (Ok a) = Ok (f a)"
| "map_ok f (Convert_error a) = Convert_error (f a)"
| "map_ok f (Cb_threw a) = Cb_threw (f a)"
| "map_ok f Memory_fault = Memory_fault"

text \<open>\<open>strtoul\<close>, \<open>strtoull\<close> in base 10 of a text that begins with a digit: saturating.\<close>

definition number_of_digits :: "byte list \<Rightarrow> nat" where
  "number_of_digits ds = foldl (\<lambda>n d. 10 * n + (unat d - 48)) 0 ds"

definition ULONG_MAX :: nat where "ULONG_MAX = 18446744073709551615"

definition strtoul :: "byte list \<Rightarrow> uint64_t" where
  "strtoul cs = of_nat (min ULONG_MAX (number_of_digits (takeWhile digit cs)))"

definition MARK_LEN :: "size_t \<Rightarrow> nat \<Rightarrow> size_t" where
  "MARK_LEN m p = of_nat p - m"

text \<open>
  \<open>SET_INTEGER\<close> with the conversion \<open>put\<close> to the type of the destination, which the code reads
  back for its test against 0.
\<close>

definition SET_INTEGER ::
    "('d::len word \<Rightarrow> 'c \<Rightarrow> 'c) \<Rightarrow> size_t \<Rightarrow> nat \<Rightarrow> byte list \<Rightarrow> 'c \<Rightarrow> 'c act" where
  "SET_INTEGER put m p buf ctx =
    (if length buf \<le> unat m then Memory_fault
     else if buf ! unat m = 48 then Ok (put 0 ctx)
     else
       let len = MARK_LEN m p in
       if of_nat NUM_BUF_MAX < len then Convert_error ctx
       else if length buf < unat m + unat len then Memory_fault
       else
         let v = ucast (strtoul (slice_at buf (unat m) (unat len))) in
         if v = 0 then Convert_error (put v ctx) else Ok (put v ctx))"

text \<open>The actions that touch only the parser.\<close>

fun parse_action :: "byte list \<Rightarrow> nat \<Rightarrow> action \<Rightarrow> ('u, 'w) memtext_parser \<Rightarrow>
    ('u, 'w) memtext_parser act" where
  "parse_action buf p A_reset ctx = Ok (ctx\<lparr>mt_keys := 0, mt_noreply := False, mt_exptime := 0\<rparr>)"
| "parse_action buf p A_mark_key ctx =
    (if length (mt_key_pos ctx) \<le> unat (mt_keys ctx) then Memory_fault
     else Ok (ctx\<lparr>mt_key_pos := (mt_key_pos ctx)[unat (mt_keys ctx) := of_nat p]\<rparr>))"
| "parse_action buf p A_key ctx =
    (if length (mt_key_pos ctx) \<le> unat (mt_keys ctx)
        \<or> length (mt_key_len ctx) \<le> unat (mt_keys ctx) then Memory_fault
     else Ok (ctx\<lparr>mt_key_len := (mt_key_len ctx)
            [unat (mt_keys ctx) := MARK_LEN (mt_key_pos ctx ! unat (mt_keys ctx)) p]\<rparr>))"
| "parse_action buf p A_incr_key ctx =
    (let ctx = ctx\<lparr>mt_keys := mt_keys ctx + 1\<rparr> in
     if of_nat MEMTEXT_MAX_MULTI_GET < mt_keys ctx then Convert_error ctx else Ok ctx)"
| "parse_action buf p A_mark_flags ctx = Ok (ctx\<lparr>mt_flags := of_nat p\<rparr>)"
| "parse_action buf p A_flags ctx =
    SET_INTEGER (\<lambda>v c. c\<lparr>mt_flags := v\<rparr>) (mt_flags ctx) p buf ctx"
| "parse_action buf p A_mark_exptime ctx = Ok (ctx\<lparr>mt_exptime := of_nat p\<rparr>)"
| "parse_action buf p A_exptime ctx =
    SET_INTEGER (\<lambda>v c. c\<lparr>mt_exptime := v\<rparr>) (ucast (mt_exptime ctx)) p buf ctx"
| "parse_action buf p A_mark_bytes ctx = Ok (ctx\<lparr>mt_bytes := of_nat p\<rparr>)"
| "parse_action buf p A_bytes ctx =
    SET_INTEGER (\<lambda>v c. c\<lparr>mt_bytes := v\<rparr>) (mt_bytes ctx) p buf ctx"
| "parse_action buf p A_noreply ctx = Ok (ctx\<lparr>mt_noreply := True\<rparr>)"
| "parse_action buf p A_mark_cas_unique ctx = Ok (ctx\<lparr>mt_cas_unique := of_nat p\<rparr>)"
| "parse_action buf p A_cas_unique ctx =
    SET_INTEGER (\<lambda>v c. c\<lparr>mt_cas_unique := v\<rparr>) (mt_cas_unique ctx) p buf ctx"
| "parse_action buf p A_data_start ctx =
    (if length (mt_stack ctx) \<le> mt_top ctx then Memory_fault
     else Ok (ctx\<lparr>mt_data_pos := of_nat (p + 1), mt_data_count := mt_bytes ctx,
                 mt_stack := (mt_stack ctx)[mt_top ctx := mt_cs ctx],
                 mt_top := mt_top ctx + 1, mt_cs := S_data\<rparr>))"
| "parse_action buf p A_data ctx =
    (let ctx = ctx\<lparr>mt_data_count := mt_data_count ctx - 1\<rparr> in
     if mt_data_count ctx = 0 then
       let ctx = ctx\<lparr>mt_data_len := MARK_LEN (mt_data_pos ctx) (p + 1)\<rparr> in
       if mt_top ctx = 0 \<or> length (mt_stack ctx) < mt_top ctx then Memory_fault
       else Ok (ctx\<lparr>mt_top := mt_top ctx - 1, mt_cs := mt_stack ctx ! (mt_top ctx - 1)\<rparr>)
     else Ok ctx)"
| "parse_action buf p (A_cmd c) ctx = Ok (ctx\<lparr>mt_command := c\<rparr>)"
| "parse_action buf p _ ctx = Ok ctx"

text \<open>
  \<open>do_retrieval\<close> turns the positions of the keys into pointers, in place; \<open>None\<close> is an access
  beyond the array.
\<close>

definition absolute_keys :: "size_t \<Rightarrow> ('u, 'w) memtext_parser \<Rightarrow> ('u, 'w) memtext_parser option" where
  "absolute_keys base ctx =
    (let n = unat (mt_keys ctx) in
     if length (mt_key_pos ctx) < n \<or> length (mt_key_len ctx) < n then None
     else Some (ctx\<lparr>mt_key_pos := map (\<lambda>m. base + m) (take n (mt_key_pos ctx)) @ drop n (mt_key_pos ctx)\<rparr>))"

text \<open>
  The request an action builds. The initialiser of the \<open>cas\<close> request lists \<open>cas_unique\<close> before
  \<open>noreply\<close>, the structure declares them in the other order.
\<close>

fun request_of :: "size_t \<Rightarrow> action \<Rightarrow> ('u, 'w) memtext_parser \<Rightarrow> memtext_request" where
  "request_of base A_do_retrieval ctx =
    Req_retrieval \<lparr>rr_key = take (unat (mt_keys ctx)) (mt_key_pos ctx),
                   rr_key_len = take (unat (mt_keys ctx)) (mt_key_len ctx),
                   rr_key_num = mt_keys ctx\<rparr>"
| "request_of base A_do_storage ctx =
    Req_storage \<lparr>rs_key = base + mt_key_pos ctx ! 0, rs_key_len = mt_key_len ctx ! 0,
                 rs_data = base + mt_data_pos ctx, rs_data_len = mt_data_len ctx,
                 rs_flags = ucast (mt_flags ctx), rs_exptime = mt_exptime ctx,
                 rs_noreply = mt_noreply ctx\<rparr>"
| "request_of base A_do_cas ctx =
    Req_cas \<lparr>rc_key = base + mt_key_pos ctx ! 0, rc_key_len = mt_key_len ctx ! 0,
             rc_data = base + mt_data_pos ctx, rc_data_len = mt_data_len ctx,
             rc_flags = ucast (mt_flags ctx), rc_exptime = mt_exptime ctx,
             rc_noreply = (mt_cas_unique ctx \<noteq> 0),
             rc_cas_unique = (if mt_noreply ctx then 1 else 0)\<rparr>"
| "request_of base A_do_delete ctx =
    Req_delete \<lparr>rd_key = base + mt_key_pos ctx ! 0, rd_key_len = mt_key_len ctx ! 0,
                rd_exptime = mt_exptime ctx, rd_noreply = mt_noreply ctx\<rparr>"
| "request_of base _ ctx =
    Req_numeric \<lparr>rn_key = base + mt_key_pos ctx ! 0, rn_key_len = mt_key_len ctx ! 0,
                 rn_value = mt_cas_unique ctx, rn_noreply = mt_noreply ctx\<rparr>"

text \<open>The call of the callback: a null pointer and a negative result are errors.\<close>

definition call_back :: "size_t \<Rightarrow> action \<Rightarrow> ('u, 'w) memtext_parser \<times> byte list \<times> 'w \<Rightarrow>
    (('u, 'w) memtext_parser \<times> byte list \<times> 'w) act" where
  "call_back base a s =
    (case s of (ctx, buf, w) \<Rightarrow>
      (case mt_callback ctx (mt_command ctx) of
         None \<Rightarrow> Convert_error (ctx, buf, w)
       | Some cb \<Rightarrow>
         (case cb (mt_user ctx) (mt_command ctx) (request_of base a ctx) buf w of
            (Cb_throw, buf', w') \<Rightarrow> Cb_threw (ctx, buf', w')
          | (Cb_return r, buf', w') \<Rightarrow>
              (if r < 0 then Convert_error (ctx, buf', w') else Ok (ctx, buf', w')))))"

definition is_do :: "action \<Rightarrow> bool" where
  "is_do a \<longleftrightarrow> a \<in> {A_do_retrieval, A_do_storage, A_do_cas, A_do_delete, A_do_numeric}"

definition do_action :: "size_t \<Rightarrow> nat \<Rightarrow> action \<Rightarrow> ('u, 'w) memtext_parser \<times> byte list \<times> 'w \<Rightarrow>
    (('u, 'w) memtext_parser \<times> byte list \<times> 'w) act" where
  "do_action base p a s =
    (case s of (ctx, buf, w) \<Rightarrow>
      if \<not> is_do a then map_ok (\<lambda>c. (c, buf, w)) (parse_action buf p a ctx)
      else if a = A_do_retrieval then
        (case absolute_keys base (ctx\<lparr>mt_keys := mt_keys ctx + 1\<rparr>) of
           None \<Rightarrow> Memory_fault
         | Some ctx' \<Rightarrow> call_back base a (ctx', buf, w))
      else call_back base a (ctx, buf, w))"

fun run_actions :: "size_t \<Rightarrow> nat \<Rightarrow> action list \<Rightarrow> ('u, 'w) memtext_parser \<times> byte list \<times> 'w \<Rightarrow>
    (('u, 'w) memtext_parser \<times> byte list \<times> 'w) act" where
  "run_actions base p [] s = Ok s"
| "run_actions base p (a # as) s =
    (case do_action base p a s of Ok s' \<Rightarrow> run_actions base p as s' | r \<Rightarrow> r)"

section \<open>The loop and the entry points\<close>

text \<open>
  \<open>memtext_init\<close>: every field is 0, so the state is the start state and the stack holds the error
  state, which is number 0.
\<close>

definition memtext_init :: "('u, 'w) memtext_callback \<Rightarrow> 'u \<Rightarrow> ('u, 'w) memtext_parser" where
  "memtext_init callback user =
    \<lparr>mt_data_count = 0, mt_cs = S_start, mt_top = 0, mt_stack = [S_error],
     mt_command = MEMTEXT_CMD_GET,
     mt_key_pos = replicate MEMTEXT_MAX_MULTI_GET 0, mt_key_len = replicate MEMTEXT_MAX_MULTI_GET 0,
     mt_keys = 0, mt_flags = 0, mt_exptime = 0, mt_bytes = 0, mt_noreply = False,
     mt_cas_unique = 0, mt_data_pos = 0, mt_data_len = 0,
     mt_callback = callback, mt_user = user\<rparr>"

text \<open>
  The generated loop, from position \<open>p\<close> to \<open>pe\<close>. A character without a transition and a
  \<open>convert_error\<close> both leave the position at that character, in the error state.
\<close>

function exec_loop :: "size_t \<Rightarrow> nat \<Rightarrow> nat \<Rightarrow> ('u, 'w) memtext_parser \<times> byte list \<times> 'w \<Rightarrow>
    (nat \<times> ('u, 'w) memtext_parser \<times> byte list \<times> 'w) act" where
  "exec_loop base pe p (ctx, buf, w) =
    (if pe \<le> p \<or> mt_cs ctx = S_error then Ok (p, ctx, buf, w)
     else if length buf \<le> p then Memory_fault
     else case trans (mt_cs ctx) (buf ! p) of
         None \<Rightarrow> Ok (p, ctx\<lparr>mt_cs := S_error\<rparr>, buf, w)
       | Some (t, as) \<Rightarrow>
         (case run_actions base p as (ctx\<lparr>mt_cs := t\<rparr>, buf, w) of
            Ok s \<Rightarrow> exec_loop base pe (p + 1) s
          | Convert_error (ctx', buf', w') \<Rightarrow> Ok (p, ctx'\<lparr>mt_cs := S_error\<rparr>, buf', w')
          | Cb_threw (ctx', buf', w') \<Rightarrow> Cb_threw (p, ctx'\<lparr>mt_cs := mt_cs ctx\<rparr>, buf', w')
          | Memory_fault \<Rightarrow> Memory_fault))"
  by pat_completeness auto
termination
  by (relation "measure (\<lambda>(base, pe, p, s). pe - p)") auto

declare exec_loop.simps [simp del]

definition return_code :: "cstate \<Rightarrow> int" where
  "return_code cs = (if cs = S_error then -1 else if cs = S_final then 1 else 0)"

text \<open>
  \<open>memtext_execute\<close>: the result, the new offset and the state. An exception leaves \<open>off\<close> and the
  saved machine state as they were.
\<close>

definition memtext_execute :: "size_t \<Rightarrow> ('u, 'w) memtext_parser \<times> byte list \<times> 'w \<Rightarrow>
    nat \<Rightarrow> nat \<Rightarrow> (int \<times> nat \<times> ('u, 'w) memtext_parser \<times> byte list \<times> 'w) act" where
  "memtext_execute base s len off =
    (if len \<le> off then Ok (0, off, s)
     else case exec_loop base len off s of
         Ok (p, ctx, buf, w) \<Rightarrow> Ok (return_code (mt_cs ctx), p, ctx, buf, w)
       | Convert_error (p, ctx, buf, w) \<Rightarrow> Ok (-1, p, ctx, buf, w)
       | Cb_threw (p, ctx, buf, w) \<Rightarrow>
           Cb_threw (0, off, ctx\<lparr>mt_cs := mt_cs (fst s), mt_top := mt_top (fst s)\<rparr>, buf, w)
       | Memory_fault \<Rightarrow> Memory_fault)"

section \<open>The loop: range and segmentation\<close>

fun bind_ok :: "'a act \<Rightarrow> ('a \<Rightarrow> 'b act) \<Rightarrow> ('a \<Rightarrow> 'b) \<Rightarrow> 'b act" where
  "bind_ok (Ok a) f g = f a"
| "bind_ok (Convert_error a) f g = Convert_error (g a)"
| "bind_ok (Cb_threw a) f g = Cb_threw (g a)"
| "bind_ok Memory_fault f g = Memory_fault"

lemma exec_loop_end [simp]: "pe \<le> p \<Longrightarrow> exec_loop base pe p s = Ok (p, s)"
  by (cases s) (simp add: exec_loop.simps)

lemma exec_loop_error [simp]: "mt_cs (fst s) = S_error \<Longrightarrow> exec_loop base pe p s = Ok (p, s)"
  by (cases s) (simp add: exec_loop.simps)

lemma exec_loop_Ok:
  "exec_loop base pe p s = Ok (p', s') \<Longrightarrow> p \<le> pe \<Longrightarrow>
   p \<le> p' \<and> p' \<le> pe \<and> (p' = pe \<or> mt_cs (fst s') = S_error)"
proof (induction base pe p s arbitrary: p' s' rule: exec_loop.induct)
  case (1 base pe p ctx buf w)
  consider (stop) "pe \<le> p \<or> mt_cs ctx = S_error" | (fault) "\<not> (pe \<le> p \<or> mt_cs ctx = S_error)" "length buf \<le> p"
    | (go) "\<not> (pe \<le> p \<or> mt_cs ctx = S_error)" "\<not> length buf \<le> p" by blast
  then show ?case
  proof cases
    case stop
    with 1(2,3) show ?thesis by auto
  next
    case fault
    with 1(2) show ?thesis by (simp add: exec_loop.simps)
  next
    case go
    show ?thesis
    proof (cases "trans (mt_cs ctx) (buf ! p)")
      case None
      with go 1(2) show ?thesis by (auto simp: exec_loop.simps)
    next
      case (Some ta)
      obtain t as where ta: "ta = (t, as)" by (cases ta)
      show ?thesis
      proof (cases "run_actions base p as (ctx\<lparr>mt_cs := t\<rparr>, buf, w)")
        case (Ok s)
        with go Some ta 1(2) have "exec_loop base pe (p + 1) s = Ok (p', s')"
          by (simp add: exec_loop.simps [of base pe p])
        from 1(1) [OF go Some ta [symmetric] Ok this] go show ?thesis by simp
      qed (use go Some ta 1(2) in \<open>auto simp: exec_loop.simps [of base pe p]\<close>)
    qed
  qed
qed

lemma exec_loop_no_convert: "exec_loop base pe p s \<noteq> Convert_error r"
proof (induction base pe p s rule: exec_loop.induct)
  case (1 base pe p ctx buf w)
  then show ?case
    by (subst exec_loop.simps) (auto split: option.splits act.splits)
qed

lemma exec_loop_split:
  assumes "pe1 \<le> pe2"
  shows "exec_loop base pe2 p s =
    bind_ok (exec_loop base pe1 p s) (\<lambda>(p', s'). exec_loop base pe2 p' s') id"
  using assms
proof (induction base pe1 p s rule: exec_loop.induct)
  case (1 base pe1 p ctx buf w)
  show ?case
  proof (cases "pe1 \<le> p \<or> mt_cs ctx = S_error \<or> length buf \<le> p")
    case True
    then show ?thesis using 1(2)
      by (auto simp: exec_loop.simps [of base pe1] exec_loop.simps [of base pe2])
  next
    case False
    have IH: "exec_loop base pe2 (Suc p) s' =
        bind_ok (exec_loop base pe1 (Suc p) s') (\<lambda>(p', s'). exec_loop base pe2 p' s') id"
      if "trans (mt_cs ctx) (buf ! p) = Some (t, as)"
        and "run_actions base p as (ctx\<lparr>mt_cs := t\<rparr>, buf, w) = Ok s'" for t as s'
      using False 1(1) [OF _ _ that(1) refl that(2)] 1(2) by (simp add: id_def)
    from False 1(2) show ?thesis
      by (subst (1 2) exec_loop.simps) (auto split: option.splits act.splits simp: IH)
  qed
qed

text \<open>
  Parsing does not depend on how the bytes arrive: a call on a prefix of the data followed by a
  call on more of it gives the result of one call on all of it.
\<close>

text \<open>
  C11. Segmentation independence of \<open>memtext_execute\<close>: when a call on the first \<open>len1\<close> bytes returns,
  the call on \<open>len2 > len1\<close> bytes from the offset it left has exactly the result, offset, parser,
  buffer and world of a single call on \<open>len2\<close> bytes, callbacks and memory faults included. (An
  exception is left out: it rolls the offset back to where its call began.)
\<close>

theorem memtext_execute_split:
  assumes "off < len1" and "len1 < len2"
    and "\<And>t. memtext_execute base s len2 off \<noteq> Cb_threw t"
  shows "memtext_execute base s len2 off =
    (case memtext_execute base s len1 off of
       Ok (r, off', s') \<Rightarrow> memtext_execute base s' len2 off'
     | other \<Rightarrow> other)"
proof -
  have split: "exec_loop base len2 off s =
    bind_ok (exec_loop base len1 off s) (\<lambda>(p', s'). exec_loop base len2 p' s') id"
    using assms(2) by (intro exec_loop_split) simp
  show ?thesis
  proof (cases "exec_loop base len1 off s")
    case (Ok r)
    then obtain p ctx buf w where r: "exec_loop base len1 off s = Ok (p, ctx, buf, w)"
      by (cases r) auto
    from exec_loop_Ok [OF r] assms have "p < len2" by simp
    moreover from r split have "exec_loop base len2 off s = exec_loop base len2 p (ctx, buf, w)"
      by simp
    moreover have "exec_loop base len2 p (ctx, buf, w) \<noteq> Cb_threw t" for t
      using assms(1,2) calculation(2) assms(3) [unfolded memtext_execute_def] by (cases t) fastforce
    ultimately show ?thesis using r assms(1,2)
      by (auto simp: memtext_execute_def exec_loop_no_convert split: act.splits prod.splits)
  next
    case (Convert_error r)
    then show ?thesis using exec_loop_no_convert by blast
  next
    case (Cb_threw r)
    with split assms(1,2,3) show ?thesis by (cases r) (auto simp: memtext_execute_def)
  next
    case Memory_fault
    with split assms(1,2) show ?thesis by (simp add: memtext_execute_def)
  qed
qed

section \<open>The invariant of the parser\<close>

text \<open>
  Between two characters, at position \<open>p\<close>: the tables have their size; the call stack is used
  exactly while a data block is read; a number that is being read began before \<open>p\<close>; and the number
  of keys is below 256 while a command is being read.
\<close>

fun marks_ok :: "cstate \<Rightarrow> nat \<Rightarrow> ('u, 'w) memtext_parser \<Rightarrow> bool" where
  "marks_ok (S_flags_z _) p ctx \<longleftrightarrow> unat (mt_flags ctx) < p"
| "marks_ok (S_flags_n _) p ctx \<longleftrightarrow> unat (mt_flags ctx) < p"
| "marks_ok (S_exp_z _) p ctx \<longleftrightarrow> unat (mt_exptime ctx) < p"
| "marks_ok (S_exp_n _) p ctx \<longleftrightarrow> unat (mt_exptime ctx) < p"
| "marks_ok (S_bytes_n _) p ctx \<longleftrightarrow> unat (mt_bytes ctx) < p"
| "marks_ok (S_uniq_z _) p ctx \<longleftrightarrow> unat (mt_cas_unique ctx) < p"
| "marks_ok (S_uniq_n _) p ctx \<longleftrightarrow> unat (mt_cas_unique ctx) < p"
| "marks_ok _ _ _ \<longleftrightarrow> True"

definition idle :: "cstate \<Rightarrow> bool" where
  "idle cs \<longleftrightarrow> cs \<in> {S_error, S_start, S_final}"

definition mt_inv :: "nat \<Rightarrow> ('u, 'w) memtext_parser \<Rightarrow> bool" where
  "mt_inv p ctx \<longleftrightarrow>
     length (mt_key_pos ctx) = 256 \<and> length (mt_key_len ctx) = 256
   \<and> length (mt_stack ctx) = 1
   \<and> mt_top ctx = (if mt_cs ctx = S_data then 1 else 0)
   \<and> (mt_cs ctx = S_data \<longrightarrow> (\<exists>k. mt_stack ctx = [S_body k]))
   \<and> (\<not> idle (mt_cs ctx) \<longrightarrow> unat (mt_keys ctx) < 256)
   \<and> marks_ok (mt_cs ctx) p ctx"

text \<open>The callbacks write inside the buffer.\<close>

definition keeps_length :: "('u, 'w) memtext_callback \<Rightarrow> bool" where
  "keeps_length cbs \<longleftrightarrow>
    (\<forall>c cb u cmd req buf w. cbs c = Some cb \<longrightarrow> length (fst (snd (cb u cmd req buf w))) = length buf)"

text \<open>What each outcome of an action promises.\<close>

fun act_sat :: "('a \<Rightarrow> bool) \<Rightarrow> ('a \<Rightarrow> bool) \<Rightarrow> 'a act \<Rightarrow> bool" where
  "act_sat P Q (Ok a) \<longleftrightarrow> P a"
| "act_sat P Q (Convert_error a) \<longleftrightarrow> Q a"
| "act_sat P Q (Cb_threw a) \<longleftrightarrow> True"
| "act_sat P Q Memory_fault \<longleftrightarrow> False"

lemma act_sat_map_ok [simp]:
  "act_sat P Q (map_ok f r) = act_sat (\<lambda>a. P (f a)) (\<lambda>a. Q (f a)) r"
  by (cases r) auto

lemma act_sat_run1:
  "act_sat P Q (run_actions base p [a] s) = act_sat P Q (do_action base p a s)"
  by (simp split: act.splits)

lemma act_sat_Let_if [simp]:
  "act_sat P Q (if b then r else r') = (if b then act_sat P Q r else act_sat P Q r')"
  by simp

text \<open>A conversion that begins inside the buffer does not leave it.\<close>

lemma set_integer_safe:
  assumes "unat m < p" and "p \<le> length buf" and "p < 2 ^ 64"
    and "\<And>v. P (put v ctx)" and "\<And>v. Q (put v ctx)" and "Q ctx"
  shows "act_sat P Q (SET_INTEGER put m p buf ctx)"
proof -
  have "of_nat p - m = (of_nat (p - unat m) :: size_t)"
    using assms(1) by (simp add: of_nat_diff)
  moreover have "unat (of_nat (p - unat m) :: size_t) = p - unat m"
    using assms(3) by (intro unat_of_nat_size) simp
  ultimately have "unat (MARK_LEN m p) = p - unat m"
    by (simp add: MARK_LEN_def)
  with assms show ?thesis by (simp add: SET_INTEGER_def Let_def)
qed

text \<open>The one access out of bounds of the machine: a 257th key.\<close>

definition key_overflow :: "('u, 'w) memtext_parser \<Rightarrow> byte \<Rightarrow> bool" where
  "key_overflow ctx c \<longleftrightarrow> mt_cs ctx = S_key_sp \<and> mt_keys ctx = 255 \<and> key_char c"

definition after_step :: "nat \<Rightarrow> nat \<Rightarrow> ('u, 'w) memtext_callback \<Rightarrow>
    ('u, 'w) memtext_parser \<times> byte list \<times> 'w \<Rightarrow> bool" where
  "after_step n p cbs s \<longleftrightarrow>
    (case s of (c, b, w) \<Rightarrow> length b = n \<and> mt_callback c = cbs \<and> mt_inv p c)"

definition after_error :: "nat \<Rightarrow> ('u, 'w) memtext_callback \<Rightarrow>
    ('u, 'w) memtext_parser \<times> byte list \<times> 'w \<Rightarrow> bool" where
  "after_error n cbs s \<longleftrightarrow>
    (case s of (c, b, w) \<Rightarrow> length b = n \<and> mt_callback c = cbs \<and> mt_inv 0 (c\<lparr>mt_cs := S_error\<rparr>))"

lemma call_back_safe:
  assumes "keeps_length (mt_callback ctx)"
    and "\<And>b w. length b = length buf \<Longrightarrow> P (ctx, b, w)"
    and "\<And>b w. length b = length buf \<Longrightarrow> Q (ctx, b, w)"
  shows "act_sat P Q (call_back base a (ctx, buf, w))"
proof (cases "mt_callback ctx (mt_command ctx)")
  case None
  with assms(3) show ?thesis by (simp add: call_back_def)
next
  case (Some cb)
  obtain r b w' where cb: "cb (mt_user ctx) (mt_command ctx) (request_of base a ctx) buf w = (r, b, w')"
    by (cases "cb (mt_user ctx) (mt_command ctx) (request_of base a ctx) buf w")
  from assms(1) Some have "length b = length buf"
    using cb by (metis keeps_length_def fst_conv snd_conv)
  with cb Some assms(2,3) show ?thesis by (cases r) (simp_all add: call_back_def)
qed

lemma unat_inc_256: "unat k < 256 \<Longrightarrow> unat (k + 1 :: uint32_t) = unat k + 1"
  by (subst unat_plus_simple [THEN iffD1]) (auto simp: no_plus_overflow_unat_size word_size)

lemma unat_mark_32: "p < 2 ^ 32 \<Longrightarrow> unat (of_nat p :: uint32_t) = p"
  by (rule unat_of_nat_32)

lemma absolute_keys_safe:
  assumes "length (mt_key_pos ctx) = 256" and "length (mt_key_len ctx) = 256"
    and "unat (mt_keys ctx) \<le> 256"
  obtains kp where "absolute_keys base ctx = Some (ctx\<lparr>mt_key_pos := kp\<rparr>)" and "length kp = 256"
  using assms by (auto simp: absolute_keys_def Let_def)

lemma do_command_safe:
  assumes "mt_inv p ctx" and "mt_cs ctx = S_cr k \<or> mt_cs ctx = S_body_cr k"
    and "keeps_length (mt_callback ctx)"
  shows "act_sat (after_step (length buf) p' (mt_callback ctx)) (after_error (length buf) (mt_callback ctx))
     (run_actions base p [do_command k] (ctx\<lparr>mt_cs := S_final\<rparr>, buf, w))"
proof (cases "do_command k = A_do_retrieval")
  case False
  then have "is_do (do_command k)" by (cases k) (auto simp: is_do_def)
  with False assms show ?thesis
    unfolding act_sat_run1
    by (auto simp: do_action_def mt_inv_def idle_def after_step_def after_error_def
        intro!: call_back_safe)
next
  case True
  let ?c = "ctx\<lparr>mt_cs := S_final, mt_keys := mt_keys ctx + 1\<rparr>"
  from assms(1,2) have k: "unat (mt_keys ctx) < 256" by (auto simp: mt_inv_def idle_def)
  have "unat (mt_keys ?c) \<le> 256" using unat_inc_256 [OF k] k by simp
  then obtain kp where "absolute_keys base ?c = Some (?c\<lparr>mt_key_pos := kp\<rparr>)" and "length kp = 256"
    using assms(1) absolute_keys_safe [of ?c base] by (auto simp: mt_inv_def)
  with True assms show ?thesis
    unfolding act_sat_run1
    by (auto simp: do_action_def mt_inv_def idle_def after_step_def after_error_def is_do_def
        intro!: call_back_safe)
qed

lemma not_idle_states [simp]:
  "\<not> idle (line_end k)" "\<not> idle (after_key k)" "\<not> idle (after_exptime k)" "\<not> idle (after_bytes k)"
  "line_end k \<noteq> S_data" "after_key k \<noteq> S_data" "after_exptime k \<noteq> S_data" "after_bytes k \<noteq> S_data"
  "marks_ok (line_end k) p ctx" "marks_ok (after_key k) p ctx" "marks_ok (after_exptime k) p ctx"
  "marks_ok (after_bytes k) p ctx"
  by (cases k; simp add: idle_def)+

lemma marks_ok_Suc: "marks_ok cs p ctx \<Longrightarrow> marks_ok cs (Suc p) ctx"
  by (cases cs) auto

lemma parse_step_safe:
  assumes "\<not> is_do a"
    and "act_sat (\<lambda>c. mt_callback c = cbs \<and> mt_inv p' c)
           (\<lambda>c. mt_callback c = cbs \<and> mt_inv 0 (c\<lparr>mt_cs := S_error\<rparr>)) (parse_action buf p a ctx)"
  shows "act_sat (after_step (length buf) p' cbs) (after_error (length buf) cbs)
           (run_actions base p [a] (ctx, buf, w))"
  unfolding act_sat_run1
  using assms by (simp add: do_action_def after_step_def after_error_def)

text \<open>A number that ends.\<close>

lemma number_action_safe:
  assumes inv: "mt_inv p ctx" and a: "a \<in> {A_flags, A_exptime, A_bytes, A_cas_unique}"
    and t: "\<not> idle t" "t \<noteq> S_data" "\<And>p c. marks_ok t p (c :: ('u, 'w) memtext_parser)"
    and cs: "\<not> idle (mt_cs ctx)" "mt_cs ctx \<noteq> S_data"
    and mark: "unat (case a of A_flags \<Rightarrow> mt_flags ctx | A_exptime \<Rightarrow> ucast (mt_exptime ctx)
                  | A_bytes \<Rightarrow> mt_bytes ctx | _ \<Rightarrow> mt_cas_unique ctx) < p"
    and p: "p < length buf" "length buf < 2 ^ 32"
  shows "act_sat (after_step (length buf) p' (mt_callback ctx)) (after_error (length buf) (mt_callback ctx))
     (run_actions base p [a] ((ctx :: ('u, 'w) memtext_parser)\<lparr>mt_cs := t\<rparr>, buf, w))"
proof (rule parse_step_safe)
  show "\<not> is_do a" using a by (auto simp: is_do_def)
  have p64: "p \<le> length buf" "p < 2 ^ 64" using p by simp_all
  show "act_sat (\<lambda>c. mt_callback c = mt_callback ctx \<and> mt_inv p' c)
           (\<lambda>c. mt_callback c = mt_callback ctx \<and> mt_inv 0 (c\<lparr>mt_cs := S_error\<rparr>))
           (parse_action buf p a (ctx\<lparr>mt_cs := t\<rparr>))"
    using a inv t cs mark p64
    by (elim insertE emptyE)
      (auto intro!: set_integer_safe simp: mt_inv_def idle_def)
qed

lemma trans_number_safe:
  assumes inv: "mt_inv p ctx" and a: "a \<in> {A_flags, A_exptime, A_bytes, A_cas_unique}"
    and cs: "\<not> idle (mt_cs ctx)" "mt_cs ctx \<noteq> S_data"
    and mark: "unat (case a of A_flags \<Rightarrow> mt_flags ctx | A_exptime \<Rightarrow> ucast (mt_exptime ctx)
                  | A_bytes \<Rightarrow> mt_bytes ctx | _ \<Rightarrow> mt_cas_unique ctx) < p"
    and p: "p < length buf" "length buf < 2 ^ 32"
    and tr: "trans_number again (mt_cs ctx) sp cr a c = Some (t, as)"
    and ends: "\<And>t. sp = Some t \<or> cr = Some t \<Longrightarrow>
          \<not> idle t \<and> t \<noteq> S_data \<and> (\<forall>p c. marks_ok t p (c :: ('u, 'w) memtext_parser))"
  shows "act_sat (after_step (length buf) (p + 1) (mt_callback ctx)) (after_error (length buf) (mt_callback ctx))
     (run_actions base p as ((ctx :: ('u, 'w) memtext_parser)\<lparr>mt_cs := t\<rparr>, buf, w))"
proof (cases "again \<and> digit c")
  case True
  with tr have "t = mt_cs ctx" "as = []" by (auto simp: trans_number_def)
  with inv show ?thesis by (auto simp: after_step_def mt_inv_def marks_ok_Suc)
next
  case False
  with tr ends have "as = [a]" "\<not> idle t" "t \<noteq> S_data" "\<And>p c. marks_ok t p (c :: ('u, 'w) memtext_parser)"
    by (auto simp: trans_number_def split: if_splits)
  with number_action_safe [OF inv a _ _ _ cs mark p] show ?thesis by metis
qed

lemma unat_255: "unat (k :: uint32_t) < 256 \<Longrightarrow> k \<noteq> 255 \<Longrightarrow> unat k < 255"
  using word_unat_eq_iff [of k 255] by simp

lemma idle_states:
  "\<not> idle (S_key0 k)" "\<not> idle S_data" "\<not> idle (S_flags_z k)" "\<not> idle (S_flags_n k)"
  "\<not> idle (S_exp0 k)" "\<not> idle (S_exp_z k)" "\<not> idle (S_exp_n k)" "\<not> idle (S_bytes_n k)"
  "\<not> idle (S_hdr_cr k)" "\<not> idle (S_uniq_z k)" "\<not> idle (S_uniq_n k)" "\<not> idle (S_opt k)" "\<not> idle (S_cr k)"
  by (simp_all add: idle_def)

text \<open>One character keeps the invariant, and faults only on a 257th key.\<close>

definition step_ok :: "size_t \<Rightarrow> nat \<Rightarrow> ('u, 'w) memtext_parser \<Rightarrow> byte list \<Rightarrow> 'w \<Rightarrow> cstate \<Rightarrow> action list \<Rightarrow> bool" where
  "step_ok base p ctx buf w t as \<longleftrightarrow>
     act_sat (after_step (length buf) (p + 1) (mt_callback ctx)) (after_error (length buf) (mt_callback ctx))
       (run_actions base p as (ctx\<lparr>mt_cs := t\<rparr>, buf, w))"

lemma step_plain:
  assumes "mt_inv p ctx" and "t \<noteq> S_data" and "mt_cs ctx \<noteq> S_data" and "\<not> idle (mt_cs ctx)"
    and "marks_ok t (p + 1) ctx"
  shows "step_ok base p ctx buf w t []"
proof -
  have "marks_ok t (p + 1) (ctx\<lparr>mt_cs := t\<rparr>)" using assms(5) by (cases t) auto
  with assms show ?thesis by (auto simp: step_ok_def after_step_def mt_inv_def)
qed

lemma step_parse:
  assumes "\<not> is_do a"
    and "act_sat (\<lambda>c. mt_callback c = mt_callback ctx \<and> mt_inv (p + 1) c)
           (\<lambda>c. mt_callback c = mt_callback ctx \<and> mt_inv 0 (c\<lparr>mt_cs := S_error\<rparr>))
           (parse_action buf p a (ctx\<lparr>mt_cs := t\<rparr>))"
  shows "step_ok base p ctx buf w t [a]"
  unfolding step_ok_def using assms by (intro parse_step_safe) simp_all

lemma step_command:
  assumes "mt_inv p ctx" and "mt_cs ctx = S_cr k \<or> mt_cs ctx = S_body_cr k"
    and "trans (mt_cs ctx) c = Some (t, as)" and "keeps_length (mt_callback ctx)"
  shows "step_ok base p ctx buf w t as"
proof -
  have "t = S_final" "as = [do_command k]" using assms(2,3) by (auto split: if_splits)
  with do_command_safe [OF assms(1,2,4)] show ?thesis by (simp add: step_ok_def)
qed

lemma step_number:
  fixes ctx :: "('u, 'w) memtext_parser"
  assumes inv: "mt_inv p ctx" and p: "p < length buf" "length buf < 2 ^ 32"
    and tr: "trans (mt_cs ctx) (buf ! p) = Some (t, as)"
    and cs: "mt_cs ctx \<in> {S_flags_z k, S_flags_n k, S_exp_z k, S_exp_n k, S_bytes_n k, S_uniq_z k, S_uniq_n k}"
  shows "step_ok base p ctx buf w t as"
proof -
  have num: "step_ok base p ctx buf w t as"
    if "trans_number again (mt_cs ctx) sp cr a (buf ! p) = Some (t, as)"
      "a \<in> {A_flags, A_exptime, A_bytes, A_cas_unique}"
      "unat (case a of A_flags \<Rightarrow> mt_flags ctx | A_exptime \<Rightarrow> ucast (mt_exptime ctx)
                  | A_bytes \<Rightarrow> mt_bytes ctx | _ \<Rightarrow> mt_cas_unique ctx) < p"
      "\<And>t. sp = Some t \<or> cr = Some t \<Longrightarrow>
          \<not> idle t \<and> t \<noteq> S_data \<and> (\<forall>p c. marks_ok t p (c :: ('u, 'w) memtext_parser))"
    for again sp cr a
    unfolding step_ok_def
    by (rule trans_number_safe [OF inv that(2) _ _ that(3) p that(1,4)]) (use cs in \<open>auto simp: idle_states\<close>)
  have marks: "marks_ok (mt_cs ctx) p ctx" using inv by (simp add: mt_inv_def)
  from cs consider
      again where "trans (mt_cs ctx) = trans_number again (mt_cs ctx) (Some (S_exp0 k)) None A_flags"
        "unat (mt_flags ctx) < p"
    | again where "trans (mt_cs ctx) = trans_number again (mt_cs ctx) (Some (after_exptime k))
        (if k = Delete then Some (S_cr k) else None) A_exptime" "unat (mt_exptime ctx) < p"
    | again where "trans (mt_cs ctx) = trans_number again (mt_cs ctx) (Some (after_bytes k))
        (if k = Storage then Some (line_end k) else None) A_bytes" "unat (mt_bytes ctx) < p"
    | again where "trans (mt_cs ctx) = trans_number again (mt_cs ctx) (Some (S_opt k)) (Some (line_end k)) A_cas_unique"
        "unat (mt_cas_unique ctx) < p"
    using marks by (elim insertE emptyE) (auto simp: fun_eq_iff)
  then show ?thesis
  proof cases
    case (1 again)
    show ?thesis by (rule num [OF tr [unfolded 1]]) (use 1 in \<open>auto simp: idle_states\<close>)
  next
    case (2 again)
    show ?thesis
      by (rule num [OF tr [unfolded 2]]) (use 2 in \<open>auto simp: idle_states unat_ucast_size split: if_splits\<close>)
  next
    case (3 again)
    show ?thesis by (rule num [OF tr [unfolded 3]]) (use 3 in \<open>auto simp: idle_states split: if_splits\<close>)
  next
    case (4 again)
    show ?thesis by (rule num [OF tr [unfolded 4]]) (use 4 in \<open>auto simp: idle_states\<close>)
  qed
qed

lemma step_mark:
  fixes ctx :: "('u, 'w) memtext_parser"
  assumes inv: "mt_inv p ctx" and p: "p < 2 ^ 32" and tr: "trans (mt_cs ctx) c = Some (t, as)" and as: "as \<noteq> []"
    and cs: "mt_cs ctx \<in> {S_key0 k, S_flags0 k, S_exp0 k, S_bytes0 k, S_uniq0 k}"
  shows "step_ok base p ctx buf w t as"
proof -
  have um: "unat (of_nat p :: uint32_t) = p" "unat (of_nat p :: size_t) = p"
    using p by (simp_all add: unat_of_nat_32 unat_of_nat_size)
  from cs tr as consider
      "t = S_key k" "as = [A_mark_key]"
    | "t = S_flags_z k \<or> t = S_flags_n k" "as = [A_mark_flags]"
    | "t = S_exp_z k \<or> t = S_exp_n k" "as = [A_mark_exptime]"
    | "t = S_bytes_n k" "as = [A_mark_bytes]"
    | "t = S_uniq_z k \<or> t = S_uniq_n k" "as = [A_mark_cas_unique]"
    by (auto simp: trans_number0_def split: if_splits)
  moreover have "\<not> idle (mt_cs ctx)" "mt_cs ctx \<noteq> S_data" using cs by (auto simp: idle_def)
  ultimately show ?thesis
    using inv um by cases (auto intro!: step_parse simp: is_do_def mt_inv_def idle_def)
qed

lemma step_keyword:
  assumes inv: "mt_inv p ctx" and cs: "mt_cs ctx = S_kw v" and tr: "trans (mt_cs ctx) c = Some (t, as)"
  shows "step_ok base p ctx buf w t as"
proof (cases "as = []")
  case True
  with cs tr inv show ?thesis by (auto intro!: step_plain simp: idle_def split: if_splits option.splits)
next
  case False
  then obtain cmd where "as = [A_cmd cmd]" "t = S_kw (v @ [c])"
    using cs tr by (auto simp: keyword_actions_def split: if_splits option.splits)
  with cs inv show ?thesis by (auto intro!: step_parse simp: is_do_def mt_inv_def idle_def)
qed

lemma step_key:
  fixes ctx :: "('u, 'w) memtext_parser"
  assumes inv: "mt_inv p ctx" and cs: "mt_cs ctx = S_key k" and tr: "trans (mt_cs ctx) c = Some (t, as)"
  shows "step_ok base p ctx buf w t as"
proof (cases "as = []")
  case True
  with tr inv show ?thesis by (auto intro!: step_plain simp: cs idle_def split: if_splits)
next
  case False
  with cs tr have "as = [A_key]" "\<not> idle t" "t \<noteq> S_data" "\<And>p c. marks_ok t p (c :: ('u, 'w) memtext_parser)"
    by (cases k; auto simp: idle_def split: if_splits)+
  with cs inv show ?thesis by (auto intro!: step_parse simp: is_do_def mt_inv_def idle_def)
qed

lemma step_next_key:
  assumes inv: "mt_inv p ctx" and cs: "mt_cs ctx = S_key_sp" and tr: "trans (mt_cs ctx) c = Some (t, as)"
    and nov: "\<not> key_overflow ctx c"
  shows "step_ok base p ctx buf w t as"
proof (cases "key_char c")
  case False
  with cs tr inv show ?thesis by (auto intro!: step_plain simp: idle_def split: if_splits)
next
  case True
  with cs nov inv have "unat (mt_keys ctx) < 255"
    using unat_255 [of "mt_keys ctx"] by (auto simp: key_overflow_def mt_inv_def idle_def)
  then have k: "unat (mt_keys ctx + 1) = unat (mt_keys ctx) + 1" "unat (mt_keys ctx + 1) < 256"
    using unat_inc_256 [of "mt_keys ctx"] by simp_all
  then have "\<not> 256 < mt_keys ctx + 1" by (simp add: word_less_nat_alt)
  with True cs tr inv k show ?thesis
    by (auto simp: step_ok_def do_action_def is_do_def Let_def after_step_def mt_inv_def idle_def)
qed

lemma step_noreply:
  fixes ctx :: "('u, 'w) memtext_parser"
  assumes inv: "mt_inv p ctx" and cs: "mt_cs ctx = S_nore k v" and tr: "trans (mt_cs ctx) c = Some (t, as)"
  shows "step_ok base p ctx buf w t as"
proof (cases "as = []")
  case True
  with tr inv show ?thesis by (auto intro!: step_plain simp: cs idle_def split: if_splits)
next
  case False
  with cs tr have "as = [A_noreply]" "\<not> idle t" "t \<noteq> S_data" "\<And>p c. marks_ok t p (c :: ('u, 'w) memtext_parser)"
    by (cases k; auto simp: idle_def split: if_splits)+
  with cs inv show ?thesis by (auto intro!: step_parse simp: is_do_def mt_inv_def idle_def)
qed

lemma step_first:
  assumes inv: "mt_inv p ctx" and p: "p < length buf" "length buf < 2 ^ 32"
    and tr: "trans (mt_cs ctx) (buf ! p) = Some (t, as)"
    and cs: "mt_cs ctx \<in> {S_key0 k, S_flags0 k, S_exp0 k, S_bytes0 k, S_uniq0 k}"
  shows "step_ok base p ctx buf w t as"
proof (cases "as = []")
  case True
  with cs tr inv show ?thesis
    by (auto intro!: step_plain simp: idle_def trans_number0_def split: if_splits)
next
  case False
  from step_mark [OF inv _ tr this cs] p show ?thesis by simp
qed

lemma step_safe:
  fixes ctx :: "('u, 'w) memtext_parser"
  assumes inv: "mt_inv p ctx" and p: "p < length buf" "length buf < 2 ^ 32"
    and tr: "trans (mt_cs ctx) (buf ! p) = Some (t, as)"
    and nov: "\<not> key_overflow ctx (buf ! p)"
    and cbs: "keeps_length (mt_callback ctx)"
  shows "step_ok base p ctx buf w t as"
proof -
  note number = step_number [OF inv p tr]
  note first = step_first [OF inv p tr]
  show ?thesis
  proof (cases "mt_cs ctx")
    case (S_body_cr k)
    with step_command [OF inv _ tr cbs] show ?thesis by blast
  next
    case (S_cr k)
    with step_command [OF inv _ tr cbs] show ?thesis by blast
  next
    case (S_kw v)
    from step_keyword [OF inv this tr] show ?thesis .
  next
    case (S_key k)
    from step_key [OF inv this tr] show ?thesis .
  next
    case S_key_sp
    from step_next_key [OF inv this tr nov] show ?thesis .
  next
    case (S_nore k v)
    from step_noreply [OF inv this tr] show ?thesis .
  next
    case (S_hdr_cr k)
    with tr inv show ?thesis
      by (auto intro!: step_parse simp: is_do_def mt_inv_def idle_def length_Suc_conv split: if_splits)
  next
    case S_data
    with tr inv show ?thesis by (auto intro!: step_parse simp: is_do_def mt_inv_def idle_def Let_def)
  qed (use number first tr inv in
    \<open>auto intro!: step_parse step_plain simp: is_do_def mt_inv_def idle_def trans_number0_def split: if_splits\<close>)
qed

lemma mt_inv_error: "mt_inv p ctx \<Longrightarrow> mt_top ctx = 0 \<Longrightarrow> mt_inv q (ctx\<lparr>mt_cs := S_error\<rparr>)"
  by (simp add: mt_inv_def idle_def)

definition loop_ok :: "size_t \<Rightarrow> nat \<Rightarrow> nat \<Rightarrow> ('u, 'w) memtext_parser \<Rightarrow> byte list \<Rightarrow> 'w \<Rightarrow> bool" where
  "loop_ok base pe p ctx buf w \<longleftrightarrow>
    (case exec_loop base pe p (ctx, buf, w) of
       Ok (p', c, b, w') \<Rightarrow> mt_inv p' c \<and> length b = length buf \<and> mt_callback c = mt_callback ctx
     | Convert_error _ \<Rightarrow> False
     | Cb_threw _ \<Rightarrow> True
     | Memory_fault \<Rightarrow> \<exists>q c b w'. exec_loop base q p (ctx, buf, w) = Ok (q, c, b, w')
         \<and> q < pe \<and> key_overflow c (b ! q))"

lemma loop_ok_step:
  assumes later: "loop_ok base pe (p + 1) c b w'" and pe: "p < pe"
    and step: "\<And>q. p < q \<Longrightarrow> exec_loop base q p (ctx, buf, w) = exec_loop base q (p + 1) (c, b, w')"
    and same: "length b = length buf" "mt_callback c = mt_callback ctx"
  shows "loop_ok base pe p ctx buf w"
proof (cases "exec_loop base pe (p + 1) (c, b, w')")
  case Memory_fault
  with later obtain q c' b' w'' where q: "exec_loop base q (p + 1) (c, b, w') = Ok (q, c', b', w'')"
    "q < pe" "key_overflow c' (b' ! q)" by (auto simp: loop_ok_def)
  have "p < q"
  proof (rule ccontr)
    assume "\<not> p < q"
    with q(1) show False by simp
  qed
  with q step [OF this] step [OF pe] Memory_fault show ?thesis by (auto simp: loop_ok_def)
qed (use later step [OF pe] same in \<open>auto simp: loop_ok_def\<close>)

lemma loop_ok_overflow:
  assumes "mt_inv p ctx" and "p < pe" and "p < length buf" and "key_overflow ctx (buf ! p)"
  shows "loop_ok base pe p ctx buf w"
proof -
  have "trans (mt_cs ctx) (buf ! p) = Some (S_key Retrieval, [A_incr_key, A_mark_key])"
    and "mt_cs ctx \<noteq> S_error" using assms(4) by (simp_all add: key_overflow_def)
  moreover have "run_actions base p [A_incr_key, A_mark_key] (ctx\<lparr>mt_cs := S_key Retrieval\<rparr>, buf, w) = Memory_fault"
    using assms(1,4) by (auto simp: key_overflow_def do_action_def is_do_def mt_inv_def)
  ultimately have "exec_loop base pe p (ctx, buf, w) = Memory_fault"
    using assms(2,3) by (simp add: exec_loop.simps [of base pe p])
  moreover have "exec_loop base p p (ctx, buf, w) = Ok (p, ctx, buf, w)" by simp
  ultimately show ?thesis using assms(2,4)
    by (auto simp: loop_ok_def intro!: exI [of _ p] exI [of _ ctx] exI [of _ buf])
qed

lemma exec_loop_ok:
  assumes "mt_inv p ctx" and "pe \<le> length buf" and "length buf < 2 ^ 32"
    and "keeps_length (mt_callback ctx)"
  shows "loop_ok base pe p ctx buf w"
  using assms
proof (induction base pe p "(ctx, buf, w)" arbitrary: ctx buf w rule: exec_loop.induct)
  case (1 base pe p ctx buf w)
  show ?case
  proof (cases "pe \<le> p \<or> mt_cs ctx = S_error \<or> key_overflow ctx (buf ! p)")
    case True
    then consider "pe \<le> p \<or> mt_cs ctx = S_error" | "p < pe" "key_overflow ctx (buf ! p)" by linarith
    then show ?thesis
    proof cases
      case 1
      with \<open>mt_inv p ctx\<close> show ?thesis by (auto simp: loop_ok_def exec_loop.simps [of base pe p])
    next
      case 2
      with loop_ok_overflow [OF \<open>mt_inv p ctx\<close>] \<open>pe \<le> length buf\<close> show ?thesis by simp
    qed
  next
    case False
    then have go: "\<not> (pe \<le> p \<or> mt_cs ctx = S_error)" and nov: "\<not> key_overflow ctx (buf ! p)" by auto
    with 1 have p: "p < pe" "p < length buf" "\<not> length buf \<le> p" by auto
    show ?thesis
    proof (cases "trans (mt_cs ctx) (buf ! p)")
      case None
      with 1(2) have "mt_cs ctx \<noteq> S_data" by auto
      with None go p 1(2) show ?thesis
        by (auto simp: loop_ok_def exec_loop.simps [of base pe p] mt_inv_def idle_def)
    next
      case (Some ta)
      then obtain t as where ta: "ta = (t, as)" and tr: "trans (mt_cs ctx) (buf ! p) = Some (t, as)" by (cases ta) auto
      note safe = step_safe [OF 1(2) p(2) 1(4) tr nov 1(5), of base w, unfolded step_ok_def]
      show ?thesis
      proof (cases "run_actions base p as (ctx\<lparr>mt_cs := t\<rparr>, buf, w)")
        case (Ok s)
        obtain c b w' where s: "s = (c, b, w')" by (cases s)
        from safe Ok s have after: "mt_inv (p + 1) c" "length b = length buf" "mt_callback c = mt_callback ctx"
          by (simp_all add: after_step_def)
        have "loop_ok base pe (p + 1) c b w'"
          by (rule 1(1) [OF go p(3) Some ta [symmetric] Ok [unfolded s]]) (use 1(3,4,5) after in simp_all)
        from loop_ok_step [OF this p(1) _ after(2,3)] show ?thesis
          using go p tr Ok s by (simp add: exec_loop.simps [of base _ p])
      qed (use safe go p Some ta in
        \<open>auto simp: loop_ok_def exec_loop.simps [of base pe p] after_error_def mt_inv_def idle_def split: prod.splits\<close>)
    qed
  qed
qed

lemmas exec_loop_safe = exec_loop_ok [unfolded loop_ok_def]

lemma mt_inv_init: "mt_inv p (memtext_init cbs u)"
  by (simp add: mt_inv_def memtext_init_def idle_def)

lemma execute_safe:
  assumes "mt_inv off ctx" and "off < len" and "len \<le> length buf" and "length buf < 2 ^ 32"
    and "keeps_length (mt_callback ctx)"
  shows "case memtext_execute base (ctx, buf, w) len off of
       Ok (r, off', c, b, w') \<Rightarrow>
         mt_inv off' c \<and> length b = length buf \<and> off \<le> off' \<and> off' \<le> len
         \<and> r \<in> {-1, 0, 1} \<and> (r \<noteq> -1 \<longrightarrow> off' = len)
         \<and> mt_callback c = mt_callback ctx \<and> (r = 1 \<longrightarrow> mt_cs c = S_final)
     | Convert_error _ \<Rightarrow> False
     | Cb_threw (_, off', _) \<Rightarrow> off' = off
     | Memory_fault \<Rightarrow> \<exists>q c b w'. exec_loop base q off (ctx, buf, w) = Ok (q, c, b, w')
         \<and> q < len \<and> key_overflow c (b ! q)"
proof (cases "exec_loop base len off (ctx, buf, w)")
  case (Ok r)
  obtain p c b w' where r: "r = (p, c, b, w')" by (cases r)
  from exec_loop_safe [OF assms(1,3-5), of base w] exec_loop_Ok [OF Ok [unfolded r]] Ok r assms(2)
  show ?thesis by (auto simp: memtext_execute_def return_code_def)
qed (use exec_loop_safe [OF assms(1,3-5), of base w] assms(2)
    in \<open>auto simp: memtext_execute_def split: prod.splits\<close>)

text \<open>
  C12. The invariant and the memory safety of \<open>memtext_execute\<close>. From a parser that satisfies the
  invariant, on data inside the buffer, a call returns with the invariant again and with an offset
  between the old one and \<open>len\<close>; a result other than -1 means that all bytes were consumed. The
  only access out of bounds it can make is the write of the position of a 257th key: then the
  machine was after the separator behind the 256th key of a command.
\<close>

theorem memtext_execute_safe:
  assumes "mt_inv off ctx" and "off < len" and "len \<le> length buf" and "length buf < 2 ^ 32"
    and "keeps_length (mt_callback ctx)"
  shows "case memtext_execute base (ctx, buf, w) len off of
       Ok (r, off', c, b, w') \<Rightarrow>
         mt_inv off' c \<and> length b = length buf \<and> off \<le> off' \<and> off' \<le> len
         \<and> r \<in> {-1, 0, 1} \<and> (r \<noteq> -1 \<longrightarrow> off' = len)
     | Convert_error _ \<Rightarrow> False
     | Cb_threw (_, off', _) \<Rightarrow> off' = off
     | Memory_fault \<Rightarrow> \<exists>q c b w'. exec_loop base q off (ctx, buf, w) = Ok (q, c, b, w')
         \<and> q < len \<and> key_overflow c (b ! q)"
  using execute_safe [OF assms, of base w] by (auto split: act.splits)

definition accept_all :: "(unit, memtext_request list) memtext_callback" where
  "accept_all c = Some (\<lambda>u cmd req buf log. (Cb_return 0, buf, req # log))"

lemma keeps_length_accept_all: "keeps_length accept_all"
  by (simp add: keeps_length_def accept_all_def)

theorem memtext_execute_safe_witness:
  "case memtext_execute 4096 (memtext_init accept_all (), bytes_of ''get k'', []) 4 0 of
       Ok (r, off', c, b, w') \<Rightarrow>
         mt_inv off' c \<and> length b = length (bytes_of ''get k'') \<and> 0 \<le> off' \<and> off' \<le> 4
         \<and> r \<in> {-1, 0, 1} \<and> (r \<noteq> -1 \<longrightarrow> off' = 4)
     | Convert_error _ \<Rightarrow> False
     | Cb_threw (_, off', _) \<Rightarrow> off' = 0
     | Memory_fault \<Rightarrow> \<exists>q c b w'.
         exec_loop 4096 q 0 (memtext_init accept_all (), bytes_of ''get k'', []) = Ok (q, c, b, w')
         \<and> q < 4 \<and> key_overflow c (b ! q)"
  by (rule memtext_execute_safe [OF mt_inv_init])
    (simp_all add: memtext_init_def keeps_length_accept_all)


theorem memtext_execute_split_witness:
  "memtext_execute 0 (memtext_init accept_all (), bytes_of ''get k'', []) 5 0 =
    (case memtext_execute 0 (memtext_init accept_all (), bytes_of ''get k'', []) 2 0 of
       Ok (r, off', s') \<Rightarrow> memtext_execute 0 s' 5 off'
     | other \<Rightarrow> other)"
proof (rule memtext_execute_split)
  let ?r = "memtext_execute 0 (memtext_init accept_all (), bytes_of ''get k'', []) 5 0"
  have "case ?r of Cb_threw _ \<Rightarrow> False | _ \<Rightarrow> True" by code_simp
  then show "?r \<noteq> Cb_threw t" for t by auto
qed simp_all

end
