(* ===== verification/Memtext_Requests.thy ===== *)
theory Memtext_Requests
  imports Memtext
begin

text \<open>
  What the text parser of \<^verbatim>\<open>src/memproto/memtext.rl\<close> delivers: a retrieval with up to 256 keys,
  a storage command with its numbers and its data block, a deletion, a counter, and what it does
  with the requests it changes on the way: a 257th key, a \<open>cas\<close> command. \<open>steps\<close> is the part of a
  command before its callback.
\<close>

section \<open>Parsing without a callback\<close>

fun parse_actions :: "byte list \<Rightarrow> nat \<Rightarrow> action list \<Rightarrow> ('u, 'w) memtext_parser \<Rightarrow>
    ('u, 'w) memtext_parser act" where
  "parse_actions buf p [] ctx = Ok ctx"
| "parse_actions buf p (a # as) ctx =
    (case parse_action buf p a ctx of Ok ctx' \<Rightarrow> parse_actions buf p as ctx' | r \<Rightarrow> r)"

fun steps :: "byte list \<Rightarrow> nat \<Rightarrow> byte list \<Rightarrow> ('u, 'w) memtext_parser \<Rightarrow>
    ('u, 'w) memtext_parser option" where
  "steps buf p [] ctx = Some ctx"
| "steps buf p (x # xs) ctx =
    (case trans (mt_cs ctx) x of
       None \<Rightarrow> None
     | Some (t, as) \<Rightarrow>
         if list_ex is_do as then None
         else (case parse_actions buf p as (ctx\<lparr>mt_cs := t\<rparr>) of
             Ok c \<Rightarrow> steps buf (p + 1) xs c
           | _ \<Rightarrow> None))"

lemma run_actions_parse:
  "\<not> list_ex is_do as \<Longrightarrow>
   run_actions base p as (ctx, buf, w) = map_ok (\<lambda>c. (c, buf, w)) (parse_actions buf p as ctx)"
  by (induction as arbitrary: ctx) (auto simp: do_action_def split: act.splits)

lemma steps_append:
  "steps buf p (xs @ ys) ctx = Option.bind (steps buf p xs ctx) (steps buf (p + length xs) ys)"
  by (induction xs arbitrary: p ctx) (auto split: option.splits act.splits)

lemma steps_then:
  "steps buf p xs ctx = Some c \<Longrightarrow> steps buf p (xs @ ys) ctx = steps buf (p + length xs) ys c"
  by (simp add: steps_append)

lemma slice_at_Cons:
  "slice_at m p (Suc n) = x # xs \<longleftrightarrow> p < length m \<and> m ! p = x \<and> slice_at m (Suc p) n = xs"
  by (cases "p < length m") (auto simp: slice_at_def Cons_nth_drop_Suc [symmetric])

lemma exec_loop_steps:
  "steps buf p xs ctx = Some c \<Longrightarrow> slice_at buf p (length xs) = xs \<Longrightarrow> p + length xs \<le> pe \<Longrightarrow>
   exec_loop base pe p (ctx, buf, w) = exec_loop base pe (p + length xs) (c, buf, w)"
proof (induction xs arbitrary: p ctx)
  case Nil
  then show ?case by simp
next
  case (Cons x xs)
  from Cons.prems(1) obtain t as c' where
    t: "trans (mt_cs ctx) x = Some (t, as)" "\<not> list_ex is_do as"
      "parse_actions buf p as (ctx\<lparr>mt_cs := t\<rparr>) = Ok c'" "steps buf (p + 1) xs c' = Some c"
    by (auto split: option.splits act.splits if_splits)
  from Cons.prems(2) have x: "p < length buf" "buf ! p = x" "slice_at buf (p + 1) (length xs) = xs"
    by (auto simp: slice_at_Cons)
  from t(1) have "mt_cs ctx \<noteq> S_error" by auto
  with t x Cons.prems(3) have "exec_loop base pe p (ctx, buf, w) = exec_loop base pe (p + 1) (c', buf, w)"
    by (simp add: exec_loop.simps [of base pe p] run_actions_parse)
  with Cons.IH [OF t(4) x(3)] Cons.prems(3) show ?case by simp
qed

section \<open>Words and keys\<close>

text \<open>The start of a command.\<close>

definition started :: "memtext_command \<Rightarrow> ('u, 'w) memtext_parser \<Rightarrow> ('u, 'w) memtext_parser" where
  "started cmd ctx = ctx\<lparr>mt_cs := S_key0 (kind_of cmd), mt_command := cmd, mt_keys := 0,
     mt_noreply := False, mt_exptime := 0\<rparr>"

lemma steps_word:
  assumes "(v, cmd) \<in> set command_words" and "mt_cs ctx \<in> {S_start, S_final}"
  shows "steps buf p (v @ [SP]) ctx = Some (started cmd ctx)"
proof -
  have "steps buf p (v @ [SP]) (ctx\<lparr>mt_cs := S_start\<rparr>) = Some (started cmd ctx)
     \<and> steps buf p (v @ [SP]) (ctx\<lparr>mt_cs := S_final\<rparr>) = Some (started cmd ctx)"
    using assms(1)
    by (cases ctx)
      (auto simp: command_words_def keyword_prefix_def keyword_actions_def started_def SP_def is_do_def)
  then show ?thesis using assms(2) by (cases ctx) auto
qed

definition key_text :: "byte list \<Rightarrow> bool" where
  "key_text k \<longleftrightarrow> k \<noteq> [] \<and> list_all key_char k"

lemma control_chars [simp]: "CR \<noteq> SP" "SP \<noteq> CR" "LF \<noteq> CR" "CR \<noteq> LF"
  by (simp_all add: SP_def CR_def LF_def)

lemma key_char_not [simp]: "\<not> key_char SP" "\<not> key_char CR" "\<not> key_char LF"
  by (simp_all add: key_char_def)

lemma same_cs: "mt_cs ctx = s \<Longrightarrow> ctx\<lparr>mt_cs := s\<rparr> = ctx"
  by (cases ctx) simp

lemma steps_key_chars:
  "mt_cs ctx = S_key k \<Longrightarrow> list_all key_char xs \<Longrightarrow> steps buf p xs ctx = Some ctx"
  by (induction xs arbitrary: p) (auto simp: same_cs)

section \<open>Retrieval\<close>

text \<open>
  While a retrieval is read: the keys \<open>done\<close> are in the tables, one behind the other, the key \<open>cur\<close> ends
  at \<open>p\<close>.
\<close>

definition table_key :: "byte list \<Rightarrow> ('u, 'w) memtext_parser \<Rightarrow> nat \<Rightarrow> byte list" where
  "table_key buf ctx i = slice_at buf (unat (mt_key_pos ctx ! i)) (unat (mt_key_len ctx ! i))"

definition reading_keys :: "byte list \<Rightarrow> nat \<Rightarrow> byte list list \<Rightarrow> byte list \<Rightarrow>
    ('u, 'w) memtext_parser \<Rightarrow> bool" where
  "reading_keys buf p done cur ctx \<longleftrightarrow>
     mt_cs ctx = S_key Retrieval \<and> length (mt_key_pos ctx) = 256 \<and> length (mt_key_len ctx) = 256
   \<and> length done < 256 \<and> mt_keys ctx = of_nat (length done)
   \<and> (\<forall>i < length done. table_key buf ctx i = done ! i)
   \<and> (\<forall>i < length done. unat (mt_key_len ctx ! i) = length (done ! i)
        \<and> unat (mt_key_pos ctx ! i) + length (done ! i) \<le> unat (mt_key_pos ctx ! Suc i))
   \<and> unat (mt_key_pos ctx ! length done) + length cur = p
   \<and> slice_at buf (unat (mt_key_pos ctx ! length done)) (length cur) = cur"

definition same_call :: "('u, 'w) memtext_parser \<Rightarrow> ('u, 'w) memtext_parser \<Rightarrow> bool" where
  "same_call c ctx \<longleftrightarrow> mt_command c = mt_command ctx \<and> mt_callback c = mt_callback ctx
     \<and> mt_user c = mt_user ctx"

lemma unat_of_nat_keys: "n < 257 \<Longrightarrow> unat (of_nat n :: uint32_t) = n"
  by (rule unat_of_nat_32) simp

lemma mark_len: "unat m + n = p \<Longrightarrow> p < 2 ^ 64 \<Longrightarrow> unat (MARK_LEN m p) = n"
proof -
  assume a: "unat m + n = p" "p < 2 ^ 64"
  then have "of_nat p - m = (of_nat n :: size_t)" by (auto simp: of_nat_add)
  with a show "unat (MARK_LEN m p) = n" by (simp add: MARK_LEN_def unat_of_nat_size)
qed

text \<open>The end of a key enters it in the tables.\<close>

lemma end_key:
  assumes "reading_keys buf p done cur ctx" and "p < 2 ^ 64"
  defines "c \<equiv> ctx\<lparr>mt_key_len := (mt_key_len ctx)[length done := MARK_LEN (mt_key_pos ctx ! length done) p]\<rparr>"
  shows "\<forall>i < length done + 1. table_key buf c i = (done @ [cur]) ! i"
proof (intro allI impI)
  fix i
  assume "i < length done + 1"
  then consider "i < length done" | "i = length done" by linarith
  then show "table_key buf c i = (done @ [cur]) ! i"
  proof cases
    case 1
    with assms(1) show ?thesis
      by (auto simp: c_def reading_keys_def table_key_def nth_append)
  next
    case 2
    with assms(1) mark_len [of "mt_key_pos ctx ! length done" "length cur" p] assms(2) show ?thesis
      by (auto simp: c_def reading_keys_def table_key_def)
  qed
qed

lemma end_key_chain:
  assumes "reading_keys buf p done cur ctx" and "p < 2 ^ 64"
  defines "c \<equiv> ctx\<lparr>mt_key_len := (mt_key_len ctx)[length done := MARK_LEN (mt_key_pos ctx ! length done) p]\<rparr>"
  shows "\<forall>i < length done + 1. unat (mt_key_len c ! i) = length ((done @ [cur]) ! i)
     \<and> (i < length done \<longrightarrow> unat (mt_key_pos c ! i) + length ((done @ [cur]) ! i) \<le> unat (mt_key_pos c ! Suc i))
     \<and> (i = length done \<longrightarrow> unat (mt_key_pos c ! i) + length ((done @ [cur]) ! i) \<le> p)"
proof (intro allI impI)
  fix i
  assume "i < length done + 1"
  then consider "i < length done" | "i = length done" by linarith
  then show "unat (mt_key_len c ! i) = length ((done @ [cur]) ! i)
     \<and> (i < length done \<longrightarrow> unat (mt_key_pos c ! i) + length ((done @ [cur]) ! i) \<le> unat (mt_key_pos c ! Suc i))
     \<and> (i = length done \<longrightarrow> unat (mt_key_pos c ! i) + length ((done @ [cur]) ! i) \<le> p)"
  proof cases
    case 1
    with assms(1) show ?thesis by (auto simp: c_def reading_keys_def nth_append)
  next
    case 2
    with assms(1) mark_len [of "mt_key_pos ctx ! length done" "length cur" p] assms(2) show ?thesis
      by (auto simp: c_def reading_keys_def)
  qed
qed

lemma steps_next_key:
  fixes ctx :: "('u, 'w) memtext_parser"
  assumes r: "reading_keys buf p done cur ctx" and k: "key_text k"
    and s: "slice_at buf (p + 1) (length k) = k"
    and p: "p + 1 < 2 ^ 32" and n: "length done + 1 < 256"
  shows "\<exists>c. steps buf p (SP # k) ctx = Some c \<and> reading_keys buf (p + 1 + length k) (done @ [cur]) k c
     \<and> same_call c ctx"
proof -
  obtain x xs where k_eq: "k = x # xs" "key_char x" "list_all key_char xs"
    using k by (cases k) (auto simp: key_text_def)
  define n where "n = length done"
  define c0 where "c0 = ctx\<lparr>mt_key_len := (mt_key_len ctx)[n := MARK_LEN (mt_key_pos ctx ! n) p]\<rparr>"
  define c where "c = c0\<lparr>mt_cs := S_key Retrieval, mt_keys := mt_keys ctx + 1,
    mt_key_pos := (mt_key_pos ctx)[n + 1 := of_nat (p + 1)]\<rparr>"
  have keys: "unat (mt_keys ctx) = n" "unat (mt_keys ctx + 1) = n + 1"
    using r n unat_of_nat_keys [of n] unat_of_nat_keys [of "n + 1"]
    by (auto simp: reading_keys_def n_def add.commute)
  from keys(2) n have le: "\<not> 256 < mt_keys ctx + 1" by (simp add: n_def word_less_nat_alt)
  have "steps buf p (SP # k) ctx = steps buf (p + 1 + 1) xs c"
    using r keys le n k_eq
    by (cases ctx) (simp add: reading_keys_def is_do_def n_def c_def c0_def Let_def)
  also have "\<dots> = Some c"
    by (rule steps_key_chars [of _ Retrieval]) (simp_all add: c_def k_eq)
  finally have step: "steps buf p (SP # k) ctx = Some c" .
  have "table_key buf c i = table_key buf c0 i" if "i < n + 1" for i
    using that by (simp add: c_def c0_def table_key_def)
  with end_key [OF r] p have "\<forall>i < length (done @ [cur]). table_key buf c i = (done @ [cur]) ! i"
    by (simp add: c0_def n_def)
  moreover have pos: "unat (of_nat (p + 1) :: size_t) = p + 1"
    using p by (intro unat_of_nat_size) simp
  moreover have "\<forall>i < length (done @ [cur]). unat (mt_key_len c ! i) = length ((done @ [cur]) ! i)
      \<and> unat (mt_key_pos c ! i) + length ((done @ [cur]) ! i) \<le> unat (mt_key_pos c ! Suc i)"
  proof (intro allI impI)
    fix i
    assume i: "i < length (done @ [cur])"
    have l: "mt_key_len c = mt_key_len c0" "mt_key_pos c = (mt_key_pos c0)[n + 1 := of_nat (p + 1)]"
      "length (mt_key_pos c0) = 256"
      using r by (simp_all add: c_def c0_def reading_keys_def)
    have e: "unat (mt_key_len c0 ! i) = length ((done @ [cur]) ! i)
        \<and> (i < n \<longrightarrow> unat (mt_key_pos c0 ! i) + length ((done @ [cur]) ! i) \<le> unat (mt_key_pos c0 ! Suc i))
        \<and> (i = n \<longrightarrow> unat (mt_key_pos c0 ! i) + length ((done @ [cur]) ! i) \<le> p)"
      using end_key_chain [OF r] p i by (simp add: c0_def n_def)
    with l pos i n show "unat (mt_key_len c ! i) = length ((done @ [cur]) ! i)
      \<and> unat (mt_key_pos c ! i) + length ((done @ [cur]) ! i) \<le> unat (mt_key_pos c ! Suc i)"
      by (cases "i = n") (auto simp: n_def nth_list_update)
  qed
  ultimately have "reading_keys buf (p + 1 + length k) (done @ [cur]) k c"
    using r n s unfolding reading_keys_def c_def c0_def n_def
    by (simp add: add.commute)
  moreover have "same_call c ctx" by (simp add: same_call_def c_def c0_def)
  ultimately show ?thesis using step by blast
qed

lemma slice_at_parts:
  "slice_at m p (length xs + length ys) = xs @ ys \<longleftrightarrow>
   slice_at m p (length xs) = xs \<and> slice_at m (p + length xs) (length ys) = ys"
proof
  assume a: "slice_at m p (length xs + length ys) = xs @ ys"
  have "length (slice_at m p (length xs)) \<le> length xs"
    "length (slice_at m (p + length xs) (length ys)) \<le> length ys"
    by (simp_all add: slice_at_def)
  moreover from arg_cong [OF a, of length]
  have "length (slice_at m p (length xs)) + length (slice_at m (p + length xs) (length ys))
      = length xs + length ys"
    by (simp add: slice_at_append)
  ultimately have "length (slice_at m p (length xs)) = length xs" by linarith
  with a show "slice_at m p (length xs) = xs \<and> slice_at m (p + length xs) (length ys) = ys"
    by (simp add: slice_at_append)
qed (simp add: slice_at_append)

fun more_keys :: "byte list list \<Rightarrow> byte list" where
  "more_keys [] = []"
| "more_keys (k # ks) = SP # k @ more_keys ks"

lemma steps_more_keys:
  fixes ctx :: "('u, 'w) memtext_parser"
  assumes "reading_keys buf p done cur ctx" and "list_all key_text ks"
    and "slice_at buf p (length (more_keys ks)) = more_keys ks"
    and "p + length (more_keys ks) < 2 ^ 32" and "length done + length ks < 256"
  shows "\<exists>c done' cur'. steps buf p (more_keys ks) ctx = Some c
     \<and> reading_keys buf (p + length (more_keys ks)) done' cur' c
     \<and> done' @ [cur'] = done @ cur # ks \<and> same_call c ctx"
  using assms
proof (induction ks arbitrary: p "done" cur ctx)
  case Nil
  then show ?case by (auto simp: same_call_def)
next
  case (Cons k ks)
  let ?p = "p + 1 + length k"
  have sl: "slice_at buf (p + 1) (length k) = k" "slice_at buf ?p (length (more_keys ks)) = more_keys ks"
    using Cons.prems(3) slice_at_parts [of buf "p + 1" k "more_keys ks"]
    by (simp_all add: slice_at_Cons)
  from Cons.prems(2,4,5) have small: "key_text k" "p + 1 < 2 ^ 32" "length done + 1 < 256"
    by auto
  from steps_next_key [OF Cons.prems(1) small(1) sl(1) small(2,3)] obtain c where
    c: "steps buf p (SP # k) ctx = Some c" "reading_keys buf ?p (done @ [cur]) k c" "same_call c ctx"
    by blast
  have "list_all key_text ks" "?p + length (more_keys ks) < 2 ^ 32" "length (done @ [cur]) + length ks < 256"
    using Cons.prems(2,4,5) by auto
  from Cons.IH [OF c(2) this(1) sl(2) this(2,3)] obtain c' done' cur' where
    c': "steps buf ?p (more_keys ks) c = Some c'"
      "reading_keys buf (?p + length (more_keys ks)) done' cur' c'"
      "done' @ [cur'] = (done @ [cur]) @ k # ks" "same_call c' c"
    by blast
  have "steps buf p (more_keys (k # ks)) ctx = Some c'"
    using steps_then [OF c(1), of "more_keys ks"] c'(1) by simp
  moreover have "reading_keys buf (p + length (more_keys (k # ks))) done' cur' c'"
    using c'(2) by (simp add: add.assoc)
  moreover have "done' @ [cur'] = done @ cur # k # ks" using c'(3) by simp
  moreover have "same_call c' ctx" using c'(4) c(3) by (simp add: same_call_def)
  ultimately show ?case by blast
qed

text \<open>The text of a retrieval, and the keys a callback reads through its request.\<close>

definition retrieval_text :: "byte list \<Rightarrow> byte list list \<Rightarrow> byte list" where
  "retrieval_text v ks = v @ more_keys ks @ [CR, LF]"

definition request_keys :: "size_t \<Rightarrow> byte list \<Rightarrow> memtext_request_retrieval \<Rightarrow> byte list list" where
  "request_keys base buf req =
    map2 (\<lambda>a n. slice_at buf (unat (a - base)) (unat n)) (rr_key req) (rr_key_len req)"

text \<open>
  \<open>slots_ok\<close>: the key buffers of a request lie below \<open>len\<close>, one behind the other.
\<close>

fun slots_ok :: "size_t \<Rightarrow> nat \<Rightarrow> (size_t \<times> size_t) list \<Rightarrow> bool" where
  "slots_ok base len [] \<longleftrightarrow> True"
| "slots_ok base len ((p, n) # ks) \<longleftrightarrow> unat (p - base) + unat n \<le> len
    \<and> (\<forall>(q, m) \<in> set ks. unat (p - base) + unat n \<le> unat (q - base)) \<and> slots_ok base len ks"

lemma slots_ok_mono: "slots_ok base len ks \<Longrightarrow> len \<le> len' \<Longrightarrow> slots_ok base len' ks"
  by (induction base len ks rule: slots_ok.induct) auto

lemma slots_chain:
  assumes "length ps = length ns"
    and "\<forall>i < length ps. (Suc i < length ps \<longrightarrow> unat (ps ! i) + unat (ns ! i) \<le> unat (ps ! Suc i))
      \<and> (Suc i = length ps \<longrightarrow> unat (ps ! i) + unat (ns ! i) \<le> len)"
  shows "slots_ok base len (zip (map (\<lambda>m. base + m) ps) ns)
    \<and> (\<forall>q \<in> set ps. unat (hd ps) \<le> unat q) \<and> (ps \<noteq> [] \<longrightarrow> unat (hd ps) + unat (hd ns) \<le> len)"
  using assms
proof (induction ps ns rule: list_induct2)
  case (Cons p ps n ns)
  have "\<forall>i < length ps. (Suc i < length ps \<longrightarrow> unat (ps ! i) + unat (ns ! i) \<le> unat (ps ! Suc i))
      \<and> (Suc i = length ps \<longrightarrow> unat (ps ! i) + unat (ns ! i) \<le> len)"
  proof (intro allI impI)
    fix i
    assume i: "i < length ps"
    then have "(Suc (Suc i) < Suc (length ps) \<longrightarrow> unat (ps ! i) + unat (ns ! i) \<le> unat (ps ! Suc i))
      \<and> (Suc (Suc i) = Suc (length ps) \<longrightarrow> unat (ps ! i) + unat (ns ! i) \<le> len)"
      using Cons.prems [THEN spec, of "Suc i"] unfolding nth_Cons_Suc list.size by simp
    then show "(Suc i < length ps \<longrightarrow> unat (ps ! i) + unat (ns ! i) \<le> unat (ps ! Suc i))
      \<and> (Suc i = length ps \<longrightarrow> unat (ps ! i) + unat (ns ! i) \<le> len)" unfolding Suc_less_eq nat.inject .
  qed
  note IH = Cons.IH [OF this]
  have first: "if ps = [] then unat p + unat n \<le> len else unat p + unat n \<le> unat (hd ps)"
    using Cons.prems [rule_format, of 0] by (cases ps) simp_all
  have len: "unat p + unat n \<le> len" using first IH by (cases "ps = []") simp_all
  have below: "unat p + unat n \<le> unat q" if "q \<in> set ps" for q
    using first IH that by (cases "ps = []") force+
  then have "\<forall>(q, m) \<in> set (zip (map (\<lambda>m. base + m) ps) ns). unat p + unat n \<le> unat (q - base)"
    by (auto dest!: set_zip_leftD)
  with IH len below show ?case by fastforce
qed simp

lemma steps_retrieval:
  fixes ctx :: "('u, 'w) memtext_parser"
  assumes v: "(v, cmd) \<in> set command_words" "kind_of cmd = Retrieval"
    and inv: "mt_inv p ctx" "mt_cs ctx \<in> {S_start, S_final}"
    and ks: "list_all key_text (k # ks)" "length (k # ks) \<le> 256"
    and s: "slice_at buf p (length (v @ more_keys (k # ks))) = v @ more_keys (k # ks)"
    and p: "p + length (v @ more_keys (k # ks)) < 2 ^ 32"
  shows "\<exists>c done cur. steps buf p (v @ more_keys (k # ks)) ctx = Some c
     \<and> reading_keys buf (p + length (v @ more_keys (k # ks))) done cur c
     \<and> done @ [cur] = k # ks \<and> mt_command c = cmd
     \<and> mt_callback c = mt_callback ctx \<and> mt_user c = mt_user ctx"
proof -
  let ?q = "p + length (v @ [SP])"
  obtain x xs where k_eq: "k = x # xs" "key_char x" "list_all key_char xs"
    using ks(1) by (cases k) (auto simp: key_text_def)
  define c0 where "c0 = (started cmd ctx)\<lparr>mt_cs := S_key Retrieval,
    mt_key_pos := (mt_key_pos ctx)[0 := of_nat ?q]\<rparr>"
  have "steps buf ?q (x # xs) (started cmd ctx) = steps buf (?q + 1) xs c0"
    using v(2) inv(1) k_eq by (simp add: started_def c0_def mt_inv_def is_do_def)
  also have "\<dots> = Some c0"
    by (rule steps_key_chars [of _ Retrieval]) (simp_all add: c0_def k_eq)
  finally have first: "steps buf p ((v @ [SP]) @ k) ctx = Some c0"
    using steps_then [OF steps_word [OF v(1) inv(2)]] k_eq(1) by metis
  let ?r = "p + length ((v @ [SP]) @ k)"
  have sl: "slice_at buf ?q (length k) = k" "slice_at buf ?r (length (more_keys ks)) = more_keys ks"
    using s slice_at_parts [of buf p "v @ [SP]" "k @ more_keys ks"]
      slice_at_parts [of buf ?q k "more_keys ks"]
    by (simp_all add: add.assoc)
  have "unat (of_nat ?q :: size_t) = ?q"
    using p by (intro unat_of_nat_size) simp
  then have r0: "reading_keys buf ?r [] k c0"
    using inv(1) sl(1) by (simp add: reading_keys_def c0_def started_def mt_inv_def)
  have "list_all key_text ks" "?r + length (more_keys ks) < 2 ^ 32" "length [] + length ks < 256"
    using ks p by auto
  from steps_more_keys [OF r0 this(1) sl(2) this(2,3)] obtain c done' cur' where
    c: "steps buf ?r (more_keys ks) c0 = Some c"
      "reading_keys buf (?r + length (more_keys ks)) done' cur' c"
      "done' @ [cur'] = [] @ k # ks" "same_call c c0"
    by blast
  have "steps buf p (v @ more_keys (k # ks)) ctx = Some c"
    using steps_then [OF first, of "more_keys ks"] c(1) by simp
  moreover have "reading_keys buf (p + length (v @ more_keys (k # ks))) done' cur' c"
    using c(2) by (simp add: add.assoc)
  moreover have "done' @ [cur'] = k # ks" using c(3) by simp
  moreover have "mt_command c = cmd" "mt_callback c = mt_callback ctx" "mt_user c = mt_user ctx"
    using c(4) by (simp_all add: same_call_def c0_def started_def)
  ultimately show ?thesis by blast
qed

lemma absolute_keys_all:
  assumes "unat (mt_keys c) = n" and "n \<le> length (mt_key_pos c)" and "n \<le> length (mt_key_len c)"
  shows "absolute_keys base c = Some (c\<lparr>mt_key_pos :=
      map (\<lambda>m. base + m) (take n (mt_key_pos c)) @ drop n (mt_key_pos c)\<rparr>)"
  using assms by (simp add: absolute_keys_def Let_def)

lemma request_keys_table:
  assumes "n \<le> length (mt_key_pos c)" and "n \<le> length (mt_key_len c)"
    and "rr_key req = map (\<lambda>m. base + m) (take n (mt_key_pos c))"
    and "rr_key_len req = take n (mt_key_len c)"
  shows "request_keys base buf req = map (table_key buf c) [0..<n]"
  using assms by (intro nth_equalityI) (simp_all add: request_keys_def table_key_def)

text \<open>
  How a call ends whose last character runs the callback; \<open>delivers\<close> is what the caller sees of it.
\<close>

definition delivers :: "size_t \<Rightarrow> nat \<Rightarrow> nat \<Rightarrow> ('u, 'w) memtext_parser \<Rightarrow> byte list \<Rightarrow> 'w \<Rightarrow>
    memtext_command \<Rightarrow> memtext_request \<Rightarrow> ('u, 'w) memtext_parser \<Rightarrow> bool" where
  "delivers base off len ctx buf w cmd req c \<longleftrightarrow>
    (case mt_callback ctx cmd of
       None \<Rightarrow> memtext_execute base (ctx, buf, w) len off = Ok (-1, len - 1, c\<lparr>mt_cs := S_error\<rparr>, buf, w)
     | Some cb \<Rightarrow>
       (case cb (mt_user ctx) cmd req buf w of
          (Cb_return r, b, w') \<Rightarrow>
            memtext_execute base (ctx, buf, w) len off =
              (if r < 0 then Ok (-1, len - 1, c\<lparr>mt_cs := S_error\<rparr>, b, w') else Ok (1, len, c, b, w'))
        | (Cb_throw, b, w') \<Rightarrow>
            (\<exists>c'. memtext_execute base (ctx, buf, w) len off = Cb_threw (0, off, c', b, w'))))"

lemma delivers_intro:
  assumes "exec_loop base len off (ctx, buf, w) = exec_loop base len p (c0, buf, w)"
    and "len = p + 1" and "off < len" and "p < length buf" and "buf ! p = LF"
    and "mt_cs c0 = S_cr k \<or> mt_cs c0 = S_body_cr k"
    and "do_action base p (do_command k) (c0\<lparr>mt_cs := S_final\<rparr>, buf, w) =
       call_back base (do_command k) (c, buf, w)"
    and "mt_callback c = mt_callback ctx" and "mt_user c = mt_user ctx"
    and "mt_command c = cmd" and "request_of base (do_command k) c = req" and "mt_cs c = S_final"
  shows "delivers base off len ctx buf w cmd req c"
proof -
  have "exec_loop base len off (ctx, buf, w) =
      (case call_back base (do_command k) (c, buf, w) of
         Ok s \<Rightarrow> exec_loop base len len s
       | Convert_error (ctx', buf', w') \<Rightarrow> Ok (p, ctx'\<lparr>mt_cs := S_error\<rparr>, buf', w')
       | Cb_threw (ctx', buf', w') \<Rightarrow> Cb_threw (p, ctx'\<lparr>mt_cs := mt_cs c0\<rparr>, buf', w')
       | Memory_fault \<Rightarrow> Memory_fault)"
    unfolding assms(1)
    using assms(2,4-7)
    by (subst exec_loop.simps) (auto split: act.splits)
  then show ?thesis
    using assms(2,3,8-12)
    by (auto simp: delivers_def memtext_execute_def call_back_def return_code_def
        split: option.splits cb_result.splits prod.splits)
qed

text \<open>
  A whole command without its callback: all bytes but the last, the line feed, are steps, and the
  action of the line feed is the callback, with a request of which \<open>P\<close> holds wherever the buffer lies.
\<close>

definition line_feed :: "byte list \<Rightarrow> nat \<Rightarrow> kind \<Rightarrow> ('u, 'w) memtext_parser \<Rightarrow> ('u, 'w) memtext_parser \<Rightarrow>
    memtext_command \<Rightarrow> size_t \<Rightarrow> ('u, 'w) memtext_parser \<Rightarrow> bool" where
  "line_feed buf p k c0 ctx cmd base c \<longleftrightarrow>
     (\<forall>w. do_action base p (do_command k) (c0\<lparr>mt_cs := S_final\<rparr>, buf, w) = call_back base (do_command k) (c, buf, w))
     \<and> mt_callback c = mt_callback ctx \<and> mt_user c = mt_user ctx \<and> mt_command c = cmd \<and> mt_cs c = S_final"

definition completes :: "byte list \<Rightarrow> nat \<Rightarrow> byte list \<Rightarrow> ('u, 'w) memtext_parser \<Rightarrow> memtext_command \<Rightarrow>
    (size_t \<Rightarrow> memtext_request \<Rightarrow> bool) \<Rightarrow> bool" where
  "completes buf off t ctx cmd P \<longleftrightarrow>
    (\<exists>h c0 k. t = h @ [LF] \<and> steps buf off h ctx = Some c0 \<and> (mt_cs c0 = S_cr k \<or> mt_cs c0 = S_body_cr k)
     \<and> (\<forall>base. \<exists>c. line_feed buf (off + length h) k c0 ctx cmd base c
          \<and> P base (request_of base (do_command k) c)))"

lemma completes_delivers:
  assumes "completes buf off t ctx cmd P" and s: "slice_at buf off (length t) = t"
  obtains req c where "delivers base off (off + length t) ctx buf w cmd req c" and "P base req"
proof -
  from assms(1) obtain h c0 k c where
    t: "t = h @ [LF]" and h: "steps buf off h ctx = Some c0" and cs: "mt_cs c0 = S_cr k \<or> mt_cs c0 = S_body_cr k"
    and c: "\<And>w. do_action base (off + length h) (do_command k) (c0\<lparr>mt_cs := S_final\<rparr>, buf, w) =
        call_back base (do_command k) (c, buf, w)"
      "mt_callback c = mt_callback ctx" "mt_user c = mt_user ctx" "mt_command c = cmd" "mt_cs c = S_final"
      "P base (request_of base (do_command k) c)"
    unfolding completes_def line_feed_def by blast
  have sl: "slice_at buf off (length h) = h" "slice_at buf (off + length h) 1 = [LF]"
    using s slice_at_parts [of buf off h "[LF]"] by (simp_all add: t)
  have "exec_loop base (off + length t) off (ctx, buf, w) = exec_loop base (off + length t) (off + length h) (c0, buf, w)"
    by (rule exec_loop_steps [OF h sl(1)]) (simp add: t)
  from delivers_intro [OF this _ _ _ _ cs c(1-4) refl c(5)] sl(2)
  have "delivers base off (off + length t) ctx buf w cmd (request_of base (do_command k) c) c"
    by (simp add: t slice_at_Cons)
  with c(6) that show thesis by blast
qed

lemma completes_weaken:
  assumes "completes buf off t ctx cmd P" and "\<And>base req. P base req \<Longrightarrow> Q base req"
  shows "completes buf off t ctx cmd Q"
  using assms unfolding completes_def by metis

text \<open>A retrieval up to the carriage return.\<close>

lemma steps_retrieval_line:
  fixes ctx :: "('u, 'w) memtext_parser"
  assumes v: "(v, cmd) \<in> set command_words" "kind_of cmd = Retrieval"
    and inv: "mt_inv off ctx" "mt_cs ctx \<in> {S_start, S_final}"
    and ks: "ks \<noteq> []" "list_all key_text ks" "length ks \<le> 256"
    and s: "slice_at buf off (length (v @ more_keys ks @ [CR])) = v @ more_keys ks @ [CR]"
    and p: "off + length (v @ more_keys ks @ [CR]) < 2 ^ 32"
  obtains c where "steps buf off (v @ more_keys ks @ [CR]) ctx = Some c"
    and "mt_cs c = S_cr Retrieval" "mt_keys c + 1 = of_nat (length ks)"
    and "map (table_key buf c) [0..<length ks] = ks"
    and "\<forall>i < length ks. unat (mt_key_len c ! i) = length (ks ! i)
        \<and> (Suc i < length ks \<longrightarrow> unat (mt_key_pos c ! i) + length (ks ! i) \<le> unat (mt_key_pos c ! Suc i))
        \<and> (Suc i = length ks \<longrightarrow> unat (mt_key_pos c ! i) + length (ks ! i) \<le> off + length (v @ more_keys ks))"
    and "length (mt_key_pos c) = 256" "length (mt_key_len c) = 256"
    and "mt_command c = cmd" "mt_callback c = mt_callback ctx" "mt_user c = mt_user ctx"
proof -
  let ?h = "v @ more_keys ks"
  define q where "q = off + length ?h"
  from ks(1) obtain k ks' where k: "ks = k # ks'" by (cases ks) auto
  have sl: "slice_at buf off (length ?h) = ?h"
    using slice_at_parts [of buf off ?h "[CR]"] s by simp
  have q: "off + length ?h < 2 ^ 32" "q < 2 ^ 32" using p by (simp_all add: q_def)
  from steps_retrieval [OF v inv ks(2,3) [unfolded k] sl [unfolded k] q(1) [unfolded k]]
  obtain c0 "done" cur where c0: "steps buf off ?h ctx = Some c0"
      "reading_keys buf q done cur c0" "done @ [cur] = ks" "mt_command c0 = cmd"
      "mt_callback c0 = mt_callback ctx" "mt_user c0 = mt_user ctx"
    by (auto simp: k q_def)
  have n: "length ks = length done + 1" using c0(3) by auto
  have keys: "unat (mt_keys c0) = length done" "mt_keys c0 + 1 = of_nat (length ks)"
    using c0(2) n ks(3) unat_of_nat_keys [of "length done"] by (simp_all add: reading_keys_def add.commute)
  define c where "c = c0\<lparr>mt_cs := S_cr Retrieval, mt_key_len :=
      (mt_key_len c0)[length done := MARK_LEN (mt_key_pos c0 ! length done) q]\<rparr>"
  have "steps buf q [CR] c0 = Some c"
    using keys(1) c0(2) by (simp add: c_def is_do_def reading_keys_def)
  then have "steps buf off (v @ more_keys ks @ [CR]) ctx = Some c"
    using steps_then [OF c0(1), of "[CR]"] by (simp add: q_def)
  moreover have "\<forall>i < length ks. table_key buf c i = ks ! i"
    using end_key [OF c0(2)] q(2) n c0(3) by (simp add: c_def table_key_def)
  then have "map (table_key buf c) [0..<length ks] = ks" by (intro nth_equalityI) simp_all
  moreover have "\<forall>i < length ks. unat (mt_key_len c ! i) = length (ks ! i)
        \<and> (Suc i < length ks \<longrightarrow> unat (mt_key_pos c ! i) + length (ks ! i) \<le> unat (mt_key_pos c ! Suc i))
        \<and> (Suc i = length ks \<longrightarrow> unat (mt_key_pos c ! i) + length (ks ! i) \<le> off + length (v @ more_keys ks))"
    using end_key_chain [OF c0(2)] q(2) n unfolding c0(3) by (simp add: c_def q_def)
  ultimately show thesis using that c0(2,4-6) keys(2) by (simp add: c_def reading_keys_def)
qed

lemma get_completes:
  fixes ctx :: "('u, 'w) memtext_parser"
  assumes v: "(v, cmd) \<in> set command_words" "kind_of cmd = Retrieval"
    and inv: "mt_inv off ctx" "mt_cs ctx \<in> {S_start, S_final}"
    and ks: "ks \<noteq> []" "list_all key_text ks" "length ks \<le> 256"
    and s: "slice_at buf off (length (retrieval_text v ks)) = retrieval_text v ks"
    and buf: "length buf < 2 ^ 32"
  shows "completes buf off (retrieval_text v ks) ctx cmd (\<lambda>base req. \<exists>r. req = Req_retrieval r
     \<and> request_keys base buf r = ks \<and> rr_key_num r = of_nat (length ks)
     \<and> length (rr_key r) = length ks \<and> map unat (rr_key_len r) = map length ks
     \<and> slots_ok base (off + length (retrieval_text v ks)) (zip (rr_key r) (rr_key_len r)))"
proof -
  let ?h = "v @ more_keys ks @ [CR]"
  have t: "retrieval_text v ks = ?h @ [LF]" by (simp add: retrieval_text_def)
  have sl: "slice_at buf off (length ?h) = ?h" "slice_at buf (off + length ?h) 1 = [LF]"
    using s slice_at_parts [of buf off ?h "[LF]"] by (simp_all add: t)
  then have "off + length ?h < 2 ^ 32" using buf by (simp add: slice_at_Cons)
  from steps_retrieval_line [OF v inv ks sl(1) this] obtain c0 where
    c0: "steps buf off ?h ctx = Some c0" "mt_cs c0 = S_cr Retrieval" "mt_keys c0 + 1 = of_nat (length ks)"
      "map (table_key buf c0) [0..<length ks] = ks"
      "\<forall>i < length ks. unat (mt_key_len c0 ! i) = length (ks ! i)
        \<and> (Suc i < length ks \<longrightarrow> unat (mt_key_pos c0 ! i) + length (ks ! i) \<le> unat (mt_key_pos c0 ! Suc i))
        \<and> (Suc i = length ks \<longrightarrow> unat (mt_key_pos c0 ! i) + length (ks ! i) \<le> off + length (v @ more_keys ks))"
      "length (mt_key_pos c0) = 256" "length (mt_key_len c0) = 256"
      "mt_command c0 = cmd" "mt_callback c0 = mt_callback ctx" "mt_user c0 = mt_user ctx" .
  let ?n = "length ks" and ?c1 = "c0\<lparr>mt_cs := S_final, mt_keys := of_nat (length ks)\<rparr>"
  let ?c = "\<lambda>base. ?c1\<lparr>mt_key_pos := map (\<lambda>m. base + m) (take ?n (mt_key_pos c0)) @ drop ?n (mt_key_pos c0)\<rparr>"
  have n: "unat (of_nat ?n :: uint32_t) = ?n" using ks(3) by (simp add: unat_of_nat_keys)
  have abs: "absolute_keys base ?c1 = Some (?c base)" for base
    using absolute_keys_all [of ?c1 ?n base] n ks(3) c0(6,7) by simp
  have act: "do_action base (off + length ?h) (do_command Retrieval) (c0\<lparr>mt_cs := S_final\<rparr>, buf, w) =
      call_back base (do_command Retrieval) (?c base, buf, w)" for base w
    using abs [of base] c0(3) by (simp add: do_action_def is_do_def)
  have req: "\<exists>r. request_of base (do_command Retrieval) (?c base) = Req_retrieval r
      \<and> request_keys base buf r = ks \<and> rr_key_num r = of_nat ?n
      \<and> length (rr_key r) = ?n \<and> map unat (rr_key_len r) = map length ks
      \<and> slots_ok base (off + length (retrieval_text v ks)) (zip (rr_key r) (rr_key_len r))" for base
  proof -
    let ?r = "\<lparr>rr_key = map (\<lambda>m. base + m) (take ?n (mt_key_pos c0)), rr_key_len = take ?n (mt_key_len c0),
        rr_key_num = of_nat ?n\<rparr>"
    have "request_of base (do_command Retrieval) (?c base) = Req_retrieval ?r"
      using n ks(3) c0(6,7) by simp
    moreover have "request_keys base buf ?r = map (table_key buf c0) [0..<?n]"
      using ks(3) c0(6,7) by (intro request_keys_table) simp_all
    moreover have "map unat (take ?n (mt_key_len c0)) = map length ks"
      using ks(3) c0(5,7) by (intro nth_equalityI) simp_all
    moreover have "slots_ok base (off + length (v @ more_keys ks)) (zip (rr_key ?r) (rr_key_len ?r))"
      using slots_chain [of "take ?n (mt_key_pos c0)" "take ?n (mt_key_len c0)" "off + length (v @ more_keys ks)" base]
        ks(3) c0(5-7) by simp
    then have "slots_ok base (off + length (retrieval_text v ks)) (zip (rr_key ?r) (rr_key_len ?r))"
      by (rule slots_ok_mono) (simp add: retrieval_text_def)
    ultimately show ?thesis using ks(3) c0(4,6) by (intro exI [of _ ?r]) simp
  qed
  have "line_feed buf (off + length ?h) Retrieval c0 ctx cmd base (?c base)" for base
    using act c0(8-10) by (simp add: line_feed_def)
  with req have "\<exists>c. line_feed buf (off + length ?h) Retrieval c0 ctx cmd base c \<and> (\<exists>r. request_of base (do_command Retrieval) c = Req_retrieval r
      \<and> request_keys base buf r = ks \<and> rr_key_num r = of_nat ?n
      \<and> length (rr_key r) = ?n \<and> map unat (rr_key_len r) = map length ks
      \<and> slots_ok base (off + length (retrieval_text v ks)) (zip (rr_key r) (rr_key_len r)))" for base by blast
  with t c0(1,2) show ?thesis unfolding completes_def by blast
qed

lemma get_delivers:
  fixes ctx :: "('u, 'w) memtext_parser"
  assumes v: "(v, cmd) \<in> set command_words" "kind_of cmd = Retrieval"
    and inv: "mt_inv off ctx" "mt_cs ctx \<in> {S_start, S_final}"
    and ks: "ks \<noteq> []" "list_all key_text ks" "length ks \<le> 256"
    and s: "slice_at buf off (length (retrieval_text v ks)) = retrieval_text v ks"
    and buf: "length buf < 2 ^ 32"
  shows "\<exists>req c. request_keys base buf req = ks \<and> rr_key_num req = of_nat (length ks)
     \<and> delivers base off (off + length (retrieval_text v ks)) ctx buf w cmd (Req_retrieval req) c"
  using completes_delivers [OF get_completes [OF assms] s, of base w] by blast

text \<open>
  C21. A retrieval delivers its keys: when the buffer holds \<open>get\<close> or \<open>gets\<close>, 1 to 256 keys (no
  space, no control character of the protocol in them) and the end of the line, one call of
  \<open>memtext_execute\<close> invokes the callback of that command exactly once, with a request whose
  pointers and lengths read back exactly those keys in their order; it then returns 1 with all bytes
  consumed, or -1 at the last byte when there is no callback or it returns a negative value.
\<close>

theorem memtext_get_delivers:
  fixes ctx :: "('u, 'w) memtext_parser"
  assumes v: "(v, cmd) \<in> set command_words" "kind_of cmd = Retrieval"
    and inv: "mt_inv off ctx" "mt_cs ctx \<in> {S_start, S_final}"
    and ks: "ks \<noteq> []" "list_all key_text ks" "length ks \<le> 256"
    and s: "slice_at buf off (length (retrieval_text v ks)) = retrieval_text v ks"
    and buf: "length buf < 2 ^ 32"
  shows "\<exists>req c. request_keys base buf req = ks \<and> rr_key_num req = of_nat (length ks)
     \<and> delivers base off (off + length (retrieval_text v ks)) ctx buf w cmd (Req_retrieval req) c"
  by (rule get_delivers [OF assms])

text \<open>
  One key too many is written out of bounds: the bound test of \<open>incr_key\<close> comes one key late.
  On a retrieval with 257 keys the call does not reject the request, it stores the position of the
  257th key behind the end of the table.
\<close>

theorem memtext_257_keys_overflow:
  fixes ctx :: "('u, 'w) memtext_parser"
  assumes v: "(v, cmd) \<in> set command_words" "kind_of cmd = Retrieval"
    and inv: "mt_inv off ctx" "mt_cs ctx \<in> {S_start, S_final}"
    and ks: "list_all key_text ks" "length ks = 256" and x: "key_char x"
    and s: "slice_at buf off (length (v @ more_keys ks @ [SP, x])) = v @ more_keys ks @ [SP, x]"
    and buf: "length buf < 2 ^ 32"
    and len: "off + length (v @ more_keys ks @ [SP, x]) \<le> len"
  shows "memtext_execute base (ctx, buf, w) len off = Memory_fault"
proof -
  let ?h = "v @ more_keys ks"
  define q where "q = off + length ?h"
  have sl: "slice_at buf off (length ?h) = ?h" and tail: "slice_at buf q 2 = [SP, x]"
    using s slice_at_parts [of buf off ?h "[SP, x]"] by (simp_all add: q_def add.assoc numeral_2_eq_2)
  then have next_key: "q + 1 < length buf" "buf ! q = SP" "buf ! (q + 1) = x"
    by (simp_all add: numeral_2_eq_2 slice_at_Cons)
  from ks(2) obtain k ks' where k: "ks = k # ks'" by (cases ks) auto
  have q32: "off + length (v @ more_keys (k # ks')) < 2 ^ 32"
    using next_key(1) buf by (simp add: q_def k)
  have "length (k # ks') \<le> 256" using ks(2) k by simp
  from steps_retrieval [OF v inv ks(1) [unfolded k] this sl [unfolded k] q32]
  obtain c "done" cur where c: "steps buf off ?h ctx = Some c" "reading_keys buf q done cur c"
      "done @ [cur] = ks"
    by (auto simp: k q_def)
  have n: "length done = 255" using c(3) ks(2) by auto
  have more: "q + 2 \<le> len" "\<not> len \<le> q" "\<not> len \<le> Suc q" using len by (simp_all add: q_def)
  have keys: "mt_keys c = 255" using c(2) n by (simp add: reading_keys_def)
  have "exec_loop base len off (ctx, buf, w) = exec_loop base len q (c, buf, w)"
    using exec_loop_steps [OF c(1) sl, of len] more by (simp add: q_def)
  also have "\<dots> = exec_loop base len (q + 1) (c\<lparr>mt_cs := S_key_sp,
      mt_key_len := (mt_key_len c)[255 := MARK_LEN (mt_key_pos c ! 255) q]\<rparr>, buf, w)"
    using next_key keys c(2) more
    by (subst exec_loop.simps) (simp add: do_action_def is_do_def reading_keys_def)
  also have "\<dots> = Memory_fault"
    using next_key keys c(2) more x
    by (subst exec_loop.simps) (simp add: do_action_def is_do_def reading_keys_def)
  finally show ?thesis using more by (simp add: memtext_execute_def q_def)
qed

section \<open>Numbers\<close>

text \<open>The decimal digits of a number, as a client writes them.\<close>

fun decimal :: "nat \<Rightarrow> byte list" where
  "decimal n = (if n < 10 then [of_nat (48 + n)]
     else decimal (n div 10) @ [of_nat (48 + n mod 10)])"

declare decimal.simps [simp del]

lemma unat_digit: "d < 10 \<Longrightarrow> unat (of_nat (48 + d) :: byte) = 48 + d"
  by (simp only: unat_of_nat) (simp add: take_bit_nat_eq_self)

lemma digit_of_nat: "d < 10 \<Longrightarrow> digit (of_nat (48 + d))"
  using unat_digit [of d] by (simp add: digit_def word_le_nat_alt del: of_nat_add)

lemma digit19_of_nat: "d < 10 \<Longrightarrow> 0 < d \<Longrightarrow> digit19 (of_nat (48 + d))"
  using unat_digit [of d] by (simp add: digit19_def word_le_nat_alt del: of_nat_add)

lemma decimal_0: "decimal 0 = [48]"
  by (simp add: decimal.simps)

lemma decimal_digits: "list_all digit (decimal n)"
  by (induction n rule: decimal.induct)
    (subst decimal.simps, simp add: digit_of_nat del: of_nat_add)

lemma decimal_not_Nil [simp]: "decimal n \<noteq> []"
  by (subst decimal.simps) simp

lemma decimal_hd: "0 < n \<Longrightarrow> digit19 (hd (decimal n))"
proof (induction n rule: decimal.induct)
  case (1 n)
  then show ?case
    by (subst decimal.simps) (simp add: digit19_of_nat hd_append del: of_nat_add)
qed

lemma number_of_digits_snoc:
  "number_of_digits (ds @ [d]) = 10 * number_of_digits ds + (unat d - 48)"
  by (simp add: number_of_digits_def)

lemma number_of_decimal [simp]: "number_of_digits (decimal n) = n"
proof (induction n rule: decimal.induct)
  case (1 n)
  then show ?case
    using unat_digit [of n] unat_digit [of "n mod 10"]
    by (subst decimal.simps) (simp add: number_of_digits_snoc number_of_digits_def del: of_nat_add)
qed

lemma decimal_length: "n < 10 ^ k \<Longrightarrow> 0 < k \<Longrightarrow> length (decimal n) \<le> k"
proof (induction n arbitrary: k rule: decimal.induct)
  case (1 n)
  show ?case
  proof (cases "n < 10")
    case True
    with 1 show ?thesis by (simp add: decimal.simps)
  next
    case False
    with 1(2,3) have "n div 10 < 10 ^ (k - 1)" "0 < k - 1"
      by (cases k; simp add: less_mult_imp_div_less mult.commute; cases "k - 1"; simp)+
    with 1(1) [OF False] False show ?thesis by (subst decimal.simps) fastforce
  qed
qed

lemma takeWhile_digits: "takeWhile digit (decimal n) = decimal n"
  using decimal_digits [of n] by (simp add: takeWhile_eq_all_conv list_all_iff)

lemma strtoul_decimal: "n < 2 ^ 64 \<Longrightarrow> strtoul (decimal n) = of_nat n"
  by (simp add: strtoul_def takeWhile_digits ULONG_MAX_def min_absorb2)

text \<open>
  \<open>SET_INTEGER\<close> reads such a number exactly, up to the truncation to the type of the destination;
  a number that the truncation turns into 0 is an error.
\<close>

lemma set_integer_decimal:
  assumes n: "n < 2 ^ 64" and s: "slice_at buf (unat m) (length (decimal n)) = decimal n"
    and p: "unat m + length (decimal n) = p" "p < 2 ^ 32"
    and nz: "n \<noteq> 0 \<Longrightarrow> (of_nat n :: 'd::len word) \<noteq> 0"
  shows "SET_INTEGER put m p buf ctx = Ok (put (of_nat n :: 'd word) ctx)"
proof -
  let ?ds = "decimal n"
  have len: "0 < length ?ds" "length ?ds \<le> 20"
    using decimal_length [of n 20] n by simp_all
  have "length (slice_at buf (unat m) (length ?ds)) = length ?ds" using s by simp
  then have room: "unat m + length ?ds \<le> length buf"
    using len(1) unfolding slice_at_def length_take length_drop by linarith
  then have first: "\<not> length buf \<le> unat m" using len(1) by linarith
  have "hd (slice_at buf (unat m) (length ?ds)) = buf ! unat m"
    using len(1) first by (simp add: slice_at_def hd_drop_conv_nth)
  with s have hd: "buf ! unat m = hd ?ds" by simp
  show ?thesis
  proof (cases "n = 0")
    case True
    with first hd show ?thesis by (simp add: SET_INTEGER_def decimal_0)
  next
    case False
    then have "hd ?ds \<noteq> 48" using decimal_hd [of n] by (auto simp: digit19_def)
    moreover have l: "unat (MARK_LEN m p) = length ?ds" using mark_len [OF p(1)] p(2) by simp
    moreover have "\<not> of_nat NUM_BUF_MAX < MARK_LEN m p"
      using l len(2) by (simp add: word_less_nat_alt)
    moreover have "ucast (of_nat n :: size_t) = (of_nat n :: 'd word)"
      using n by (metis of_nat_unat unat_of_nat_size)
    ultimately show ?thesis
      using first hd room s n nz False
      by (simp add: SET_INTEGER_def Let_def strtoul_decimal not_less)
  qed
qed

lemma steps_stay:
  "mt_cs ctx = st \<Longrightarrow> \<forall>x \<in> set xs. trans st x = Some (st, []) \<Longrightarrow> steps buf p xs ctx = Some ctx"
  by (induction xs arbitrary: p) (auto simp: same_cs)

text \<open>A number and the character behind it.\<close>

lemma steps_number:
  assumes n: "n < 2 ^ 64" and s: "slice_at buf p (length (decimal n)) = decimal n"
    and p: "p + length (decimal n) < 2 ^ 32"
    and nz: "n \<noteq> 0 \<Longrightarrow> (of_nat n :: 'd::len word) \<noteq> 0"
    and first: "trans (mt_cs ctx) (hd (decimal n)) = Some (st, [mark])"
    and stay: "\<And>d. n \<noteq> 0 \<Longrightarrow> digit d \<Longrightarrow> trans st d = Some (st, [])"
    and "end": "trans st e = Some (t, [act])" and pure: "\<not> is_do mark" "\<not> is_do act"
    and mark: "parse_action buf p mark (ctx\<lparr>mt_cs := st\<rparr>) = Ok c1" "mt_cs c1 = st"
    and act: "\<And>q. parse_action buf q act (c1\<lparr>mt_cs := t\<rparr>) = SET_INTEGER put m q buf (c1\<lparr>mt_cs := t\<rparr>)"
    and m: "unat m = p"
  shows "steps buf p (decimal n @ [e]) ctx = Some (put (of_nat n :: 'd word) (c1\<lparr>mt_cs := t\<rparr>))"
proof -
  obtain x xs where ds: "decimal n = x # xs" by (cases "decimal n") auto
  let ?q = "p + length (decimal n)"
  have "\<forall>d \<in> set xs. trans st d = Some (st, [])"
  proof (cases "n = 0")
    case True
    with ds show ?thesis by (simp add: decimal_0)
  next
    case False
    with stay decimal_digits [of n] ds show ?thesis by (simp add: list_all_iff)
  qed
  then have "steps buf (p + 1) xs c1 = Some c1" using mark(2) by (intro steps_stay)
  then have "steps buf p (decimal n) ctx = Some c1"
    using first mark(1) pure(1) by (simp add: ds)
  moreover have "SET_INTEGER put m ?q buf (c1\<lparr>mt_cs := t\<rparr>) = Ok (put (of_nat n) (c1\<lparr>mt_cs := t\<rparr>))"
    using n s p nz m by (intro set_integer_decimal) simp_all
  ultimately show ?thesis
    using steps_then [of buf p "decimal n" ctx c1 "[e]"] "end" pure(2) mark(2) act [of ?q] by simp
qed

lemma digit19_cases: "digit19 c \<Longrightarrow> digit c \<and> c \<noteq> 48 \<and> c \<noteq> 110 \<and> c \<noteq> SP \<and> c \<noteq> CR"
  by (auto simp: digit19_def digit_def SP_def CR_def word_le_nat_alt)

lemma not_digit [simp]: "\<not> digit SP" "\<not> digit CR" "\<not> digit19 48" "digit 48"
  by (simp_all add: digit_def digit19_def SP_def CR_def)

lemma trans_number0_decimal:
  "trans_number0 z nn mark k (hd (decimal n)) = Some (if n = 0 then z k else nn k, [mark])"
  using decimal_hd [of n] digit19_cases by (auto simp: trans_number0_def decimal_0)

lemma of_nat_nonzero: "n < 2 ^ 64 \<Longrightarrow> n \<noteq> 0 \<Longrightarrow> (of_nat n :: size_t) \<noteq> 0"
  using unat_of_nat_size [of n] by auto

lemma mark_unat: "p + k < 2 ^ 32 \<Longrightarrow> unat (of_nat p :: size_t) = p"
  by (rule unat_of_nat_size) simp

lemma steps_flags:
  assumes "mt_cs ctx = S_flags0 k" and "n < 2 ^ 64"
    and "slice_at buf p (length (decimal n)) = decimal n" and "p + length (decimal n) < 2 ^ 32"
    and "trans (S_flags_z k) e = Some (t, [A_flags]) \<and> trans (S_flags_n k) e = Some (t, [A_flags])"
  shows "steps buf p (decimal n @ [e]) ctx = Some (ctx\<lparr>mt_cs := t, mt_flags := of_nat n\<rparr>)"
proof -
  let ?st = "if n = 0 then S_flags_z k else S_flags_n k"
  have "steps buf p (decimal n @ [e]) ctx =
      Some ((\<lambda>v c. c\<lparr>mt_flags := v\<rparr>) (of_nat n) ((ctx\<lparr>mt_cs := ?st, mt_flags := of_nat p\<rparr>)\<lparr>mt_cs := t\<rparr>))"
    by (rule steps_number [where mark = A_mark_flags and act = A_flags and m = "of_nat p"])
      (use assms mark_unat [OF assms(4)] of_nat_nonzero [OF assms(2)] digit19_cases [OF decimal_hd [of n]] in
        \<open>auto simp: trans_number0_decimal trans_number_def is_do_def\<close>)
  then show ?thesis by (cases ctx) simp
qed

lemma steps_exptime:
  assumes "mt_cs ctx = S_exp0 k" and "n < 2 ^ 64" and "n = 0 \<or> (of_nat n :: uint32_t) \<noteq> 0"
    and "slice_at buf p (length (decimal n)) = decimal n" and "p + length (decimal n) < 2 ^ 32"
    and "trans (S_exp_z k) e = Some (t, [A_exptime]) \<and> trans (S_exp_n k) e = Some (t, [A_exptime])"
  shows "steps buf p (decimal n @ [e]) ctx = Some (ctx\<lparr>mt_cs := t, mt_exptime := of_nat n\<rparr>)"
proof -
  let ?st = "if n = 0 then S_exp_z k else S_exp_n k"
  have "unat (of_nat p :: uint32_t) = p" using assms(5) by (intro unat_of_nat_32) simp
  moreover have "hd (decimal n) \<noteq> 110"
    using digit19_cases [OF decimal_hd [of n]] by (cases "n = 0") (auto simp: decimal_0)
  ultimately have "steps buf p (decimal n @ [e]) ctx =
      Some ((\<lambda>v c. c\<lparr>mt_exptime := v\<rparr>) (of_nat n) ((ctx\<lparr>mt_cs := ?st, mt_exptime := of_nat p\<rparr>)\<lparr>mt_cs := t\<rparr>))"
    by (intro steps_number [where mark = A_mark_exptime and act = A_exptime
          and m = "ucast (of_nat p :: uint32_t)"])
      (use assms in \<open>auto simp: trans_number0_decimal trans_number_def is_do_def\<close>)
  then show ?thesis by (cases ctx) simp
qed

lemma steps_bytes:
  assumes "mt_cs ctx = S_bytes0 k" and "n < 2 ^ 64" and "0 < n"
    and "slice_at buf p (length (decimal n)) = decimal n" and "p + length (decimal n) < 2 ^ 32"
    and "trans (S_bytes_n k) e = Some (t, [A_bytes])"
  shows "steps buf p (decimal n @ [e]) ctx = Some (ctx\<lparr>mt_cs := t, mt_bytes := of_nat n\<rparr>)"
proof -
  have "steps buf p (decimal n @ [e]) ctx =
      Some ((\<lambda>v c. c\<lparr>mt_bytes := v\<rparr>) (of_nat n) ((ctx\<lparr>mt_cs := S_bytes_n k, mt_bytes := of_nat p\<rparr>)\<lparr>mt_cs := t\<rparr>))"
    by (rule steps_number [where mark = A_mark_bytes and act = A_bytes and m = "of_nat p"])
      (use assms mark_unat [OF assms(5)] of_nat_nonzero [OF assms(2)] decimal_hd [OF assms(3)] in
        \<open>auto simp: trans_number_def is_do_def\<close>)
  then show ?thesis by (cases ctx) simp
qed

lemma steps_uniq:
  assumes "mt_cs ctx = S_uniq0 k" and "n < 2 ^ 64"
    and "slice_at buf p (length (decimal n)) = decimal n" and "p + length (decimal n) < 2 ^ 32"
    and "trans (S_uniq_z k) e = Some (t, [A_cas_unique]) \<and> trans (S_uniq_n k) e = Some (t, [A_cas_unique])"
  shows "steps buf p (decimal n @ [e]) ctx = Some (ctx\<lparr>mt_cs := t, mt_cas_unique := of_nat n\<rparr>)"
proof -
  let ?st = "if n = 0 then S_uniq_z k else S_uniq_n k"
  have "steps buf p (decimal n @ [e]) ctx =
      Some ((\<lambda>v c. c\<lparr>mt_cas_unique := v\<rparr>) (of_nat n) ((ctx\<lparr>mt_cs := ?st, mt_cas_unique := of_nat p\<rparr>)\<lparr>mt_cs := t\<rparr>))"
    by (rule steps_number [where mark = A_mark_cas_unique and act = A_cas_unique and m = "of_nat p"])
      (use assms mark_unat [OF assms(4)] of_nat_nonzero [OF assms(2)] digit19_cases [OF decimal_hd [of n]] in
        \<open>auto simp: trans_number0_decimal trans_number_def is_do_def\<close>)
  then show ?thesis by (cases ctx) simp
qed

section \<open>Data blocks\<close>

text \<open>The block is counted down from its declared length; its last byte returns to the command.\<close>

lemma steps_data:
  assumes "xs \<noteq> []" and "p + length xs < 2 ^ 32" and "mt_cs ctx = S_data" and "mt_top ctx = 1"
    and "mt_stack ctx = [st]" and "mt_data_count ctx = of_nat (length xs)"
  shows "steps buf p xs ctx = Some (ctx\<lparr>mt_data_count := 0,
      mt_data_len := MARK_LEN (mt_data_pos ctx) (p + length xs), mt_top := 0, mt_cs := st\<rparr>)"
  using assms
proof (induction xs arbitrary: p ctx)
  case Nil
  then show ?case by simp
next
  case (Cons x xs)
  have count: "mt_data_count ctx - 1 = of_nat (length xs)" using Cons.prems(6) by simp
  show ?case
  proof (cases "xs = []")
    case True
    with Cons.prems count show ?thesis by (cases ctx) (simp add: is_do_def)
  next
    case False
    then have nz: "(of_nat (length xs) :: size_t) \<noteq> 0"
      using Cons.prems(2) by (intro of_nat_nonzero) simp_all
    let ?c = "ctx\<lparr>mt_data_count := of_nat (length xs)\<rparr>"
    have "steps buf p (x # xs) ctx = steps buf (p + 1) xs ?c"
      using Cons.prems(3) count nz by (cases ctx) (simp add: is_do_def)
    also have "\<dots> = Some (?c\<lparr>mt_data_count := 0,
        mt_data_len := MARK_LEN (mt_data_pos ?c) (p + 1 + length xs), mt_top := 0, mt_cs := st\<rparr>)"
      by (rule Cons.IH [OF False]) (use Cons.prems in simp_all)
    finally show ?thesis by simp
  qed
qed

text \<open>From the end of the line to the end of the block.\<close>

lemma steps_block:
  assumes "mt_cs ctx = S_hdr_cr k" and "mt_top ctx = 0" and "length (mt_stack ctx) = 1"
    and "mt_bytes ctx = of_nat (length d)" and "d \<noteq> []" and "p + length d + 2 < 2 ^ 32"
  shows "\<exists>c. steps buf p (LF # d @ [CR]) ctx = Some c \<and> mt_cs c = S_body_cr k
     \<and> mt_data_pos c = of_nat (p + 1) \<and> mt_data_len c = of_nat (length d)
     \<and> same_call c ctx \<and> mt_key_pos c = mt_key_pos ctx \<and> mt_key_len c = mt_key_len ctx
     \<and> mt_flags c = mt_flags ctx \<and> mt_exptime c = mt_exptime ctx \<and> mt_noreply c = mt_noreply ctx
     \<and> mt_cas_unique c = mt_cas_unique ctx"
proof -
  obtain s0 where "mt_stack ctx = [s0]" using assms(3) by (auto simp: length_Suc_conv)
  define c0 where "c0 = ctx\<lparr>mt_data_pos := of_nat (p + 1), mt_data_count := of_nat (length d),
      mt_stack := [S_body k], mt_top := 1, mt_cs := S_data\<rparr>"
  define c1 where "c1 = c0\<lparr>mt_data_count := 0,
      mt_data_len := MARK_LEN (mt_data_pos c0) (p + 1 + length d), mt_top := 0, mt_cs := S_body k\<rparr>"
  have "steps buf p ([LF] @ (d @ [CR])) ctx = steps buf (p + length [LF]) (d @ [CR]) c0"
    using assms \<open>mt_stack ctx = [s0]\<close>
    by (intro steps_then) (simp add: is_do_def c0_def)
  also have "steps buf (p + length [LF]) d c0 = Some c1"
    using assms steps_data [of d "p + 1" c0 "S_body k" buf] by (simp add: c1_def c0_def)
  then have "steps buf (p + length [LF]) (d @ [CR]) c0 = Some (c1\<lparr>mt_cs := S_body_cr k\<rparr>)"
    by (subst steps_then) (auto simp: c1_def)
  finally have "steps buf p (LF # d @ [CR]) ctx = Some (c1\<lparr>mt_cs := S_body_cr k\<rparr>)" by simp
  moreover have "MARK_LEN (of_nat (p + 1)) (p + 1 + length d) = of_nat (length d)"
    by (simp add: MARK_LEN_def)
  ultimately show ?thesis by (simp add: c1_def c0_def same_call_def)
qed

section \<open>Storage commands\<close>

lemma slice_sub:
  assumes "slice_at buf p (length t) = t" and "t = xs @ ys @ zs"
  shows "slice_at buf (p + length xs) (length ys) = ys"
  using assms slice_at_parts [of buf p xs "ys @ zs"] slice_at_parts [of buf "p + length xs" ys zs]
  by simp

lemma steps_key:
  assumes "mt_cs ctx = S_key0 kd" and "key_text k" and "mt_keys ctx = 0"
    and "length (mt_key_pos ctx) = 256" and "length (mt_key_len ctx) = 256"
  shows "steps buf p (k @ [SP]) ctx = Some (ctx\<lparr>mt_cs := after_key kd,
      mt_key_pos := (mt_key_pos ctx)[0 := of_nat p],
      mt_key_len := (mt_key_len ctx)[0 := of_nat (length k)]\<rparr>)"
proof -
  obtain x xs where k: "k = x # xs" "key_char x" "list_all key_char xs"
    using assms(2) by (cases k) (auto simp: key_text_def)
  define c where "c = ctx\<lparr>mt_cs := S_key kd, mt_key_pos := (mt_key_pos ctx)[0 := of_nat p]\<rparr>"
  have "steps buf p k ctx = steps buf (p + 1) xs c"
    using assms k by (simp add: c_def is_do_def)
  also have "\<dots> = Some c"
    by (rule steps_key_chars [of _ kd]) (simp_all add: c_def k)
  finally show ?thesis
    using assms by (subst steps_then) (auto simp: c_def is_do_def MARK_LEN_def)
qed

definition line_text :: "bool \<Rightarrow> byte list" where
  "line_text nr = (if nr then SP # bytes_of ''noreply'' @ [CR] else [CR])"

lemma steps_noreply:
  assumes "mt_cs ctx = S_opt k"
  shows "steps buf p (bytes_of ''noreply'' @ [CR]) ctx = Some (ctx\<lparr>mt_cs := line_end k, mt_noreply := True\<rparr>)"
  using assms by (cases ctx; cases k) (simp_all add: is_do_def SP_def CR_def)

lemma steps_number_line:
  assumes "steps buf p (xs @ [SP]) ctx = Some (c\<lparr>mt_cs := S_opt k\<rparr>)"
    and "steps buf p (xs @ [CR]) ctx = Some (c\<lparr>mt_cs := line_end k\<rparr>)"
  shows "steps buf p (xs @ line_text nr) ctx =
    Some (c\<lparr>mt_cs := line_end k, mt_noreply := nr \<or> mt_noreply c\<rparr>)"
proof (cases nr)
  case True
  have "steps buf p ((xs @ [SP]) @ bytes_of ''noreply'' @ [CR]) ctx =
      Some (c\<lparr>mt_cs := S_opt k, mt_cs := line_end k, mt_noreply := True\<rparr>)"
    using steps_noreply [of "c\<lparr>mt_cs := S_opt k\<rparr>" k] by (subst steps_then [OF assms(1)]) simp
  with True show ?thesis by (simp add: line_text_def)
next
  case False
  have "c\<lparr>mt_cs := line_end k, mt_noreply := mt_noreply c\<rparr> = c\<lparr>mt_cs := line_end k\<rparr>"
    by (cases c) simp
  with False assms(2) show ?thesis by (simp add: line_text_def)
qed

definition storage_head :: "byte list \<Rightarrow> byte list \<Rightarrow> nat \<Rightarrow> nat \<Rightarrow> byte list" where
  "storage_head v k f e = v @ [SP] @ k @ [SP] @ decimal f @ [SP] @ decimal e @ [SP]"

lemma steps_storage_head:
  fixes ctx :: "('u, 'w) memtext_parser"
  assumes v: "(v, cmd) \<in> set command_words" "kind_of cmd \<in> {Storage, Cas}"
    and inv: "mt_inv p ctx" "mt_cs ctx \<in> {S_start, S_final}"
    and k: "key_text k" and f: "f < 2 ^ 64"
    and e: "e < 2 ^ 64" "e = 0 \<or> (of_nat e :: uint32_t) \<noteq> 0"
    and s: "slice_at buf p (length (storage_head v k f e)) = storage_head v k f e"
    and p: "p + length (storage_head v k f e) < 2 ^ 32"
  shows "steps buf p (storage_head v k f e) ctx = Some ((started cmd ctx)\<lparr>
      mt_cs := S_bytes0 (kind_of cmd),
      mt_key_pos := (mt_key_pos ctx)[0 := of_nat (p + length v + 1)],
      mt_key_len := (mt_key_len ctx)[0 := of_nat (length k)],
      mt_flags := of_nat f, mt_exptime := of_nat e\<rparr>)"
proof -
  let ?k = "kind_of cmd"
  let ?p1 = "p + length (v @ [SP])" let ?p2 = "?p1 + length (k @ [SP])"
  let ?p3 = "?p2 + length (decimal f @ [SP])"
  define c1 where "c1 = (started cmd ctx)\<lparr>mt_cs := S_flags0 ?k,
      mt_key_pos := (mt_key_pos ctx)[0 := of_nat ?p1], mt_key_len := (mt_key_len ctx)[0 := of_nat (length k)]\<rparr>"
  define c2 where "c2 = c1\<lparr>mt_cs := S_exp0 ?k, mt_flags := of_nat f\<rparr>"
  have ak: "after_key ?k = S_flags0 ?k" using v(2) by auto
  have sl: "slice_at buf ?p2 (length (decimal f)) = decimal f"
    "slice_at buf ?p3 (length (decimal e)) = decimal e"
    using slice_sub [OF s, of "v @ [SP] @ k @ [SP]" "decimal f"]
      slice_sub [OF s, of "v @ [SP] @ k @ [SP] @ decimal f @ [SP]" "decimal e"]
    by (simp_all add: storage_head_def add.assoc)
  have "steps buf p ((v @ [SP]) @ (k @ [SP]) @ (decimal f @ [SP]) @ (decimal e @ [SP])) ctx =
      steps buf ?p1 ((k @ [SP]) @ (decimal f @ [SP]) @ (decimal e @ [SP])) (started cmd ctx)"
    by (rule steps_then [OF steps_word [OF v(1) inv(2)]])
  also have "\<dots> = steps buf ?p2 ((decimal f @ [SP]) @ (decimal e @ [SP])) c1"
    using k inv(1) ak
    by (intro steps_then) (subst steps_key, auto simp: started_def c1_def mt_inv_def)
  also have "\<dots> = steps buf ?p3 (decimal e @ [SP]) c2"
    using f sl(1) p unfolding c2_def
    by (intro steps_then steps_flags [where k = ?k]) (auto simp: c1_def storage_head_def trans_number_def)
  also have "\<dots> = Some (c2\<lparr>mt_cs := S_bytes0 ?k, mt_exptime := of_nat e\<rparr>)"
    using e sl(2) p v(2)
    by (intro steps_exptime [where k = ?k]) (auto simp: c2_def storage_head_def trans_number_def)
  finally show ?thesis by (simp add: storage_head_def c2_def c1_def add.assoc)
qed

text \<open>The text of the storage commands and of \<open>cas\<close>.\<close>

definition storage_text ::
    "byte list \<Rightarrow> byte list \<Rightarrow> nat \<Rightarrow> nat \<Rightarrow> byte list \<Rightarrow> bool \<Rightarrow> byte list" where
  "storage_text v k f e d nr =
    storage_head v k f e @ decimal (length d) @ line_text nr @ (LF # d @ [CR]) @ [LF]"

definition cas_text ::
    "byte list \<Rightarrow> nat \<Rightarrow> nat \<Rightarrow> byte list \<Rightarrow> nat \<Rightarrow> bool \<Rightarrow> byte list" where
  "cas_text k f e d u nr =
    storage_head (bytes_of ''cas'') k f e @ decimal (length d) @ [SP] @ decimal u
      @ line_text nr @ (LF # d @ [CR]) @ [LF]"

lemma kind_Storage_Cas [simp]: "line_end Storage = S_hdr_cr Storage" "line_end Cas = S_hdr_cr Cas"
  by simp_all

text \<open>The end of a command with a data block.\<close>

lemma complete_block:
  fixes ctx :: "('u, 'w) memtext_parser"
  assumes head: "steps buf off h ctx = Some c0" "mt_cs c0 = S_hdr_cr k" "k = Storage \<or> k = Cas"
    and s: "slice_at buf off (length (h @ (LF # d @ [CR]) @ [LF])) = h @ (LF # d @ [CR]) @ [LF]"
    and inv: "mt_top c0 = 0" "length (mt_stack c0) = 1"
    and d: "mt_bytes c0 = of_nat (length d)" "d \<noteq> []" and buf: "length buf < 2 ^ 32"
    and call: "mt_command c0 = cmd" "mt_callback c0 = mt_callback ctx" "mt_user c0 = mt_user ctx"
  shows "completes buf off (h @ (LF # d @ [CR]) @ [LF]) ctx cmd (\<lambda>base req. \<exists>c :: ('u, 'w) memtext_parser. req = request_of base (do_command k) c
     \<and> mt_data_pos c = of_nat (off + length h + 1) \<and> mt_data_len c = of_nat (length d)
     \<and> mt_key_pos c = mt_key_pos c0 \<and> mt_key_len c = mt_key_len c0
     \<and> mt_flags c = mt_flags c0 \<and> mt_exptime c = mt_exptime c0 \<and> mt_noreply c = mt_noreply c0
     \<and> mt_cas_unique c = mt_cas_unique c0)"
proof -
  let ?b = "LF # d @ [CR]"
  let ?q = "off + length h" let ?r = "off + length (h @ ?b)"
  have "slice_at buf ?r 1 = [LF]"
    using slice_sub [OF s, of "h @ ?b" "[LF]"] by (simp add: add.assoc)
  then have "?q + length d + 2 < 2 ^ 32" using buf by (simp add: slice_at_Cons)
  from steps_block [OF head(2) inv d this] obtain c where
    c: "steps buf ?q ?b c0 = Some c" "mt_cs c = S_body_cr k"
      "mt_data_pos c = of_nat (?q + 1)" "mt_data_len c = of_nat (length d)" "same_call c c0"
      "mt_key_pos c = mt_key_pos c0" "mt_key_len c = mt_key_len c0"
      "mt_flags c = mt_flags c0" "mt_exptime c = mt_exptime c0" "mt_noreply c = mt_noreply c0"
      "mt_cas_unique c = mt_cas_unique c0"
    by blast
  have steps: "steps buf off (h @ ?b) ctx = Some c" using steps_then [OF head(1)] c(1) by simp
  let ?c = "c\<lparr>mt_cs := S_final\<rparr>"
  have act: "do_action base p (do_command k) (?c, buf, w) = call_back base (do_command k) (?c, buf, w)" for base p w
    using head(3) by (auto simp: do_action_def is_do_def)
  have "mt_callback ?c = mt_callback ctx" "mt_user ?c = mt_user ctx" "mt_command ?c = cmd"
    using c(5) call by (simp_all add: same_call_def)
  with act have lf: "line_feed buf p k c ctx cmd base ?c" for p base by (simp add: line_feed_def)
  show ?thesis
    unfolding completes_def
  proof (rule exI [of _ "h @ ?b"], rule exI [of _ c], rule exI [of _ k], intro conjI allI)
    fix base
    have "mt_data_pos ?c = of_nat (off + length h + 1) \<and> mt_data_len ?c = of_nat (length d)
        \<and> mt_key_pos ?c = mt_key_pos c0 \<and> mt_key_len ?c = mt_key_len c0
        \<and> mt_flags ?c = mt_flags c0 \<and> mt_exptime ?c = mt_exptime c0 \<and> mt_noreply ?c = mt_noreply c0
        \<and> mt_cas_unique ?c = mt_cas_unique c0"
      using c(3,4,6-11) by simp
    then show "\<exists>c'. line_feed buf (off + length (h @ ?b)) k c ctx cmd base c'
        \<and> (\<exists>c :: ('u, 'w) memtext_parser. request_of base (do_command k) c' = request_of base (do_command k) c
          \<and> mt_data_pos c = of_nat (off + length h + 1) \<and> mt_data_len c = of_nat (length d)
          \<and> mt_key_pos c = mt_key_pos c0 \<and> mt_key_len c = mt_key_len c0
          \<and> mt_flags c = mt_flags c0 \<and> mt_exptime c = mt_exptime c0 \<and> mt_noreply c = mt_noreply c0
          \<and> mt_cas_unique c = mt_cas_unique c0)"
    proof (intro exI [of _ ?c] conjI)
      show "line_feed buf (off + length (h @ ?b)) k c ctx cmd base ?c" by (rule lf)
    qed (rule refl | simp)+
  qed (use steps c(2) in simp_all)
qed

text \<open>What a callback reads through the pointers of its request.\<close>

definition deref :: "size_t \<Rightarrow> byte list \<Rightarrow> size_t \<Rightarrow> size_t \<Rightarrow> byte list" where
  "deref base buf a n = slice_at buf (unat (a - base)) (unat n)"

lemma deref_slice:
  assumes "slice_at buf p (length k) = k" and "p < 2 ^ 64" and "length k < 2 ^ 64"
  shows "deref base buf (base + of_nat p) (of_nat (length k)) = k"
  using assms by (simp add: deref_def unat_of_nat_size)

text \<open>The rest of the line, after the expiration.\<close>

lemma steps_storage_line:
  assumes "mt_cs c = S_bytes0 Storage" and "n < 2 ^ 64" and "0 < n"
    and "slice_at buf p (length (decimal n)) = decimal n" and "p + length (decimal n) < 2 ^ 32"
  shows "steps buf p (decimal n @ line_text nr) c =
    Some (c\<lparr>mt_cs := S_hdr_cr Storage, mt_bytes := of_nat n, mt_cas_unique := mt_cas_unique c,
      mt_noreply := nr \<or> mt_noreply c\<rparr>)"
proof -
  have bytes: "steps buf p (decimal n @ [x]) c = Some (c\<lparr>mt_bytes := of_nat n\<rparr>\<lparr>mt_cs := t\<rparr>)"
    if "trans (S_bytes_n Storage) x = Some (t, [A_bytes])" for x t
    using steps_bytes [OF assms that] by (cases c) simp
  have "steps buf p (decimal n @ line_text nr) c =
      Some (c\<lparr>mt_bytes := of_nat n\<rparr>\<lparr>mt_cs := line_end Storage, mt_noreply := nr \<or> mt_noreply (c\<lparr>mt_bytes := of_nat n\<rparr>)\<rparr>)"
    by (intro steps_number_line bytes) (simp_all add: trans_number_def)
  then show ?thesis by (cases c) simp
qed

lemma steps_cas_line:
  assumes "mt_cs c = S_bytes0 Cas" and "n < 2 ^ 64" and "0 < n" and u: "u < 2 ^ 64"
    and s: "slice_at buf p (length (decimal n @ [SP] @ decimal u)) = decimal n @ [SP] @ decimal u"
    and p: "p + length (decimal n @ [SP] @ decimal u) < 2 ^ 32"
  shows "steps buf p ((decimal n @ [SP]) @ decimal u @ line_text nr) c =
    Some (c\<lparr>mt_cs := S_hdr_cr Cas, mt_bytes := of_nat n, mt_cas_unique := of_nat u, mt_noreply := nr \<or> mt_noreply c\<rparr>)"
proof -
  let ?c2 = "c\<lparr>mt_cs := S_uniq0 Cas, mt_bytes := of_nat n\<rparr>" and ?q = "p + length (decimal n @ [SP])"
  have sl: "slice_at buf p (length (decimal n)) = decimal n" "slice_at buf ?q (length (decimal u)) = decimal u"
    using slice_sub [OF s, of "[]" "decimal n"] slice_sub [OF s, of "decimal n @ [SP]" "decimal u"] by simp_all
  have "steps buf p (decimal n @ [SP]) c = Some ?c2"
    using assms(1-3) sl(1) p by (intro steps_bytes [where k = Cas]) (simp_all add: trans_number_def)
  note first = steps_then [OF this]
  have uniq: "steps buf ?q (decimal u @ [x]) ?c2 = Some (?c2\<lparr>mt_cas_unique := of_nat u\<rparr>\<lparr>mt_cs := t\<rparr>)"
    if "trans (S_uniq_z Cas) x = Some (t, [A_cas_unique]) \<and> trans (S_uniq_n Cas) x = Some (t, [A_cas_unique])"
    for x t
    using steps_uniq [of ?c2 Cas u buf ?q x t] sl(2) u p that by (cases c) simp
  have "steps buf ?q (decimal u @ line_text nr) ?c2 =
      Some (?c2\<lparr>mt_cas_unique := of_nat u\<rparr>\<lparr>mt_cs := line_end Cas,
        mt_noreply := nr \<or> mt_noreply (?c2\<lparr>mt_cas_unique := of_nat u\<rparr>)\<rparr>)"
    by (intro steps_number_line uniq) (simp_all add: trans_number_def)
  with first show ?thesis by (cases c) simp
qed

text \<open>
  A command with a data block, up to its callback: the parser \<open>headed\<close> after the expiration, any
  \<open>rest\<close> of the line that sets the number of bytes, \<open>noreply\<close> and the unique number, and the block.
\<close>

definition headed :: "memtext_command \<Rightarrow> byte list \<Rightarrow> byte list \<Rightarrow> nat \<Rightarrow> nat \<Rightarrow> nat \<Rightarrow>
    ('u, 'w) memtext_parser \<Rightarrow> ('u, 'w) memtext_parser" where
  "headed cmd v k f e off ctx = (started cmd ctx)\<lparr>
      mt_cs := S_bytes0 (kind_of cmd),
      mt_key_pos := (mt_key_pos ctx)[0 := of_nat (off + length v + 1)],
      mt_key_len := (mt_key_len ctx)[0 := of_nat (length k)],
      mt_flags := of_nat f, mt_exptime := of_nat e\<rparr>"

lemma headed_noreply [simp]: "\<not> mt_noreply (headed cmd v k f e off ctx)"
  by (simp add: headed_def started_def)

lemma headed_cs [simp]: "mt_cs (headed cmd v k f e off ctx) = S_bytes0 (kind_of cmd)"
  by (simp add: headed_def)

lemma slice_fits:
  assumes "slice_at buf p (length t) = t" and "t \<noteq> []"
  shows "p + length t \<le> length buf"
proof -
  have "length (slice_at buf p (length t)) = length t" using assms(1) by simp
  then show ?thesis using assms(2) unfolding slice_at_def length_take length_drop
    by (cases t) (simp_all add: min_def split: if_splits)
qed

lemma block_completes:
  fixes ctx :: "('u, 'w) memtext_parser"
  assumes v: "(v, cmd) \<in> set command_words" "kind_of cmd \<in> {Storage, Cas}"
    and inv: "mt_inv off ctx" "mt_cs ctx \<in> {S_start, S_final}"
    and k: "key_text k" and f: "f < 2 ^ 64"
    and e: "e < 2 ^ 64" "e = 0 \<or> (of_nat e :: uint32_t) \<noteq> 0" and d: "d \<noteq> []"
    and t: "t = (storage_head v k f e @ rest) @ (LF # d @ [CR]) @ [LF]"
    and s: "slice_at buf off (length t) = t" and buf: "length buf < 2 ^ 32"
    and rest: "steps buf (off + length (storage_head v k f e)) rest (headed cmd v k f e off ctx) =
      Some ((headed cmd v k f e off ctx)\<lparr>mt_cs := S_hdr_cr (kind_of cmd), mt_bytes := of_nat (length d),
        mt_cas_unique := u, mt_noreply := nr\<rparr>)"
  shows "completes buf off t ctx cmd (\<lambda>base req. \<exists>c :: ('u, 'w) memtext_parser. req = request_of base (do_command (kind_of cmd)) c
     \<and> deref base buf (base + mt_key_pos c ! 0) (mt_key_len c ! 0) = k
     \<and> deref base buf (base + mt_data_pos c) (mt_data_len c) = d
     \<and> ucast (mt_flags c) = (of_nat f :: uint16_t) \<and> mt_exptime c = of_nat e
     \<and> mt_noreply c = nr \<and> mt_cas_unique c = u)"
proof -
  let ?h = "storage_head v k f e"
  let ?H = "?h @ rest" and ?c1 = "headed cmd v k f e off ctx"
  let ?c3 = "?c1\<lparr>mt_cs := S_hdr_cr (kind_of cmd), mt_bytes := of_nat (length d), mt_cas_unique := u, mt_noreply := nr\<rparr>"
  have sl: "slice_at buf off (length ?h) = ?h"
    "slice_at buf (off + length v + 1) (length k) = k" "slice_at buf (off + length ?H + 1) (length d) = d"
    using slice_sub [OF s, of "[]" ?h] slice_sub [OF s, of "v @ [SP]" k] slice_sub [OF s, of "?H @ [LF]" d]
    by (simp_all add: t storage_head_def add.assoc)
  have "off + length t < 2 ^ 32" using slice_fits [OF s] buf t by simp
  then have small: "off + length ?h < 2 ^ 32" "length d < 2 ^ 64" "length k < 2 ^ 64"
    "off + length v + 1 < 2 ^ 64" "off + length ?H + 1 < 2 ^ 64"
    by (simp_all add: t storage_head_def)
  have "steps buf off ?h ctx = Some ?c1"
    unfolding headed_def by (rule steps_storage_head [OF v inv k f e sl(1) small(1)])
  then have H: "steps buf off ?H ctx = Some ?c3" by (simp add: steps_then rest)
  have c3: "mt_cs ?c3 = S_hdr_cr (kind_of cmd)" "kind_of cmd = Storage \<or> kind_of cmd = Cas"
    "mt_top ?c3 = 0" "length (mt_stack ?c3) = 1" "mt_bytes ?c3 = of_nat (length d)"
    "mt_command ?c3 = cmd" "mt_callback ?c3 = mt_callback ctx" "mt_user ?c3 = mt_user ctx"
    using inv v(2) by (auto simp: headed_def started_def mt_inv_def)
  have kp: "length (mt_key_pos ctx) = 256" "length (mt_key_len ctx) = 256"
    using inv(1) by (simp_all add: mt_inv_def)
  have "ucast (of_nat f :: size_t) = (of_nat f :: uint16_t)" using f by (metis of_nat_unat unat_of_nat_size)
  moreover have "deref base buf (base + of_nat (off + length v + 1)) (of_nat (length k)) = k" for base
    by (rule deref_slice [OF sl(2) small(4,3)])
  moreover have "deref base buf (base + of_nat (off + length ?H + 1)) (of_nat (length d)) = d" for base
    by (rule deref_slice [OF sl(3) small(5,2)])
  ultimately show ?thesis
    unfolding t
    by (intro completes_weaken [OF complete_block [OF H c3(1,2) s [unfolded t] c3(3-5) d buf c3(6-8)]])
      (auto simp: headed_def kp)
qed

text \<open>A storage command and a \<open>cas\<close>.\<close>

lemma storage_completes:
  fixes ctx :: "('u, 'w) memtext_parser"
  assumes v: "(v, cmd) \<in> set command_words" "kind_of cmd = Storage"
    and inv: "mt_inv off ctx" "mt_cs ctx \<in> {S_start, S_final}"
    and k: "key_text k" and f: "f < 2 ^ 64"
    and e: "e < 2 ^ 64" "e = 0 \<or> (of_nat e :: uint32_t) \<noteq> 0" and d: "d \<noteq> []"
    and s: "slice_at buf off (length (storage_text v k f e d nr)) = storage_text v k f e d nr"
    and buf: "length buf < 2 ^ 32"
  shows "completes buf off (storage_text v k f e d nr) ctx cmd (\<lambda>base req. \<exists>r. req = Req_storage r
     \<and> deref base buf (rs_key r) (rs_key_len r) = k \<and> deref base buf (rs_data r) (rs_data_len r) = d
     \<and> rs_flags r = of_nat f \<and> rs_exptime r = of_nat e \<and> rs_noreply r = nr)"
proof -
  let ?h = "storage_head v k f e" and ?n = "decimal (length d)" and ?c = "headed cmd v k f e off ctx"
  have t: "storage_text v k f e d nr = (?h @ ?n @ line_text nr) @ (LF # d @ [CR]) @ [LF]"
    by (simp add: storage_text_def)
  have n: "slice_at buf (off + length ?h) (length ?n) = ?n"
    using slice_sub [OF s, of ?h ?n] by (simp add: t)
  have "off + length (storage_text v k f e d nr) < 2 ^ 32" using slice_fits [OF s] buf by (simp add: t)
  then have small: "off + length ?h + length ?n < 2 ^ 32" "length d < 2 ^ 64" by (simp_all add: t)
  have "steps buf (off + length ?h) (?n @ line_text nr) ?c = Some (?c\<lparr>mt_cs := S_hdr_cr (kind_of cmd),
      mt_bytes := of_nat (length d), mt_cas_unique := mt_cas_unique ?c, mt_noreply := nr\<rparr>)"
    using steps_storage_line [OF _ small(2) _ n small(1), of ?c nr] v(2) d by simp
  note block = block_completes [OF v(1) _ inv k f e d t s buf this]
  show ?thesis
    by (rule completes_weaken [OF block]) (simp add: v(2), elim exE conjE, hypsubst, simp add: v(2))
qed

lemma storage_delivers:
  fixes ctx :: "('u, 'w) memtext_parser"
  assumes v: "(v, cmd) \<in> set command_words" "kind_of cmd = Storage"
    and inv: "mt_inv off ctx" "mt_cs ctx \<in> {S_start, S_final}"
    and k: "key_text k" and f: "f < 2 ^ 64"
    and e: "e < 2 ^ 64" "e = 0 \<or> (of_nat e :: uint32_t) \<noteq> 0" and d: "d \<noteq> []"
    and s: "slice_at buf off (length (storage_text v k f e d nr)) = storage_text v k f e d nr"
    and buf: "length buf < 2 ^ 32"
  shows "\<exists>req c. delivers base off (off + length (storage_text v k f e d nr)) ctx buf w cmd (Req_storage req) c
     \<and> deref base buf (rs_key req) (rs_key_len req) = k
     \<and> deref base buf (rs_data req) (rs_data_len req) = d
     \<and> rs_flags req = of_nat f \<and> rs_exptime req = of_nat e \<and> rs_noreply req = nr"
  using completes_delivers [OF storage_completes [OF assms] s, of base w] by blast

lemma cas_completes:
  fixes ctx :: "('u, 'w) memtext_parser"
  assumes inv: "mt_inv off ctx" "mt_cs ctx \<in> {S_start, S_final}"
    and k: "key_text k" and f: "f < 2 ^ 64" and u: "u < 2 ^ 64"
    and e: "e < 2 ^ 64" "e = 0 \<or> (of_nat e :: uint32_t) \<noteq> 0" and d: "d \<noteq> []"
    and s: "slice_at buf off (length (cas_text k f e d u nr)) = cas_text k f e d u nr"
    and buf: "length buf < 2 ^ 32"
  shows "completes buf off (cas_text k f e d u nr) ctx MEMTEXT_CMD_CAS (\<lambda>base req. \<exists>r. req = Req_cas r
     \<and> deref base buf (rc_key r) (rc_key_len r) = k \<and> deref base buf (rc_data r) (rc_data_len r) = d
     \<and> rc_flags r = of_nat f \<and> rc_exptime r = of_nat e \<and> rc_noreply r = (u \<noteq> 0)
     \<and> rc_cas_unique r = (if nr then 1 else 0))"
proof -
  let ?v = "bytes_of ''cas''"
  let ?h = "storage_head ?v k f e" and ?n = "decimal (length d)" and ?c = "headed MEMTEXT_CMD_CAS ?v k f e off ctx"
  have t: "cas_text k f e d u nr =
      (?h @ (?n @ [SP]) @ decimal u @ line_text nr) @ (LF # d @ [CR]) @ [LF]" by (simp add: cas_text_def)
  have n: "slice_at buf (off + length ?h) (length (?n @ [SP] @ decimal u)) = ?n @ [SP] @ decimal u"
    by (rule slice_sub [OF s]) (simp add: t)
  have "off + length (cas_text k f e d u nr) < 2 ^ 32" using slice_fits [OF s] buf by (simp add: t)
  then have small: "off + length ?h + length (?n @ [SP] @ decimal u) < 2 ^ 32" "length d < 2 ^ 64" by (simp_all add: t)
  have v: "(?v, MEMTEXT_CMD_CAS) \<in> set command_words" "kind_of MEMTEXT_CMD_CAS \<in> {Storage, Cas}"
    by (simp_all add: command_words_def)
  have "steps buf (off + length ?h) ((?n @ [SP]) @ decimal u @ line_text nr) ?c = Some (?c\<lparr>
      mt_cs := S_hdr_cr (kind_of MEMTEXT_CMD_CAS),
      mt_bytes := of_nat (length d), mt_cas_unique := of_nat u, mt_noreply := nr\<rparr>)"
    using steps_cas_line [OF _ small(2) _ u n small(1), of ?c nr] d by simp
  note block = block_completes [OF v inv k f e d t s buf this]
  have u0: "x \<noteq> 0 \<longleftrightarrow> 0 < u" if "x = of_nat u" for x :: uint64_t
    using of_nat_nonzero [OF u] that by (cases "u = 0") auto
  show ?thesis
    by (rule completes_weaken [OF block], elim exE conjE, hypsubst) (simp add: u0)
qed

text \<open>
  C20. A storage command delivers its data: for \<open>set\<close>, \<open>add\<close>, \<open>replace\<close>, \<open>append\<close> and \<open>prepend\<close> with a
  key, decimal flags and expiration, a non-empty block of any bytes (line ends included) and an
  optional \<open>noreply\<close>, one call invokes the callback of that command once, with a request whose key
  and data pointers read back the key and the block, whose expiration is the number modulo 2^32,
  whose \<open>noreply\<close> is as sent, and whose flags are the number modulo 2^16.
\<close>

theorem memtext_storage_delivers:
  fixes ctx :: "('u, 'w) memtext_parser"
  assumes v: "(v, cmd) \<in> set command_words" "kind_of cmd = Storage"
    and inv: "mt_inv off ctx" "mt_cs ctx \<in> {S_start, S_final}"
    and k: "key_text k" and f: "f < 2 ^ 64"
    and e: "e < 2 ^ 64" "e = 0 \<or> (of_nat e :: uint32_t) \<noteq> 0" and d: "d \<noteq> []"
    and s: "slice_at buf off (length (storage_text v k f e d nr)) = storage_text v k f e d nr"
    and buf: "length buf < 2 ^ 32"
  shows "\<exists>req c. delivers base off (off + length (storage_text v k f e d nr)) ctx buf w cmd (Req_storage req) c
     \<and> deref base buf (rs_key req) (rs_key_len req) = k
     \<and> deref base buf (rs_data req) (rs_data_len req) = d
     \<and> rs_flags req = of_nat f \<and> rs_exptime req = of_nat e \<and> rs_noreply req = nr"
  by (rule storage_delivers [OF assms])

text \<open>
  What a \<open>cas\<close> command delivers: key, block, flags and expiration as for a storage command, but
  the unique number and \<open>noreply\<close> exchanged. The callback sees \<open>noreply\<close> whenever the number sent
  is not 0, and as the number whether \<open>noreply\<close> was sent, because the initialiser of the request
  lists its last two members in the wrong order.
\<close>

theorem memtext_cas_swapped:
  fixes ctx :: "('u, 'w) memtext_parser"
  assumes inv: "mt_inv off ctx" "mt_cs ctx \<in> {S_start, S_final}"
    and k: "key_text k" and f: "f < 2 ^ 64" and u: "u < 2 ^ 64"
    and e: "e < 2 ^ 64" "e = 0 \<or> (of_nat e :: uint32_t) \<noteq> 0" and d: "d \<noteq> []"
    and s: "slice_at buf off (length (cas_text k f e d u nr)) = cas_text k f e d u nr"
    and buf: "length buf < 2 ^ 32"
  shows "\<exists>req c. delivers base off (off + length (cas_text k f e d u nr)) ctx buf w MEMTEXT_CMD_CAS (Req_cas req) c
     \<and> deref base buf (rc_key req) (rc_key_len req) = k
     \<and> deref base buf (rc_data req) (rc_data_len req) = d
     \<and> rc_flags req = of_nat f \<and> rc_exptime req = of_nat e \<and> rc_noreply req = (u \<noteq> 0)
     \<and> rc_cas_unique req = (if nr then 1 else 0)"
  using completes_delivers [OF cas_completes [OF assms] s, of base w] by blast


section \<open>Concrete requests\<close>

text \<open>Buffers of whole requests, read from offset 0 of a fresh parser.\<close>

lemma fresh: "mt_inv 0 (memtext_init cbs u)" "mt_cs (memtext_init cbs u) \<in> {S_start, S_final}"
  by (rule mt_inv_init) (simp add: memtext_init_def)

lemma slice_text: "slice_at t 0 (length t) = t"
  by simp

theorem memtext_get_delivers_witness:
  "\<exists>req c. request_keys 4096 (retrieval_text (bytes_of ''get'') [bytes_of ''k1'', bytes_of ''k2'']) req
        = [bytes_of ''k1'', bytes_of ''k2'']
     \<and> rr_key_num req = of_nat (length [bytes_of ''k1'', bytes_of ''k2''])
     \<and> delivers 4096 0 (0 + length (retrieval_text (bytes_of ''get'') [bytes_of ''k1'', bytes_of ''k2'']))
         (memtext_init accept_all ()) (retrieval_text (bytes_of ''get'') [bytes_of ''k1'', bytes_of ''k2''])
         [] MEMTEXT_CMD_GET (Req_retrieval req) c"
proof (rule memtext_get_delivers [OF _ _ fresh])
  show "list_all key_text [bytes_of ''k1'', bytes_of ''k2'']" by code_simp
  show "(bytes_of ''get'', MEMTEXT_CMD_GET) \<in> set command_words" by (simp add: command_words_def)
  show "length (retrieval_text (bytes_of ''get'') [bytes_of ''k1'', bytes_of ''k2'']) < 2 ^ 32"
    by (simp add: retrieval_text_def)
qed (rule slice_text | simp)+

theorem memtext_257_keys_overflow_witness:
  "memtext_execute 4096 (memtext_init accept_all (),
      bytes_of ''get'' @ more_keys (replicate 256 [107]) @ [SP, 107], [])
    (length (bytes_of ''get'' @ more_keys (replicate 256 [107]) @ [SP, 107])) 0 = Memory_fault"
proof (rule memtext_257_keys_overflow [OF _ _ fresh])
  show "(bytes_of ''get'', MEMTEXT_CMD_GET) \<in> set command_words" by (simp add: command_words_def)
  show "list_all key_text (replicate 256 [107])"
    by (simp add: list_all_iff key_text_def key_char_def CR_def SP_def LF_def NUL_def)
  show "key_char 107" by code_simp
  have "length (more_keys (replicate n [107])) = 2 * n" for n by (induction n) simp_all
  then show "length (bytes_of ''get'' @ more_keys (replicate 256 [107]) @ [SP, 107]) < 2 ^ 32" by simp
qed (rule slice_text | simp)+

theorem memtext_storage_delivers_witness:
  "\<exists>req c. delivers 4096 0 (0 + length (storage_text (bytes_of ''set'') (bytes_of ''k'') 65537 60 [13, 10] True))
       (memtext_init accept_all ()) (storage_text (bytes_of ''set'') (bytes_of ''k'') 65537 60 [13, 10] True) []
       MEMTEXT_CMD_SET (Req_storage req) c
     \<and> deref 4096 (storage_text (bytes_of ''set'') (bytes_of ''k'') 65537 60 [13, 10] True)
         (rs_key req) (rs_key_len req) = bytes_of ''k''
     \<and> deref 4096 (storage_text (bytes_of ''set'') (bytes_of ''k'') 65537 60 [13, 10] True)
         (rs_data req) (rs_data_len req) = [13, 10]
     \<and> rs_flags req = of_nat 65537 \<and> rs_exptime req = of_nat 60 \<and> rs_noreply req = True"
proof (rule memtext_storage_delivers [OF _ _ fresh])
  show "(bytes_of ''set'', MEMTEXT_CMD_SET) \<in> set command_words" by (simp add: command_words_def)
  show "key_text (bytes_of ''k'')" by code_simp
  show "length (storage_text (bytes_of ''set'') (bytes_of ''k'') 65537 60 [13, 10] True) < 2 ^ 32"
    by (simp add: storage_text_def cas_text_def storage_head_def line_text_def decimal.simps)
qed (rule slice_text | simp)+

theorem memtext_cas_swapped_witness:
  "\<exists>req c. delivers 4096 0 (0 + length (cas_text (bytes_of ''k'') 0 0 [120] 77 False))
       (memtext_init accept_all ()) (cas_text (bytes_of ''k'') 0 0 [120] 77 False) []
       MEMTEXT_CMD_CAS (Req_cas req) c
     \<and> deref 4096 (cas_text (bytes_of ''k'') 0 0 [120] 77 False) (rc_key req) (rc_key_len req) = bytes_of ''k''
     \<and> deref 4096 (cas_text (bytes_of ''k'') 0 0 [120] 77 False) (rc_data req) (rc_data_len req) = [120]
     \<and> rc_flags req = of_nat 0 \<and> rc_exptime req = of_nat 0 \<and> rc_noreply req = ((77 :: nat) \<noteq> 0)
     \<and> rc_cas_unique req = (if False then 1 else 0)"
proof (rule memtext_cas_swapped [OF fresh])
  show "key_text (bytes_of ''k'')" by code_simp
  show "length (cas_text (bytes_of ''k'') 0 0 [120] 77 False) < 2 ^ 32"
    by (simp add: storage_text_def cas_text_def storage_head_def line_text_def decimal.simps)
qed (rule slice_text | simp)+

end
