(* ===== verification/Heap.thy ===== *)
theory Heap
  imports Prelude
begin

text \<open>
  What \<^verbatim>\<open>mp/stream_buffer_impl.h\<close> and \<^verbatim>\<open>mp/shared_buffer_impl.h\<close> have in common: blocks from
  \<open>malloc\<close> whose first \<open>sizeof(count_t)\<close> bytes hold a reference count, and the loop that
  doubles a size until it is large enough. A block is known by its address; a byte no one
  wrote yet is \<open>None\<close>. Addresses are never reused, so a pointer to a freed block stays
  recognisable.
\<close>

section \<open>Outcomes\<close>

text \<open>
  \<open>Throw s\<close> is \<open>std::bad_alloc\<close> with the state \<open>s\<close> it leaves behind, \<open>Fault\<close> an access to
  memory that is not live, \<open>Diverge\<close> a loop that does not end.
\<close>

datatype 's outcome = Done 's | Throw 's | Fault | Diverge

fun and_then :: "'s outcome \<Rightarrow> ('s \<Rightarrow> 's outcome) \<Rightarrow> 's outcome" where
  "and_then (Done s) f = f s"
| "and_then (Throw s) f = Throw s"
| "and_then Fault f = Fault"
| "and_then Diverge f = Diverge"

section \<open>Size arithmetic\<close>

text \<open>\<open>size_t\<close> values as naturals below \<open>2 ^ 64\<close>, with the wrap-around written out.\<close>

definition sz_add :: "nat \<Rightarrow> nat \<Rightarrow> nat" where "sz_add a b = (a + b) mod 2 ^ 64"
definition sz_sub :: "nat \<Rightarrow> nat \<Rightarrow> nat" where "sz_sub a b = (a + 2 ^ 64 - b) mod 2 ^ 64"
definition sz_mul :: "nat \<Rightarrow> nat \<Rightarrow> nat" where "sz_mul a b = (a * b) mod 2 ^ 64"

lemma sz_add_id [simp]: "a + b < 2 ^ 64 \<Longrightarrow> sz_add a b = a + b"
  by (simp add: sz_add_def)

lemma sz_sub_id [simp]: "b \<le> a \<Longrightarrow> a < 2 ^ 64 \<Longrightarrow> sz_sub a b = a - b"
proof -
  assume "b \<le> a" and "a < 2 ^ 64"
  then have "a + 2 ^ 64 - b = (a - b) + 2 ^ 64" and "a - b < 2 ^ 64" by auto
  then show "sz_sub a b = a - b" unfolding sz_sub_def by (simp only: mod_add_self2 mod_less)
qed

lemma sz_mul_id [simp]: "a * b < 2 ^ 64 \<Longrightarrow> sz_mul a b = a * b"
  by (simp add: sz_mul_def)

section \<open>The doubling loop\<close>

text \<open>\<open>while(next_size < need) { next_size *= 2; }\<close>; \<open>None\<close> when the loop does not end.\<close>

partial_function (option) grow :: "nat \<Rightarrow> nat \<Rightarrow> nat option" where
  "grow next_size need =
     (if next_size < need then grow (sz_mul next_size 2) need else Some next_size)"

lemma grow_enough: "need \<le> next_size \<Longrightarrow> grow next_size need = Some next_size"
  by (simp add: grow.simps)

lemma grow_terminates:
  assumes "0 < next_size" and "need \<le> 2 ^ 63" and "next_size < 2 ^ 64"
  shows "\<exists>n. grow next_size need = Some n \<and> need \<le> n \<and> next_size \<le> n \<and> n < 2 ^ 64
    \<and> n \<le> max next_size (2 * need)"
  using assms
proof (induction "need - next_size" arbitrary: next_size rule: less_induct)
  case less
  show ?case
  proof (cases "next_size < need")
    case False
    then show ?thesis using less.prems by (simp add: grow_enough)
  next
    case True
    then have lt: "next_size * 2 < 2 ^ 64" using less.prems by simp
    have "\<exists>n. grow (next_size * 2) need = Some n \<and> need \<le> n \<and> next_size * 2 \<le> n \<and> n < 2 ^ 64
      \<and> n \<le> max (next_size * 2) (2 * need)"
      by (rule less.hyps) (use True less.prems lt in auto)
    then show ?thesis using True lt by (subst grow.simps) auto
  qed
qed

text \<open>Past \<open>2 ^ 63\<close> the doubling wraps to zero and the loop does not end.\<close>

definition power_or_zero :: "nat \<Rightarrow> bool" where
  "power_or_zero n \<longleftrightarrow> n = 0 \<or> (\<exists>k < 64. n = 2 ^ k)"

lemma power_or_zero_double:
  assumes "power_or_zero n"
  shows "power_or_zero (sz_mul n 2)"
proof -
  consider "n = 0" | k where "k < 63" "n = 2 ^ k" | "n = 2 ^ 63"
  proof -
    assume z: "n = 0 \<Longrightarrow> thesis" and l: "\<And>k. k < 63 \<Longrightarrow> n = 2 ^ k \<Longrightarrow> thesis"
      and m: "n = 2 ^ 63 \<Longrightarrow> thesis"
    have "k < 63 \<or> k = 63" if "k < 64" for k :: nat using that by arith
    with assms z l m show thesis unfolding power_or_zero_def by blast
  qed
  then show ?thesis
  proof cases
    case 2
    then have "(2 :: nat) ^ Suc k < 2 ^ 64" by (intro power_strict_increasing) auto
    with 2 have "sz_mul n 2 = 2 ^ Suc k" by (simp add: mult.commute)
    with 2 show ?thesis by (auto simp: power_or_zero_def intro!: exI [of _ "Suc k"])
  qed (simp_all add: power_or_zero_def sz_mul_def)
qed

lemma grow_power_diverges:
  assumes "power_or_zero next_size" and "2 ^ 63 < need"
  shows "grow next_size need = None"
proof (rule ccontr)
  assume "grow next_size need \<noteq> None"
  then obtain r where ret: "grow next_size need = Some r" by blast
  have "power_or_zero next_size \<and> 2 ^ 63 < need \<longrightarrow> False"
  proof (rule grow.raw_induct [where P = "\<lambda>n m r. power_or_zero n \<and> 2 ^ 63 < m \<longrightarrow> False", OF _ ret])
    fix f n m r
    assume IH: "\<And>n m r. f n m = Some r \<Longrightarrow> power_or_zero n \<and> 2 ^ 63 < m \<longrightarrow> False"
      and eq: "(if n < m then f (sz_mul n 2) m else Some n) = Some r"
    show "power_or_zero n \<and> 2 ^ 63 < m \<longrightarrow> False"
    proof
      assume p: "power_or_zero n \<and> 2 ^ 63 < m"
      have "(2 :: nat) ^ k \<le> 2 ^ 63" if "k < 64" for k
        using that by (intro power_increasing) auto
      with p have "n \<le> 2 ^ 63" unfolding power_or_zero_def by force
      with p have "n < m" by linarith
      with eq have "f (sz_mul n 2) m = Some r" by simp
      from IH [OF this] p power_or_zero_double show False by blast
    qed
  qed
  with assms show False by blast
qed

section \<open>Blocks and their reference counts\<close>

type_synonym addr = nat

record block =
  count :: uint32_t
  bytes :: "byte option list"

record heap =
  live :: "addr \<rightharpoonup> block"
  fresh :: addr

text \<open>\<open>sizeof(count_t)\<close>, for \<open>volatile unsigned int\<close>.\<close>

definition sizeof_count :: nat where [simp]: "sizeof_count = 4"

definition heap_ok :: "heap \<Rightarrow> bool" where
  "heap_ok h \<longleftrightarrow> (\<forall>d. fresh h \<le> d \<longrightarrow> live h d = None)"

text \<open>\<open>malloc(n)\<close> for a request the allocator grants; the new bytes hold nothing yet.\<close>

definition heap_malloc :: "heap \<Rightarrow> nat \<Rightarrow> addr \<times> heap" where
  "heap_malloc h n =
     (fresh h,
      \<lparr>live = (live h)(fresh h \<mapsto> \<lparr>count = 0, bytes = replicate n None\<rparr>), fresh = Suc (fresh h)\<rparr>)"

text \<open>
  \<open>realloc(d, n)\<close> for a request that is granted: the old block is gone, its contents and
  count are in a new one.
\<close>

definition heap_realloc :: "heap \<Rightarrow> addr \<Rightarrow> nat \<Rightarrow> (addr \<times> heap) option" where
  "heap_realloc h d n =
     (case live h d of
        None \<Rightarrow> None
      | Some b \<Rightarrow>
          Some (fresh h,
            \<lparr>live = (live h)(d := None, fresh h \<mapsto>
               b\<lparr>bytes := take n (bytes b) @ replicate (n - length (bytes b)) None\<rparr>),
             fresh = Suc (fresh h)\<rparr>))"

definition init_count :: "heap \<Rightarrow> addr \<Rightarrow> heap option" where
  "init_count h d = map_option (\<lambda>b. h\<lparr>live := (live h)(d \<mapsto> b\<lparr>count := 1\<rparr>)\<rparr>) (live h d)"

definition decr_count :: "heap \<Rightarrow> addr \<Rightarrow> heap option" where
  "decr_count h d =
     map_option
       (\<lambda>b. let c = count b - 1 in
            if c = 0 then h\<lparr>live := (live h)(d := None)\<rparr>
            else h\<lparr>live := (live h)(d \<mapsto> b\<lparr>count := c\<rparr>)\<rparr>)
       (live h d)"

definition incr_count :: "heap \<Rightarrow> addr \<Rightarrow> heap option" where
  "incr_count h d =
     map_option (\<lambda>b. h\<lparr>live := (live h)(d \<mapsto> b\<lparr>count := count b + 1\<rparr>)\<rparr>) (live h d)"

definition get_count :: "heap \<Rightarrow> addr \<Rightarrow> uint32_t option" where
  "get_count h d = map_option count (live h d)"

text \<open>\<open>memcpy\<close> of known bytes into a block; \<open>None\<close> when it does not fit a live block.\<close>

definition heap_write :: "heap \<Rightarrow> addr \<Rightarrow> nat \<Rightarrow> byte option list \<Rightarrow> heap option" where
  "heap_write h d i xs =
     (case live h d of
        None \<Rightarrow> None
      | Some b \<Rightarrow>
          if i + length xs \<le> length (bytes b)
          then Some (h\<lparr>live := (live h)(d \<mapsto> b\<lparr>bytes := store_at (bytes b) i xs\<rparr>)\<rparr>)
          else None)"

definition heap_read :: "heap \<Rightarrow> addr \<Rightarrow> nat \<Rightarrow> nat \<Rightarrow> byte option list option" where
  "heap_read h d i n =
     (case live h d of
        None \<Rightarrow> None
      | Some b \<Rightarrow> if i + n \<le> length (bytes b) then Some (slice_at (bytes b) i n) else None)"

text \<open>\<open>std::for_each\<close> over an array of block pointers.\<close>

fun each_incr :: "heap \<Rightarrow> addr list \<Rightarrow> heap option" where
  "each_incr h [] = Some h"
| "each_incr h (d # ds) = (case incr_count h d of None \<Rightarrow> None | Some h' \<Rightarrow> each_incr h' ds)"

fun each_decr :: "heap \<Rightarrow> addr list \<Rightarrow> heap option" where
  "each_decr h [] = Some h"
| "each_decr h (d # ds) = (case decr_count h d of None \<Rightarrow> None | Some h' \<Rightarrow> each_decr h' ds)"

lemma incr_count_count:
  "incr_count h d = Some h' \<Longrightarrow> live h' e =
    (if e = d then map_option (\<lambda>b. b\<lparr>count := count b + 1\<rparr>) (live h d) else live h e)"
  by (auto simp: incr_count_def)

lemma decr_count_other: "decr_count h d = Some h' \<Longrightarrow> e \<noteq> d \<Longrightarrow> live h' e = live h e"
  by (auto simp: decr_count_def Let_def split: if_splits)

lemma decr_count_shared:
  "live h d = Some b \<Longrightarrow> count b \<noteq> 1 \<Longrightarrow>
    decr_count h d = Some (h\<lparr>live := (live h)(d \<mapsto> b\<lparr>count := count b - 1\<rparr>)\<rparr>)"
  by (simp add: decr_count_def)

lemma decr_count_last:
  "live h d = Some b \<Longrightarrow> count b = 1 \<Longrightarrow> decr_count h d = Some (h\<lparr>live := (live h)(d := None)\<rparr>)"
  by (simp add: decr_count_def)

end
