(* ===== verification/Interfaces.thy ===== *)
theory Interfaces
  imports Heap
begin

text \<open>
  The contracts between components, as locales: what a client may call and what the provider
  promises. Each is interpreted on the model's definitions in the theory of its provider.
\<close>

section \<open>A receive buffer\<close>

text \<open>
  What the read loops of the gates ask of \<open>mp::stream_buffer\<close>. \<open>holds s xs\<close> says that the
  unread data of \<open>s\<close> is \<open>xs\<close>; \<open>reserve\<close> makes room or throws, \<open>fill\<close> is what \<open>read(2)\<close>
  followed by \<open>buffer_consumed\<close> does, \<open>take_off\<close> is \<open>data_used\<close>. \<open>fits\<close> bounds the sizes for
  which \<open>reserve\<close> is promised anything.
\<close>

locale read_buffer =
  fixes holds :: "'s \<Rightarrow> byte list \<Rightarrow> bool"
    and room :: "'s \<Rightarrow> nat"
    and fits :: "'s \<Rightarrow> nat \<Rightarrow> bool"
    and reserve :: "'s \<Rightarrow> nat \<Rightarrow> 's outcome"
    and fill :: "'s \<Rightarrow> byte list \<Rightarrow> 's option"
    and take_off :: "'s \<Rightarrow> nat \<Rightarrow> 's"
  assumes reserve_holds: "holds s xs \<Longrightarrow> fits s n \<Longrightarrow>
      (\<exists>s'. reserve s n = Done s' \<and> holds s' xs \<and> n \<le> room s') \<or>
      (\<exists>s'. reserve s n = Throw s' \<and> holds s' xs)"
    and fill_holds: "holds s xs \<Longrightarrow> length ys \<le> room s \<Longrightarrow>
      \<exists>s'. fill s ys = Some s' \<and> holds s' (xs @ ys)"
    and take_off_holds: "holds s xs \<Longrightarrow> n \<le> length xs \<Longrightarrow> holds (take_off s n) (drop n xs)"
begin

text \<open>One reception: the new bytes follow the unread ones.\<close>

lemma receive:
  assumes "holds s xs" and "fits s n" and "reserve s n = Done s1" and "length ys \<le> room s1"
  shows "\<exists>s2. fill s1 ys = Some s2 \<and> holds s2 (xs @ ys)"
  using reserve_holds [OF assms(1,2)] assms(3) fill_holds [OF _ assms(4)] by auto

lemma receive_throw:
  assumes "holds s xs" and "fits s n" and "reserve s n = Throw s1"
  shows "holds s1 xs"
  using reserve_holds [OF assms(1,2)] assms(3) by auto

lemma reserve_no_fault:
  assumes "holds s xs" and "fits s n"
  shows "reserve s n \<noteq> Fault \<and> reserve s n \<noteq> Diverge"
  using reserve_holds [OF assms] by auto

text \<open>Taking data off in pieces.\<close>

lemma take_off_take_off:
  assumes "holds s (xs @ ys @ zs)"
  shows "holds (take_off (take_off s (length xs)) (length ys)) zs"
  using take_off_holds [OF assms, of "length xs"]
    take_off_holds [of "take_off s (length xs)" "ys @ zs" "length ys"] by simp

end

section \<open>An output sink\<close>

text \<open>
  What the gates ask of \<open>core::write\<close> and its relatives: per connection, the events handed over form
  a queue. \<open>queued s fd\<close> is that queue since the start, \<open>flat i\<close> are the events of a submission,
  \<open>valid\<close> and \<open>sendable\<close> bound what may be submitted.
\<close>

locale output_sink =
  fixes ok :: "'s \<Rightarrow> bool"
    and valid :: "'s \<Rightarrow> nat \<Rightarrow> bool"
    and sendable :: "'i \<Rightarrow> bool"
    and flat :: "'i \<Rightarrow> 'e list"
    and queued :: "'s \<Rightarrow> nat \<Rightarrow> 'e list"
    and submit :: "nat \<Rightarrow> 'i \<Rightarrow> 's \<Rightarrow> 's outcome"
  assumes submit_done: "ok s \<Longrightarrow> valid s fd \<Longrightarrow> sendable i \<Longrightarrow> submit fd i s = Done s' \<Longrightarrow>
      ok s' \<and> valid s' = valid s \<and> queued s' fd = queued s fd @ flat i
      \<and> (\<forall>g. g \<noteq> fd \<longrightarrow> queued s' g = queued s g)"
    and submit_runs: "ok s \<Longrightarrow> valid s fd \<Longrightarrow> sendable i \<Longrightarrow>
      (\<exists>s'. submit fd i s = Done s') \<or> (\<exists>s'. submit fd i s = Throw s')"
begin

text \<open>Several submissions, in order, on any connections.\<close>

fun submit_all :: "(nat \<times> 'i) list \<Rightarrow> 's \<Rightarrow> 's outcome" where
  "submit_all [] s = Done s"
| "submit_all ((fd, i) # r) s = and_then (submit fd i s) (submit_all r)"

definition sent_to :: "nat \<Rightarrow> (nat \<times> 'i) list \<Rightarrow> 'e list" where
  "sent_to fd r = concat (map (\<lambda>(g, i). if g = fd then flat i else []) r)"

lemma submit_all_queued:
  assumes "submit_all r s = Done s'" and "ok s" and "\<forall>(fd, i) \<in> set r. valid s fd \<and> sendable i"
  shows "ok s' \<and> queued s' fd = queued s fd @ sent_to fd r"
  using assms
proof (induction r arbitrary: s)
  case Nil
  then show ?case by (simp add: sent_to_def)
next
  case (Cons p r)
  obtain g i where p: "p = (g, i)" by (cases p)
  with Cons.prems(1) obtain s1 where s1: "submit g i s = Done s1" "submit_all r s1 = Done s'"
    by (cases "submit g i s") auto
  from Cons.prems(3) p have v: "valid s g" "sendable i" by auto
  note d = submit_done [OF Cons.prems(2) v s1(1)]
  have "ok s' \<and> queued s' fd = queued s1 fd @ sent_to fd r"
    using d Cons.prems(3) by (intro Cons.IH [OF s1(2)]) auto
  with d p show ?case by (auto simp: sent_to_def)
qed

lemma submit_all_runs:
  assumes "ok s" and "\<forall>(fd, i) \<in> set r. valid s fd \<and> sendable i"
  shows "submit_all r s \<noteq> Fault \<and> submit_all r s \<noteq> Diverge"
  using assms
proof (induction r arbitrary: s)
  case (Cons p r)
  obtain g i where p: "p = (g, i)" by (cases p)
  from Cons.prems(2) p have v: "valid s g" "sendable i" by auto
  from submit_runs [OF Cons.prems(1) v] show ?case
  proof
    assume "\<exists>s'. submit g i s = Done s'"
    then obtain s1 where s1: "submit g i s = Done s1" by blast
    note d = submit_done [OF Cons.prems(1) v s1]
    have "submit_all r s1 \<noteq> Fault \<and> submit_all r s1 \<noteq> Diverge"
      using d Cons.prems(2) by (intro Cons.IH) auto
    with s1 p show ?case by simp
  qed (use p in auto)
qed simp

end

section \<open>An indexed store\<close>

text \<open>
  A container addressed by index: \<open>contents\<close> is the map it stands for, \<open>put\<close> and \<open>erase\<close> change it
  at one index, \<open>find\<close> reads it.
\<close>

locale indexed_store =
  fixes inv :: "'s \<Rightarrow> bool"
    and contents :: "'s \<Rightarrow> nat \<Rightarrow> 'v option"
    and put :: "nat \<Rightarrow> 'v \<Rightarrow> 's \<Rightarrow> 's outcome"
    and erase :: "nat \<Rightarrow> 's \<Rightarrow> 's outcome"
    and find :: "nat \<Rightarrow> 's \<Rightarrow> 'v option"
  assumes put_contents: "inv s \<Longrightarrow> \<exists>s'. put i v s = Done s' \<and> inv s' \<and> contents s' = (contents s)(i \<mapsto> v)"
    and erase_contents: "inv s \<Longrightarrow> contents s i \<noteq> None \<Longrightarrow>
      \<exists>s'. erase i s = Done s' \<and> inv s' \<and> contents s' = (contents s)(i := None)"
    and find_contents: "inv s \<Longrightarrow> find i s = contents s i"
begin

lemma put_then_erase:
  assumes "inv s" and "i \<noteq> j" and "contents s j \<noteq> None"
  shows "\<exists>s1 s2. put i v s = Done s1 \<and> erase j s1 = Done s2 \<and> inv s2
    \<and> find i s2 = Some v \<and> find j s2 = None
    \<and> (\<forall>l. l \<noteq> i \<longrightarrow> l \<noteq> j \<longrightarrow> find l s2 = contents s l)"
proof -
  from put_contents [OF assms(1), of i v] obtain s1 where
    s1: "put i v s = Done s1" "inv s1" "contents s1 = (contents s)(i \<mapsto> v)" by blast
  with assms(2,3) have "contents s1 j \<noteq> None" by simp
  from erase_contents [OF s1(2) this] obtain s2 where
    s2: "erase j s1 = Done s2" "inv s2" "contents s2 = (contents s1)(j := None)" by blast
  with s1 assms(2) show ?thesis by (auto simp: find_contents)
qed

lemma put_put:
  assumes "inv s" and "i \<noteq> j"
  shows "\<exists>s1 s2. put i v s = Done s1 \<and> put j w s1 = Done s2 \<and> inv s2
    \<and> find i s2 = Some v \<and> find j s2 = Some w"
proof -
  from put_contents [OF assms(1), of i v] obtain s1 where
    s1: "put i v s = Done s1" "inv s1" "contents s1 = (contents s)(i \<mapsto> v)" by blast
  from put_contents [OF s1(2), of j w] obtain s2 where
    "put j w s1 = Done s2" "inv s2" "contents s2 = (contents s1)(j \<mapsto> w)" by blast
  with s1 assms(2) show ?thesis by (auto simp: find_contents)
qed

end

end
