(* ===== verification/Stream_Buffer.thy ===== *)
theory Stream_Buffer
  imports Interfaces
begin

text \<open>
  \<^verbatim>\<open>src/mp/stream_buffer.h\<close> and \<^verbatim>\<open>stream_buffer_impl.h\<close>: the receive buffer of both gates. The
  record's fields are the class's members; \<open>m_buffer\<close> is the address of the current block.
  The parameter \<open>grants\<close> says which requests the allocator grants, \<open>vec_ok\<close> whether
  \<open>std::vector::push_back\<close> finds memory.
\<close>

section \<open>State\<close>

record stream_buffer =
  sb_buffer :: addr
  sb_used :: nat
  sb_free :: nat
  sb_off :: nat
  sb_ref :: "addr list"

type_synonym sb_state = "heap \<times> stream_buffer"

definition MP_STREAM_BUFFER_INITIAL_BUFFER_SIZE :: nat where
  "MP_STREAM_BUFFER_INITIAL_BUFFER_SIZE = 8 * 1024"

section \<open>References\<close>

text \<open>
  \<open>class reference\<close> is its array of block addresses; the heap is threaded through.
  The copy constructor initialises \<open>m_array\<close> from itself and not from its argument, so it
  reads an object that does not exist yet: undefined whatever \<open>o\<close> is.
\<close>

definition reference_copy :: "heap \<Rightarrow> addr list \<Rightarrow> (heap \<times> addr list) option" where
  "reference_copy h refs = None"

definition reference_clear :: "heap \<Rightarrow> addr list \<Rightarrow> (heap \<times> addr list) option" where
  "reference_clear h refs = map_option (\<lambda>h'. (h', [])) (each_decr h refs)"

definition reference_push :: "heap \<Rightarrow> addr list \<Rightarrow> addr \<Rightarrow> (heap \<times> addr list) option" where
  "reference_push h refs d = map_option (\<lambda>h'. (h', refs @ [d])) (incr_count h d)"

definition reference_swap :: "addr list \<Rightarrow> addr list \<Rightarrow> addr list \<times> addr list" where
  "reference_swap this x = (x, this)"

section \<open>Operations\<close>

definition stream_buffer_init ::
    "(nat \<Rightarrow> bool) \<Rightarrow> heap \<Rightarrow> nat \<Rightarrow> (heap \<times> stream_buffer) option" where
  "stream_buffer_init grants h initial_buffer_size =
    (let initsz = max initial_buffer_size sizeof_count in
     if \<not> grants initsz then None
     else
       let (d, h1) = heap_malloc h initsz in
       map_option
         (\<lambda>h2. (h2, \<lparr>sb_buffer = d, sb_used = sizeof_count, sb_free = sz_sub initsz sizeof_count,
                     sb_off = sizeof_count, sb_ref = []\<rparr>))
         (init_count h1 d))"

text \<open>\<open>~stream_buffer\<close>: its own count first, then the destructor of \<open>m_ref\<close>.\<close>

definition stream_buffer_destroy :: "sb_state \<Rightarrow> heap option" where
  "stream_buffer_destroy s =
    (case s of (h, sb) \<Rightarrow>
       case decr_count h (sb_buffer sb) of
         None \<Rightarrow> None
       | Some h1 \<Rightarrow> map_option fst (reference_clear h1 (sb_ref sb)))"

definition buffer_capacity :: "stream_buffer \<Rightarrow> nat" where
  "buffer_capacity sb = sb_free sb"

definition buffer_consumed :: "stream_buffer \<Rightarrow> nat \<Rightarrow> stream_buffer" where
  "buffer_consumed sb len =
     sb\<lparr>sb_used := sz_add (sb_used sb) len, sb_free := sz_sub (sb_free sb) len\<rparr>"

definition data_size :: "stream_buffer \<Rightarrow> nat" where
  "data_size sb = sz_sub (sb_used sb) (sb_off sb)"

definition data_used :: "stream_buffer \<Rightarrow> nat \<Rightarrow> stream_buffer" where
  "data_used sb len = sb\<lparr>sb_off := sz_add (sb_off sb) len\<rparr>"

text \<open>What \<open>data()\<close> points to, as far as \<open>data_size()\<close> reaches.\<close>

definition data :: "sb_state \<Rightarrow> byte option list option" where
  "data s = (case s of (h, sb) \<Rightarrow> heap_read h (sb_buffer sb) (sb_off sb) (data_size sb))"

text \<open>A write through \<open>buffer()\<close>, as \<open>read(2)\<close> does it.\<close>

definition buffer_write :: "sb_state \<Rightarrow> byte list \<Rightarrow> sb_state option" where
  "buffer_write s xs =
    (case s of (h, sb) \<Rightarrow>
       map_option (\<lambda>h'. (h', sb)) (heap_write h (sb_buffer sb) (sb_used sb) (map Some xs)))"

definition release :: "sb_state \<Rightarrow> (sb_state \<times> addr list) option" where
  "release s =
    (case s of (h, sb) \<Rightarrow>
       map_option
         (\<lambda>(h', refs). let (tmp, own) = reference_swap [] refs in ((h', sb\<lparr>sb_ref := own\<rparr>), tmp))
         (reference_push h (sb_ref sb) (sb_buffer sb)))"

definition release_to :: "sb_state \<Rightarrow> addr list \<Rightarrow> (sb_state \<times> addr list) option" where
  "release_to s to =
    (case s of (h, sb) \<Rightarrow>
       case reference_clear h to of
         None \<Rightarrow> None
       | Some (h1, to1) \<Rightarrow>
           map_option
             (\<lambda>(h2, refs). let (to2, own) = reference_swap to1 refs in ((h2, sb\<lparr>sb_ref := own\<rparr>), to2))
             (reference_push h1 (sb_ref sb) (sb_buffer sb)))"

definition expand_buffer ::
    "(nat \<Rightarrow> bool) \<Rightarrow> bool \<Rightarrow> sb_state \<Rightarrow> nat \<Rightarrow> nat \<Rightarrow> sb_state outcome" where
  "expand_buffer grants vec_ok s len initial_buffer_size =
    (case s of (h, sb) \<Rightarrow>
     if sb_off sb = sizeof_count then
       (case grow (sz_mul (sz_add (sb_used sb) (sb_free sb)) 2) (sz_add len (sb_used sb)) of
          None \<Rightarrow> Diverge
        | Some next_size \<Rightarrow>
            if \<not> grants next_size then Throw (h, sb)
            else case heap_realloc h (sb_buffer sb) next_size of
              None \<Rightarrow> Fault
            | Some (tmp, h1) \<Rightarrow>
                Done (h1, sb\<lparr>sb_buffer := tmp, sb_free := sz_sub next_size (sb_used sb)\<rparr>))
     else
       let initsz = max initial_buffer_size sizeof_count;
           not_used = sz_sub (sb_used sb) (sb_off sb)
       in
       case grow initsz (sz_add (sz_add len not_used) sizeof_count) of
         None \<Rightarrow> Diverge
       | Some next_size \<Rightarrow>
           if \<not> grants next_size then Throw (h, sb)
           else
             let (tmp, h1) = heap_malloc h next_size in
             case init_count h1 tmp of
               None \<Rightarrow> Fault
             | Some h2 \<Rightarrow>
                 if \<not> vec_ok then Throw (h2\<lparr>live := (live h2)(tmp := None)\<rparr>, sb)
                 else case reference_push h2 (sb_ref sb) (sb_buffer sb) of
                   None \<Rightarrow> Fault
                 | Some (h3, refs) \<Rightarrow>
                     case heap_read h3 (sb_buffer sb) (sb_off sb) not_used of
                       None \<Rightarrow> Fault
                     | Some xs \<Rightarrow>
                         case heap_write h3 tmp sizeof_count xs of
                           None \<Rightarrow> Fault
                         | Some h4 \<Rightarrow>
                             Done (h4,
                               sb\<lparr>sb_buffer := tmp, sb_used := sz_add not_used sizeof_count,
                                  sb_free := sz_sub next_size (sz_add not_used sizeof_count),
                                  sb_off := sizeof_count, sb_ref := refs\<rparr>))"

definition reserve_buffer ::
    "(nat \<Rightarrow> bool) \<Rightarrow> bool \<Rightarrow> sb_state \<Rightarrow> nat \<Rightarrow> nat \<Rightarrow> sb_state outcome" where
  "reserve_buffer grants vec_ok s len initial_buffer_size =
    (case s of (h, sb) \<Rightarrow>
     case get_count h (sb_buffer sb) of
       None \<Rightarrow> Fault
     | Some c \<Rightarrow>
         let sb1 =
           (if sb_used sb = sb_off sb \<and> c = 1 then
              sb\<lparr>sb_free := sz_add (sb_free sb) (sz_sub (sb_used sb) sizeof_count),
                 sb_used := sizeof_count, sb_off := sizeof_count\<rparr>
            else sb)
         in
         if sb_free sb1 < len
         then expand_buffer grants vec_ok (h, sb1) len initial_buffer_size
         else Done (h, sb1))"

section \<open>Invariant\<close>

text \<open>
  The current block is live and as long as the two sizes say, the unread data lies between
  \<open>m_off\<close> and \<open>m_used\<close>, behind the count, and the blocks of \<open>m_ref\<close> are live. An allocator
  never grants an object of \<open>2 ^ 63\<close> bytes or more (\<open>PTRDIFF_MAX\<close>).
\<close>

definition allocator_ok :: "(nat \<Rightarrow> bool) \<Rightarrow> bool" where
  "allocator_ok grants \<longleftrightarrow> (\<forall>n \<ge> 2 ^ 63. \<not> grants n)"

lemma allocator_okD: "allocator_ok grants \<Longrightarrow> grants n \<Longrightarrow> n < 2 ^ 63"
  unfolding allocator_ok_def by (meson not_less)

definition sb_inv :: "sb_state \<Rightarrow> bool" where
  "sb_inv s =
    (case s of (h, sb) \<Rightarrow>
       heap_ok h \<and>
       (\<exists>b. live h (sb_buffer sb) = Some b \<and> length (bytes b) = sb_used sb + sb_free sb) \<and>
       sizeof_count \<le> sb_off sb \<and> sb_off sb \<le> sb_used sb \<and> sb_used sb + sb_free sb < 2 ^ 63 \<and>
       sb_buffer sb \<notin> set (sb_ref sb) \<and> (\<forall>d \<in> set (sb_ref sb). live h d \<noteq> None))"

lemma sb_invI:
  assumes "heap_ok h" "live h (sb_buffer sb) = Some b" "length (bytes b) = sb_used sb + sb_free sb"
    "4 \<le> sb_off sb" "sb_off sb \<le> sb_used sb" "sb_used sb + sb_free sb < 2 ^ 63"
    "sb_buffer sb \<notin> set (sb_ref sb)" "\<And>d. d \<in> set (sb_ref sb) \<Longrightarrow> live h d \<noteq> None"
  shows "sb_inv (h, sb)"
  using assms by (auto simp: sb_inv_def)

lemma sb_invE:
  assumes "sb_inv (h, sb)"
  obtains b where "heap_ok h" "live h (sb_buffer sb) = Some b"
    "length (bytes b) = sb_used sb + sb_free sb"
    "4 \<le> sb_off sb" "sb_off sb \<le> sb_used sb" "sb_used sb + sb_free sb < 2 ^ 63"
    "sb_buffer sb \<notin> set (sb_ref sb)" "\<And>d. d \<in> set (sb_ref sb) \<Longrightarrow> live h d \<noteq> None"
  using assms unfolding sb_inv_def by auto

lemma data_eq:
  assumes "sb_inv (h, sb)" and "live h (sb_buffer sb) = Some b"
  shows "data (h, sb) = Some (slice_at (bytes b) (sb_off sb) (sb_used sb - sb_off sb))"
  using assms by (auto simp: data_def heap_read_def data_size_def elim!: sb_invE)

text \<open>A buffer whose unread data is known: the abstraction the gates use.\<close>

definition sb_holds :: "sb_state \<Rightarrow> byte list \<Rightarrow> bool" where
  "sb_holds s xs \<longleftrightarrow> sb_inv s \<and> data s = Some (map Some xs)"

lemma sb_holds_size: "sb_holds (h, sb) xs \<Longrightarrow> data_size sb = length xs"
  by (auto simp: sb_holds_def data_def heap_read_def split: option.splits if_splits
      dest!: arg_cong [where f = length])

lemma heap_ok_live: "heap_ok h \<Longrightarrow> live h d = Some b \<Longrightarrow> d < fresh h"
  by (metis heap_ok_def not_le option.distinct(1))

section \<open>Growth keeps the unread data\<close>

lemma expand_in_place:
  assumes inv: "sb_inv (h, sb)" and off: "sb_off sb = 4" and alloc: "allocator_ok grants"
    and need: "len + sb_used sb \<le> 2 ^ 63"
  shows "(\<exists>s'. expand_buffer grants vec_ok (h, sb) len init = Done s' \<and> sb_inv s' \<and>
      len \<le> sb_free (snd s') \<and> data s' = data (h, sb)) \<or>
    expand_buffer grants vec_ok (h, sb) len init = Throw (h, sb)"
proof -
  from inv obtain b where b: "heap_ok h" "live h (sb_buffer sb) = Some b"
    "length (bytes b) = sb_used sb + sb_free sb" "4 \<le> sb_used sb"
    "sb_used sb + sb_free sb < 2 ^ 63"
    and refs: "sb_buffer sb \<notin> set (sb_ref sb)" "\<And>d. d \<in> set (sb_ref sb) \<Longrightarrow> live h d \<noteq> None"
    using off by (auto elim!: sb_invE)
  obtain n where n: "grow ((sb_used sb + sb_free sb) * 2) (len + sb_used sb) = Some n"
    "len + sb_used sb \<le> n" "(sb_used sb + sb_free sb) * 2 \<le> n" "n < 2 ^ 64"
    using grow_terminates [of "(sb_used sb + sb_free sb) * 2" "len + sb_used sb"] b need by auto
  have sizes: "sz_mul (sz_add (sb_used sb) (sb_free sb)) 2 = (sb_used sb + sb_free sb) * 2"
    "sz_add len (sb_used sb) = len + sb_used sb" "sz_sub n (sb_used sb) = n - sb_used sb"
    using b need n by simp_all
  show ?thesis
  proof (cases "grants n")
    case False
    then show ?thesis using off n by (simp add: expand_buffer_def sizes)
  next
    case True
    then have "n < 2 ^ 63" by (rule allocator_okD [OF alloc])
    define b' where "b' = b\<lparr>bytes := take n (bytes b) @ replicate (n - length (bytes b)) None\<rparr>"
    define h' where "h' = \<lparr>live = (live h)(sb_buffer sb := None, fresh h \<mapsto> b'), fresh = Suc (fresh h)\<rparr>"
    define sb' where "sb' = sb\<lparr>sb_buffer := fresh h, sb_free := n - sb_used sb\<rparr>"
    have e: "expand_buffer grants vec_ok (h, sb) len init = Done (h', sb')"
      using True off n b by (simp add: expand_buffer_def sizes heap_realloc_def h'_def b'_def sb'_def)
    have "sb_inv (h', sb')"
    proof (rule sb_invI)
      show "live h' (sb_buffer sb') = Some b'" by (simp add: h'_def sb'_def)
      show "length (bytes b') = sb_used sb' + sb_free sb'"
        using b n by (simp add: b'_def sb'_def)
      show "heap_ok h'" using b(1) by (auto simp: heap_ok_def h'_def)
    qed (use b n off refs \<open>n < 2 ^ 63\<close> in
        \<open>auto simp: h'_def sb'_def dest: heap_ok_live [OF b(1)]\<close>)
    moreover have "data (h', sb') = data (h, sb)"
      using data_eq [OF inv b(2)] data_eq [OF \<open>sb_inv (h', sb')\<close>, of b'] b n
      by (simp add: h'_def sb'_def b'_def slice_at_def)
    ultimately show ?thesis using e n by (auto simp: sb'_def)
  qed
qed

text \<open>
  The other branch copies the unread bytes into a fresh block. The old block is pushed to
  \<open>m_ref\<close>, which counts it once more.
\<close>

lemma expand_copy_result:
  assumes inv: "sb_inv (h, sb)" and off: "sb_off sb \<noteq> 4" and alloc: "allocator_ok grants"
    and need: "len + sb_used sb \<le> 2 ^ 63" "init \<le> 2 ^ 63"
    and b: "live h (sb_buffer sb) = Some b"
    and n: "grow (max init 4) (len + (sb_used sb - sb_off sb) + 4) = Some n" and ok: "grants n" "vec_ok"
  defines "nu \<equiv> sb_used sb - sb_off sb"
  defines "new \<equiv> \<lparr>count = 1, bytes = store_at (replicate n None) 4 (slice_at (bytes b) (sb_off sb) nu)\<rparr>"
  shows "expand_buffer grants vec_ok (h, sb) len init =
    Done (\<lparr>live = (live h)(fresh h \<mapsto> new, sb_buffer sb \<mapsto> b\<lparr>count := count b + 1\<rparr>),
           fresh = Suc (fresh h)\<rparr>,
          sb\<lparr>sb_buffer := fresh h, sb_used := nu + 4, sb_free := n - (nu + 4), sb_off := 4,
             sb_ref := sb_ref sb @ [sb_buffer sb]\<rparr>)"
proof -
  from inv b have *: "heap_ok h" "length (bytes b) = sb_used sb + sb_free sb" "4 \<le> sb_off sb"
    "sb_off sb \<le> sb_used sb" "sb_used sb + sb_free sb < 2 ^ 63"
    by (auto elim!: sb_invE)
  have ne: "sb_buffer sb \<noteq> fresh h" using heap_ok_live [OF *(1) b] by simp
  have "len + nu + 4 \<le> n \<and> n < 2 ^ 64"
    using grow_terminates [of "max init 4" "len + nu + 4"] n need * off by (auto simp: nu_def)
  then have n4: "nu + 4 \<le> n" "n < 2 ^ 64" by auto
  have sizes: "sz_sub (sb_used sb) (sb_off sb) = nu" "sz_add len nu = len + nu"
    "sz_add (len + nu) 4 = len + nu + 4" "sz_add nu 4 = nu + 4" "sz_sub n (nu + 4) = n - (nu + 4)"
    using * need n4 by (simp_all add: nu_def)
  have fits: "sb_off sb + nu \<le> length (bytes b)" using * by (simp add: nu_def)
  have len_slice: "length (slice_at (bytes b) (sb_off sb) nu) = nu"
    using fits by simp
  show ?thesis
    using off n ok b ne n4 fits len_slice
    by (simp add: expand_buffer_def sizes Let_def nu_def [symmetric] heap_malloc_def init_count_def
      reference_push_def incr_count_def heap_read_def heap_write_def new_def fun_upd_twist)
qed

lemma expand_copied:
  assumes inv: "sb_inv (h, sb)" and b: "live h (sb_buffer sb) = Some b"
    and n: "sb_used sb - sb_off sb + 4 \<le> n" "n < 2 ^ 63"
  defines "nu \<equiv> sb_used sb - sb_off sb"
  defines "new \<equiv> \<lparr>count = 1, bytes = store_at (replicate n None) 4 (slice_at (bytes b) (sb_off sb) nu)\<rparr>"
  defines "h' \<equiv> \<lparr>live = (live h)(fresh h \<mapsto> new, sb_buffer sb \<mapsto> b\<lparr>count := count b + 1\<rparr>), fresh = Suc (fresh h)\<rparr>"
  defines "sb' \<equiv> sb\<lparr>sb_buffer := fresh h, sb_used := nu + 4, sb_free := n - (nu + 4), sb_off := 4,
    sb_ref := sb_ref sb @ [sb_buffer sb]\<rparr>"
  shows "sb_inv (h', sb')" and "data (h', sb') = data (h, sb)"
proof -
  from inv b have *: "heap_ok h" "length (bytes b) = sb_used sb + sb_free sb" "sb_off sb \<le> sb_used sb"
    and refs: "sb_buffer sb \<notin> set (sb_ref sb)" "\<And>d. d \<in> set (sb_ref sb) \<Longrightarrow> live h d \<noteq> None"
    by (auto elim!: sb_invE)
  have ne: "sb_buffer sb \<noteq> fresh h" using heap_ok_live [OF *(1) b] by simp
  have len_slice: "length (slice_at (bytes b) (sb_off sb) nu) = nu" using * by (simp add: nu_def)
  show i: "sb_inv (h', sb')"
  proof (rule sb_invI)
    show "live h' (sb_buffer sb') = Some new" using ne by (simp add: h'_def sb'_def)
    show "length (bytes new) = sb_used sb' + sb_free sb'" using n by (simp add: new_def sb'_def nu_def)
    show "heap_ok h'" using *(1) heap_ok_live [OF *(1) b] by (auto simp: heap_ok_def h'_def)
  qed (use n refs ne in \<open>auto simp: h'_def sb'_def nu_def dest: heap_ok_live [OF *(1)]\<close>)
  show "data (h', sb') = data (h, sb)"
    using data_eq [OF inv b] data_eq [OF i, of new] ne n len_slice
      slice_store_same [of 4 "slice_at (bytes b) (sb_off sb) nu" "replicate n None"]
    by (simp add: h'_def sb'_def new_def nu_def)
qed

lemma expand_no_vector:
  assumes inv: "sb_inv (h, sb)"
  defines "h' \<equiv> \<lparr>live = (live h)(fresh h := None), fresh = Suc (fresh h)\<rparr>"
  shows "sb_inv (h', sb)" and "data (h', sb) = data (h, sb)"
proof -
  from inv have ok: "heap_ok h" by (auto elim!: sb_invE)
  then have live': "live h' = live h" by (auto simp: h'_def heap_ok_def fun_eq_iff)
  have "heap_ok h'" using ok live' by (auto simp: heap_ok_def h'_def)
  with inv live' show "sb_inv (h', sb)" by (auto elim!: sb_invE intro!: sb_invI)
  show "data (h', sb) = data (h, sb)" by (simp add: data_def heap_read_def live')
qed

lemma expand_copy:
  assumes inv: "sb_inv (h, sb)" and off: "sb_off sb \<noteq> 4" and alloc: "allocator_ok grants"
    and need: "len + sb_used sb \<le> 2 ^ 63" "init \<le> 2 ^ 63"
  shows "(\<exists>s'. expand_buffer grants vec_ok (h, sb) len init = Done s' \<and> sb_inv s' \<and>
      len \<le> sb_free (snd s') \<and> data s' = data (h, sb)) \<or>
    (\<exists>h'. expand_buffer grants vec_ok (h, sb) len init = Throw (h', sb) \<and> sb_inv (h', sb) \<and>
      data (h', sb) = data (h, sb))"
proof -
  from inv obtain b where b: "live h (sb_buffer sb) = Some b" "4 \<le> sb_off sb" "sb_off sb \<le> sb_used sb"
    "sb_used sb + sb_free sb < 2 ^ 63"
    by (auto elim!: sb_invE)
  let ?nu = "sb_used sb - sb_off sb"
  have "len + ?nu + 4 \<le> 2 ^ 63" and "max init 4 < 2 ^ 64" and "(0 :: nat) < max init 4"
    using need b off by auto
  with grow_terminates [of "max init 4" "len + ?nu + 4"]
  obtain n where n: "grow (max init 4) (len + ?nu + 4) = Some n" "len + ?nu + 4 \<le> n" by blast
  have sizes: "sz_sub (sb_used sb) (sb_off sb) = ?nu" "sz_add len ?nu = len + ?nu"
    "sz_add (len + ?nu) 4 = len + ?nu + 4"
    using b need off by simp_all
  consider "\<not> grants n" | "grants n" "\<not> vec_ok" | "grants n" "vec_ok" by blast
  then show ?thesis
  proof cases
    case 1
    then have "expand_buffer grants vec_ok (h, sb) len init = Throw (h, sb)"
      using off n(1) by (simp add: expand_buffer_def sizes Let_def)
    then show ?thesis using inv by blast
  next
    case 2
    then have "expand_buffer grants vec_ok (h, sb) len init =
        Throw (\<lparr>live = (live h)(fresh h := None), fresh = Suc (fresh h)\<rparr>, sb)"
      using off n(1) by (simp add: expand_buffer_def sizes Let_def heap_malloc_def init_count_def)
    with expand_no_vector [OF inv] show ?thesis by blast
  next
    case 3
    note r = expand_copy_result [OF inv off alloc need b(1) n(1) 3]
    have "n < 2 ^ 63" by (rule allocator_okD [OF alloc 3(1)])
    with expand_copied [OF inv b(1), of n] n(2) r show ?thesis by simp
  qed
qed

text \<open>
  What \<open>reserve_buffer\<close> promises: whatever the allocator does, the unread data is what it
  was; if the call returns, there is room for \<open>len\<close> bytes; it never touches memory that is
  not live, and it ends.
\<close>

lemma reserve_buffer_holds:
  assumes h: "sb_holds s xs" and alloc: "allocator_ok grants"
    and need: "len + sb_used (snd s) \<le> 2 ^ 63" "init \<le> 2 ^ 63"
  shows "(\<exists>s'. reserve_buffer grants vec_ok s len init = Done s' \<and> sb_holds s' xs \<and>
      len \<le> buffer_capacity (snd s')) \<or>
    (\<exists>s'. reserve_buffer grants vec_ok s len init = Throw s' \<and> sb_holds s' xs)"
proof -
  obtain hp sb where s: "s = (hp, sb)" by (cases s)
  have inv: "sb_inv (hp, sb)" and d: "data (hp, sb) = Some (map Some xs)"
    using h s by (simp_all add: sb_holds_def)
  from inv obtain b where b: "heap_ok hp" "live hp (sb_buffer sb) = Some b"
    "length (bytes b) = sb_used sb + sb_free sb" "4 \<le> sb_off sb"
    "sb_off sb \<le> sb_used sb" "sb_used sb + sb_free sb < 2 ^ 63"
    "sb_buffer sb \<notin> set (sb_ref sb)" "\<And>d. d \<in> set (sb_ref sb) \<Longrightarrow> live hp d \<noteq> None"
    by (auto elim!: sb_invE)
  define sb1 where "sb1 = (if sb_used sb = sb_off sb \<and> count b = 1
    then sb\<lparr>sb_free := sb_free sb + (sb_used sb - 4), sb_used := 4, sb_off := 4\<rparr> else sb)"
  have sizes: "sz_sub (sb_used sb) 4 = sb_used sb - 4"
    "sz_add (sb_free sb) (sb_used sb - 4) = sb_free sb + (sb_used sb - 4)"
    using b by simp_all
  have r: "reserve_buffer grants vec_ok s len init =
      (if sb_free sb1 < len then expand_buffer grants vec_ok (hp, sb1) len init
       else Done (hp, sb1))"
    using b sizes by (simp add: s reserve_buffer_def get_count_def sb1_def Let_def)
  have i1: "sb_inv (hp, sb1)"
    by (rule sb_invI) (use b in \<open>auto simp: sb1_def split: if_splits\<close>)
  have "data (hp, sb1) = data (hp, sb)"
    using b data_eq [OF inv b(2)] data_eq [OF i1, of b]
    by (auto simp: sb1_def slice_at_def)
  with d have d1: "data (hp, sb1) = Some (map Some xs)" by simp
  have u1: "len + sb_used sb1 \<le> 2 ^ 63" using need b by (auto simp: sb1_def s)
  show ?thesis
  proof (cases "sb_free sb1 < len")
    case False
    then show ?thesis using r i1 d1 by (auto simp: sb_holds_def buffer_capacity_def)
  next
    case True
    show ?thesis
    proof (cases "sb_off sb1 = 4")
      case in_place: True
      from expand_in_place [OF i1 in_place alloc u1, of vec_ok init] True show ?thesis
        using r d1 i1 by (auto simp: sb_holds_def buffer_capacity_def)
    next
      case copy: False
      from expand_copy [OF i1 copy alloc u1 need(2), of vec_ok] True show ?thesis
        using r d1 i1 by (auto simp: sb_holds_def buffer_capacity_def)
    qed
  qed
qed

section \<open>Filling and emptying\<close>

text \<open>\<open>read(fd, buffer(), buffer_capacity())\<close> that returns \<open>xs\<close>, then \<open>buffer_consumed\<close>.\<close>

definition fill :: "sb_state \<Rightarrow> byte list \<Rightarrow> sb_state option" where
  "fill s xs = map_option (\<lambda>(h, sb). (h, buffer_consumed sb (length xs))) (buffer_write s xs)"

definition take_off :: "sb_state \<Rightarrow> nat \<Rightarrow> sb_state" where
  "take_off s n = (fst s, data_used (snd s) n)"

lemma stream_buffer_init_holds:
  assumes "heap_ok h" and "allocator_ok grants" and "stream_buffer_init grants h n = Some s"
  shows "sb_holds s []" and "max n 4 = sb_used (snd s) + sb_free (snd s)"
proof -
  let ?k = "max n 4"
  have "?k < 2 ^ 63" using assms allocator_okD [of grants ?k]
    by (simp add: stream_buffer_init_def Let_def split: if_splits)
  then have "sz_sub ?k 4 = ?k - 4" by (intro sz_sub_id) auto
  then have s: "s = (\<lparr>live = (live h)(fresh h \<mapsto> \<lparr>count = 1, bytes = replicate ?k None\<rparr>), fresh = Suc (fresh h)\<rparr>,
      \<lparr>sb_buffer = fresh h, sb_used = 4, sb_free = ?k - 4, sb_off = 4, sb_ref = []\<rparr>)"
    using assms(3) by (auto simp: stream_buffer_init_def Let_def heap_malloc_def init_count_def
        split: if_splits)
  then show "?k = sb_used (snd s) + sb_free (snd s)" by simp
  have i: "sb_inv s"
    unfolding s by (rule sb_invI) (use assms(1) \<open>?k < 2 ^ 63\<close> in \<open>auto simp: heap_ok_def\<close>)
  then show "sb_holds s []" using s by (simp add: sb_holds_def data_eq)
qed

lemma fill_holds:
  assumes "sb_holds s xs" and "length ys \<le> buffer_capacity (snd s)"
  shows "\<exists>s'. fill s ys = Some s' \<and> sb_holds s' (xs @ ys)"
proof -
  obtain h sb where s: "s = (h, sb)" by (cases s)
  have inv: "sb_inv (h, sb)" and d: "data (h, sb) = Some (map Some xs)"
    using assms(1) s by (simp_all add: sb_holds_def)
  from inv obtain b where b: "heap_ok h" "live h (sb_buffer sb) = Some b"
    "length (bytes b) = sb_used sb + sb_free sb" "4 \<le> sb_off sb"
    "sb_off sb \<le> sb_used sb" "sb_used sb + sb_free sb < 2 ^ 63"
    "sb_buffer sb \<notin> set (sb_ref sb)" "\<And>d. d \<in> set (sb_ref sb) \<Longrightarrow> live h d \<noteq> None"
    by (auto elim!: sb_invE)
  define n where "n = length ys"
  have n: "n \<le> sb_free sb" using assms(2) by (simp add: n_def s buffer_capacity_def)
  define b' where "b' = b\<lparr>bytes := store_at (bytes b) (sb_used sb) (map Some ys)\<rparr>"
  define h' where "h' = h\<lparr>live := (live h)(sb_buffer sb \<mapsto> b')\<rparr>"
  define sb' where "sb' = sb\<lparr>sb_used := sb_used sb + n, sb_free := sb_free sb - n\<rparr>"
  have f: "fill s ys = Some (h', sb')"
    using b n by (simp add: fill_def s buffer_write_def heap_write_def buffer_consumed_def
        n_def h'_def b'_def sb'_def)
  have i: "sb_inv (h', sb')"
  proof (rule sb_invI)
    show "live h' (sb_buffer sb') = Some b'" by (simp add: h'_def sb'_def)
    show "length (bytes b') = sb_used sb' + sb_free sb'" using b n by (simp add: b'_def sb'_def)
    show "heap_ok h'" using b(1) heap_ok_live [OF b(1,2)] by (auto simp: heap_ok_def h'_def)
  qed (use b n in \<open>auto simp: h'_def sb'_def\<close>)
  have "slice_at (bytes b') (sb_off sb) (sb_used sb - sb_off sb + n)
      = slice_at (bytes b) (sb_off sb) (sb_used sb - sb_off sb) @ map Some ys"
    using b n slice_store_below [of "sb_used sb" "map Some ys" "bytes b" "sb_off sb"
        "sb_used sb - sb_off sb"] slice_store_same [of "sb_used sb" "map Some ys" "bytes b"]
    by (subst slice_at_append) (simp add: b'_def n_def)
  then have "data (h', sb') = Some (map Some (xs @ ys))"
    using d data_eq [OF inv b(2)] data_eq [OF i, of b'] b
    by (simp add: h'_def sb'_def)
  with f i show ?thesis by (auto simp: sb_holds_def)
qed

lemma take_off_holds:
  assumes "sb_holds s xs" and "n \<le> length xs"
  shows "sb_holds (take_off s n) (drop n xs)"
proof -
  obtain h sb where s: "s = (h, sb)" by (cases s)
  have inv: "sb_inv (h, sb)" and d: "data (h, sb) = Some (map Some xs)"
    using assms(1) s by (simp_all add: sb_holds_def)
  from inv obtain b where b: "heap_ok h" "live h (sb_buffer sb) = Some b"
    "length (bytes b) = sb_used sb + sb_free sb" "4 \<le> sb_off sb"
    "sb_off sb \<le> sb_used sb" "sb_used sb + sb_free sb < 2 ^ 63"
    "sb_buffer sb \<notin> set (sb_ref sb)" "\<And>d. d \<in> set (sb_ref sb) \<Longrightarrow> live h d \<noteq> None"
    by (auto elim!: sb_invE)
  have size: "data_size sb = length xs" using assms(1) s by (simp add: sb_holds_size)
  then have n: "n \<le> sb_used sb - sb_off sb" using assms(2) b by (simp add: data_size_def)
  define sb' where "sb' = sb\<lparr>sb_off := sb_off sb + n\<rparr>"
  have t: "take_off s n = (h, sb')" using b n by (simp add: take_off_def s data_used_def sb'_def)
  have i: "sb_inv (h, sb')" by (rule sb_invI) (use b n in \<open>auto simp: sb'_def\<close>)
  have "data (h, sb') = Some (map Some (drop n xs))"
    using d data_eq [OF inv b(2)] data_eq [OF i, of b] b n
      slice_at_drop [OF n, of "bytes b" "sb_off sb"]
    by (simp add: sb'_def drop_map)
  with t i show ?thesis by (simp add: sb_holds_def)
qed

text \<open>The receive buffer of the gates provides the interface.\<close>

definition sb_room :: "sb_state \<Rightarrow> nat" where "sb_room s = buffer_capacity (snd s)"

definition sb_fits :: "(nat \<Rightarrow> bool) \<Rightarrow> sb_state \<Rightarrow> nat \<Rightarrow> bool" where
  "sb_fits grants s n \<longleftrightarrow> allocator_ok grants \<and> n + sb_used (snd s) \<le> 2 ^ 63"

definition sb_reserve :: "(nat \<Rightarrow> bool) \<Rightarrow> bool \<Rightarrow> sb_state \<Rightarrow> nat \<Rightarrow> sb_state outcome" where
  "sb_reserve grants vec_ok s n =
     reserve_buffer grants vec_ok s n MP_STREAM_BUFFER_INITIAL_BUFFER_SIZE"

interpretation sb: read_buffer sb_holds sb_room "sb_fits grants" "sb_reserve grants vec_ok" fill take_off
  for grants vec_ok
proof
  fix s xs n
  assume "sb_holds s xs" and "sb_fits grants s n"
  then show "(\<exists>s'. sb_reserve grants vec_ok s n = Done s' \<and> sb_holds s' xs \<and> n \<le> sb_room s') \<or>
      (\<exists>s'. sb_reserve grants vec_ok s n = Throw s' \<and> sb_holds s' xs)"
    unfolding sb_reserve_def sb_room_def
    by (intro reserve_buffer_holds) (auto simp: sb_fits_def MP_STREAM_BUFFER_INITIAL_BUFFER_SIZE_def)
next
  fix s xs and ys :: "byte list"
  assume "sb_holds s xs" and "length ys \<le> sb_room s"
  then show "\<exists>s'. fill s ys = Some s' \<and> sb_holds s' (xs @ ys)"
    unfolding sb_room_def by (rule fill_holds)
qed (rule take_off_holds)

section \<open>Properties\<close>

text \<open>C25. \<open>reserve_buffer\<close> keeps the unread bytes, whatever branch it takes (rewinding, growing
  in place, copying to a new block) and whatever the allocator answers; it makes room for
  \<open>len\<close> bytes unless the allocator refuses, touches only live memory, and its loop ends.\<close>

theorem reserve_buffer_keeps_data:
  assumes "sb_holds s xs" and "allocator_ok grants" and "len + sb_used (snd s) \<le> 2 ^ 63"
  shows "case reserve_buffer grants vec_ok s len MP_STREAM_BUFFER_INITIAL_BUFFER_SIZE of
      Done s' \<Rightarrow> sb_holds s' xs \<and> len \<le> buffer_capacity (snd s')
    | Throw s' \<Rightarrow> sb_holds s' xs
    | Fault \<Rightarrow> False
    | Diverge \<Rightarrow> False"
  using sb.reserve_holds [of s xs grants len vec_ok] assms
  by (auto simp: sb_fits_def sb_reserve_def sb_room_def)

text \<open>Growing by copying leaks the old block: its count is raised by one for the entry in
  \<open>m_ref\<close> but the count of the buffer itself is not given back, so after the buffer is
  destroyed the block is still allocated, with nothing left that refers to it.\<close>

theorem expand_buffer_leaks:
  assumes inv: "sb_inv (h, sb)" and "sb_off sb \<noteq> sizeof_count" and "sb_ref sb = []"
    and b: "live h (sb_buffer sb) = Some b" and "count b = 1"
    and alloc: "allocator_ok grants" and "len + sb_used sb \<le> 2 ^ 63" and "init \<le> 2 ^ 63"
    and done_: "expand_buffer grants vec_ok (h, sb) len init = Done s'"
  shows "\<exists>h'. stream_buffer_destroy s' = Some h' \<and> live h' (sb_buffer sb) = Some b"
proof -
  have off: "sb_off sb \<noteq> 4" "4 \<le> sb_off sb" "sb_off sb \<le> sb_used sb" "heap_ok h"
    using assms by (auto elim!: sb_invE)
  have sizes: "sz_sub (sb_used sb) (sb_off sb) = sb_used sb - sb_off sb"
    "sz_add len (sb_used sb - sb_off sb) = len + (sb_used sb - sb_off sb)"
    "sz_add (len + (sb_used sb - sb_off sb)) 4 = len + (sb_used sb - sb_off sb) + 4"
    using off assms(7) inv by (auto elim!: sb_invE)
  obtain n where n: "grow (max init 4) (len + (sb_used sb - sb_off sb) + 4) = Some n" "grants n" "vec_ok"
    using done_ off(1)
    by (auto simp: expand_buffer_def sizes Let_def split: option.splits if_splits prod.splits)
  note r = expand_copy_result [OF inv off(1) alloc assms(7,8) b n]
  have ne: "sb_buffer sb \<noteq> fresh h" using heap_ok_live [OF off(4) b] by simp
  have "count b + 1 \<noteq> 1" using \<open>count b = 1\<close> by simp
  with r done_ ne \<open>sb_ref sb = []\<close> \<open>count b = 1\<close> b show ?thesis
    by (auto simp: stream_buffer_destroy_def decr_count_def reference_clear_def)
qed

text \<open>A reference released before any data was consumed does not protect its block: the
  next growth reallocates it in place, and dropping the reference then touches freed memory.\<close>

theorem release_then_grow_dangles:
  assumes "sb_holds (h, sb) xs" and "sb_off sb = sizeof_count" and "sb_ref sb = []" and "xs \<noteq> []"
    and "release (h, sb) = Some (s1, refs)" and "buffer_capacity (snd s1) < len"
    and "reserve_buffer grants vec_ok s1 len init = Done s2"
  shows "reference_clear (fst s2) refs = None"
proof -
  have inv: "sb_inv (h, sb)" and "data_size sb = length xs"
    using assms(1) by (simp_all add: sb_holds_def sb_holds_size)
  then obtain b where b: "heap_ok h" "live h (sb_buffer sb) = Some b"
    "sb_used sb + sb_free sb < 2 ^ 63" "sb_off sb \<le> sb_used sb"
    by (auto elim!: sb_invE)
  with \<open>data_size sb = length xs\<close> assms(4) have ne: "sb_used sb \<noteq> sb_off sb"
    by (auto simp: data_size_def)
  have fresh: "sb_buffer sb \<noteq> fresh h" using heap_ok_live [OF b(1,2)] by simp
  have s1: "s1 = (h\<lparr>live := (live h)(sb_buffer sb \<mapsto> b\<lparr>count := count b + 1\<rparr>)\<rparr>, sb)"
    and refs: "refs = [sb_buffer sb]"
    using assms(3,5) b by (auto simp: release_def reference_push_def incr_count_def reference_swap_def)
  have "live (fst s2) (sb_buffer sb) = None"
    using assms(2,6,7) s1 ne fresh
    by (auto simp: reserve_buffer_def get_count_def Let_def expand_buffer_def heap_realloc_def
        buffer_capacity_def split: option.splits if_splits)
  then show ?thesis by (simp add: refs reference_clear_def decr_count_def)
qed

section \<open>Concrete buffers\<close>

text \<open>Twelve bytes with three unread, two of the data area already consumed.\<close>

definition sample_sb :: sb_state where
  "sample_sb =
     (\<lparr>live = [0 \<mapsto> \<lparr>count = 1,
        bytes = replicate 6 None @ map Some [65, 66, 67] @ replicate 3 None\<rparr>], fresh = 1\<rparr>,
      \<lparr>sb_buffer = 0, sb_used = 9, sb_free = 3, sb_off = 6, sb_ref = []\<rparr>)"

text \<open>The same bytes with nothing consumed yet.\<close>

definition sample_sb_start :: sb_state where
  "sample_sb_start =
     (\<lparr>live = [0 \<mapsto> \<lparr>count = 1,
        bytes = replicate 4 None @ map Some [65, 66, 67] @ replicate 3 None\<rparr>], fresh = 1\<rparr>,
      \<lparr>sb_buffer = 0, sb_used = 7, sb_free = 3, sb_off = 4, sb_ref = []\<rparr>)"

definition granting :: "nat \<Rightarrow> bool" where "granting n \<longleftrightarrow> n < 2 ^ 63"

lemma granting_ok [simp]: "allocator_ok granting"
  by (simp add: allocator_ok_def granting_def)

lemma sample_sb_holds: "sb_holds sample_sb [65, 66, 67]"
proof -
  have i: "sb_inv sample_sb"
    unfolding sample_sb_def by (rule sb_invI) (auto simp: heap_ok_def)
  then show ?thesis
    by (simp add: sb_holds_def sample_sb_def data_def heap_read_def data_size_def slice_at_def)
qed

lemma sample_sb_start_holds: "sb_holds sample_sb_start [65, 66, 67]"
proof -
  have i: "sb_inv sample_sb_start"
    unfolding sample_sb_start_def by (rule sb_invI) (auto simp: heap_ok_def)
  then show ?thesis
    by (simp add: sb_holds_def sample_sb_start_def data_def heap_read_def data_size_def slice_at_def)
qed

lemma sample_sb_inv: "sb_inv sample_sb"
  using sample_sb_holds by (simp add: sb_holds_def)

theorem reserve_buffer_keeps_data_witness:
  "case reserve_buffer granting True sample_sb 4 MP_STREAM_BUFFER_INITIAL_BUFFER_SIZE of
      Done s' \<Rightarrow> sb_holds s' [65, 66, 67] \<and> 4 \<le> buffer_capacity (snd s')
    | Throw s' \<Rightarrow> sb_holds s' [65, 66, 67]
    | Fault \<Rightarrow> False
    | Diverge \<Rightarrow> False"
  by (rule reserve_buffer_keeps_data [OF sample_sb_holds granting_ok]) (simp add: sample_sb_def)

theorem expand_buffer_leaks_witness:
  "\<exists>s' h'. expand_buffer granting True sample_sb 4 8 = Done s' \<and>
    stream_buffer_destroy s' = Some h' \<and> live h' 0 \<noteq> None"
proof -
  have "grow 8 11 = Some 16" by (simp add: grow.simps)
  then have "\<exists>s'. expand_buffer granting True sample_sb 4 8 = Done s'"
    by (simp add: expand_buffer_def sample_sb_def Let_def granting_def heap_malloc_def
        init_count_def reference_push_def incr_count_def heap_read_def heap_write_def)
  then obtain s' where s': "expand_buffer granting True sample_sb 4 8 = Done s'" by blast
  from expand_buffer_leaks [of "fst sample_sb" "snd sample_sb" _ granting 4 8 True s'] sample_sb_inv s'
  show ?thesis by (fastforce simp: sample_sb_def)
qed

theorem release_then_grow_dangles_witness:
  "\<exists>s1 refs s2. release sample_sb_start = Some (s1, refs) \<and>
    reserve_buffer granting True s1 10 8 = Done s2 \<and> reference_clear (fst s2) refs = None"
proof -
  have "grow 20 17 = Some 20" by (simp add: grow.simps)
  then have "\<exists>s1 refs s2. release sample_sb_start = Some (s1, refs) \<and>
      buffer_capacity (snd s1) < 10 \<and> reserve_buffer granting True s1 10 8 = Done s2"
    by (simp add: release_def reference_push_def incr_count_def sample_sb_start_def reference_swap_def
        buffer_capacity_def reserve_buffer_def get_count_def Let_def expand_buffer_def
        heap_realloc_def granting_def)
  then obtain s1 refs s2 where r: "release sample_sb_start = Some (s1, refs)"
    "buffer_capacity (snd s1) < 10" "reserve_buffer granting True s1 10 8 = Done s2"
    by blast
  have "sb_off (snd sample_sb_start) = sizeof_count" "sb_ref (snd sample_sb_start) = []"
    by (simp_all add: sample_sb_start_def)
  with release_then_grow_dangles [of "fst sample_sb_start" "snd sample_sb_start" "[65, 66, 67]"
      s1 refs 10 granting True 8 s2] sample_sb_start_holds r
  have "reference_clear (fst s2) refs = None" by simp
  with r show ?thesis by blast
qed

end
