(* ===== verification/Shared_Buffer.thy ===== *)
theory Shared_Buffer
  imports Stream_Buffer
begin

text \<open>
  \<^verbatim>\<open>src/mp/shared_buffer.h\<close> and \<^verbatim>\<open>shared_buffer_impl.h\<close>: an arena that hands out regions of
  a counted block. A region taken with a reference stays as it is while that reference lives: the
  arena rewinds only a block it holds alone. The counts and the heap are those of \<open>Heap\<close>.

  A \<open>reference\<close> is its pointer, \<open>None\<close> for \<open>NULL\<close>; a region is its block and its offset.
\<close>

record shared_buffer =
  shb_buffer :: addr
  shb_used :: nat
  shb_free :: nat

type_synonym shb_state = "heap \<times> shared_buffer"

section \<open>References\<close>

definition shref_new :: "heap \<Rightarrow> addr \<Rightarrow> (heap \<times> addr option) option" where
  "shref_new h p = map_option (\<lambda>h'. (h', Some p)) (incr_count h p)"

text \<open>The copy of an empty reference increments a count through \<open>NULL\<close>.\<close>

definition shref_copy :: "heap \<Rightarrow> addr option \<Rightarrow> (heap \<times> addr option) option" where
  "shref_copy h o_m =
    (case o_m of None \<Rightarrow> None | Some d \<Rightarrow> map_option (\<lambda>h'. (h', Some d)) (incr_count h d))"

definition shref_clear :: "heap \<Rightarrow> addr option \<Rightarrow> (heap \<times> addr option) option" where
  "shref_clear h m =
    (case m of None \<Rightarrow> Some (h, None) | Some d \<Rightarrow> map_option (\<lambda>h'. (h', None)) (decr_count h d))"

definition shref_reset :: "heap \<Rightarrow> addr option \<Rightarrow> addr \<Rightarrow> (heap \<times> addr option) option" where
  "shref_reset h m p =
    (case shref_clear h m of
       None \<Rightarrow> None
     | Some (h1, _) \<Rightarrow> map_option (\<lambda>h2. (h2, Some p)) (incr_count h1 p))"

definition shref_swap :: "addr option \<Rightarrow> addr option \<Rightarrow> addr option \<times> addr option" where
  "shref_swap m x = (x, m)"

section \<open>The arena\<close>

definition shared_buffer_init :: "(nat \<Rightarrow> bool) \<Rightarrow> heap \<Rightarrow> nat \<Rightarrow> shb_state option" where
  "shared_buffer_init grants h init_size =
    (let initsz = max init_size sizeof_count in
     if \<not> grants initsz then None
     else
       let (d, h1) = heap_malloc h initsz in
       map_option
         (\<lambda>h2. (h2, \<lparr>shb_buffer = d, shb_used = sizeof_count, shb_free = sz_sub initsz sizeof_count\<rparr>))
         (init_count h1 d))"

definition shared_buffer_destroy :: "shb_state \<Rightarrow> heap option" where
  "shared_buffer_destroy s = (case s of (h, b) \<Rightarrow> decr_count h (shb_buffer b))"

definition shb_capacity :: "shared_buffer \<Rightarrow> nat" where "shb_capacity b = shb_free b"

definition shb_expand :: "(nat \<Rightarrow> bool) \<Rightarrow> shb_state \<Rightarrow> nat \<Rightarrow> nat \<Rightarrow> shb_state outcome" where
  "shb_expand grants s len init_size =
    (case s of (h, b) \<Rightarrow>
     if shb_used b = sizeof_count then
       (case grow (sz_mul (sz_add (shb_used b) (shb_free b)) 2) (sz_add len (shb_used b)) of
          None \<Rightarrow> Diverge
        | Some next_size \<Rightarrow>
            if \<not> grants next_size then Throw (h, b)
            else case heap_realloc h (shb_buffer b) next_size of
              None \<Rightarrow> Fault
            | Some (tmp, h1) \<Rightarrow>
                Done (h1, b\<lparr>shb_buffer := tmp, shb_free := sz_sub next_size (shb_used b)\<rparr>))
     else
       let initsz = max init_size sizeof_count in
       case grow initsz (sz_add len sizeof_count) of
         None \<Rightarrow> Diverge
       | Some next_size \<Rightarrow>
           if \<not> grants next_size then Throw (h, b)
           else
             let (tmp, h1) = heap_malloc h next_size in
             case init_count h1 tmp of
               None \<Rightarrow> Fault
             | Some h2 \<Rightarrow>
                 case decr_count h2 (shb_buffer b) of
                   None \<Rightarrow> Fault
                 | Some h3 \<Rightarrow>
                     Done (h3, b\<lparr>shb_buffer := tmp, shb_used := sizeof_count,
                                shb_free := sz_sub next_size sizeof_count\<rparr>))"

definition shb_reserve :: "(nat \<Rightarrow> bool) \<Rightarrow> shb_state \<Rightarrow> nat \<Rightarrow> nat \<Rightarrow> shb_state outcome" where
  "shb_reserve grants s len init_size =
    (case s of (h, b) \<Rightarrow>
     case get_count h (shb_buffer b) of
       None \<Rightarrow> Fault
     | Some c \<Rightarrow>
         let b1 =
           (if c = 1 then
              b\<lparr>shb_free := sz_add (shb_free b) (sz_sub (shb_used b) sizeof_count),
                shb_used := sizeof_count\<rparr>
            else b)
         in
         if shb_free b1 < len then shb_expand grants (h, b1) len init_size else Done (h, b1))"

text \<open>
  \<open>allocate\<close>, with \<open>result_ref\<close> the reference it is to set, if any; the result is the state, the
  region and that reference.
\<close>

definition shb_allocate ::
    "(nat \<Rightarrow> bool) \<Rightarrow> shb_state \<Rightarrow> nat \<Rightarrow> addr option option \<Rightarrow> nat \<Rightarrow>
     (shb_state \<times> (addr \<times> nat) \<times> addr option option) outcome" where
  "shb_allocate grants s len result_ref init_size =
    (case shb_reserve grants s len init_size of
       Fault \<Rightarrow> Fault
     | Diverge \<Rightarrow> Diverge
     | Throw s1 \<Rightarrow> Throw (s1, (0, 0), result_ref)
     | Done (h, b) \<Rightarrow>
         let tmp = (shb_buffer b, shb_used b);
             b1 = b\<lparr>shb_used := sz_add (shb_used b) len, shb_free := sz_sub (shb_free b) len\<rparr>
         in case result_ref of
              None \<Rightarrow> Done ((h, b1), tmp, None)
            | Some m \<Rightarrow>
                (case shref_reset h m (shb_buffer b) of
                   None \<Rightarrow> Fault
                 | Some (h', m') \<Rightarrow> Done ((h', b1), tmp, Some m')))"

section \<open>Correctness\<close>

definition shb_inv :: "shb_state \<Rightarrow> bool" where
  "shb_inv s =
    (case s of (h, b) \<Rightarrow> heap_ok h \<and>
       (\<exists>blk. live h (shb_buffer b) = Some blk \<and> length (bytes blk) = shb_used b + shb_free b) \<and>
       sizeof_count \<le> shb_used b \<and> shb_used b + shb_free b < 2 ^ 63)"

lemma shb_invE:
  assumes "shb_inv (h, b)"
  obtains blk where "heap_ok h" "live h (shb_buffer b) = Some blk"
    "length (bytes blk) = shb_used b + shb_free b" "4 \<le> shb_used b" "shb_used b + shb_free b < 2 ^ 63"
    "shb_buffer b \<noteq> fresh h"
  using assms heap_ok_live by (fastforce simp: shb_inv_def)

text \<open>
  Expanding makes room. A block that holds regions (\<open>m_used\<close> beyond the count) is not touched: it is
  given back to those who hold it, and stays live unless the arena was its only holder.
\<close>

lemma shb_expand_in_place:
  assumes inv: "shb_inv (h, b)" and alloc: "allocator_ok grants" and len: "len \<le> 2 ^ 62" and used: "shb_used b = 4"
  shows "(\<exists>h' b'. shb_expand grants (h, b) len init = Done (h', b') \<and> shb_inv (h', b') \<and> len \<le> shb_free b'
        \<and> shb_buffer b' = fresh h
        \<and> (\<forall>d. d \<noteq> shb_buffer b \<longrightarrow> d \<noteq> fresh h \<longrightarrow> live h' d = live h d) \<and> live h' (shb_buffer b) = None)
    \<or> shb_expand grants (h, b) len init = Throw (h, b)"
proof -
  from inv obtain blk where b: "heap_ok h" "live h (shb_buffer b) = Some blk"
    "length (bytes blk) = shb_used b + shb_free b" "4 \<le> shb_used b" "shb_used b + shb_free b < 2 ^ 63"
    "shb_buffer b \<noteq> fresh h"
    by (rule shb_invE)
  obtain n where n: "grow ((shb_used b + shb_free b) * 2) (len + shb_used b) = Some n"
    "len + shb_used b \<le> n" "(shb_used b + shb_free b) * 2 \<le> n"
    using grow_terminates [of "(shb_used b + shb_free b) * 2" "len + shb_used b"] b(4,5) len used by auto
  have sz: "sz_mul (sz_add (shb_used b) (shb_free b)) 2 = (shb_used b + shb_free b) * 2"
    "sz_add len (shb_used b) = len + shb_used b"
    using b(5) len used by simp_all
  show ?thesis
  proof (cases "grants n")
    case True
    then have "n < 2 ^ 63" by (rule allocator_okD [OF alloc])
    with True used n b sz show ?thesis
      by (auto simp: shb_expand_def heap_realloc_def shb_inv_def heap_ok_def)
  next
    case False
    with used n sz show ?thesis by (simp add: shb_expand_def)
  qed
qed

text \<open>Otherwise the arena moves to a new block and gives its share of the old one back.\<close>

lemma shb_new_block:
  assumes inv: "shb_inv (h, b)" and blk: "live h (shb_buffer b) = Some blk" and n: "4 \<le> n" "n < 2 ^ 63"
    and h2: "h2 = \<lparr>live = (live h)(fresh h \<mapsto> \<lparr>count = 1, bytes = replicate n None\<rparr>), fresh = Suc (fresh h)\<rparr>"
  shows "\<exists>h3. decr_count h2 (shb_buffer b) = Some h3
    \<and> shb_inv (h3, b\<lparr>shb_buffer := fresh h, shb_used := 4, shb_free := n - 4\<rparr>)
    \<and> (\<forall>d. d \<noteq> shb_buffer b \<longrightarrow> d \<noteq> fresh h \<longrightarrow> live h3 d = live h d)
    \<and> (count blk \<noteq> 1 \<longrightarrow> live h3 (shb_buffer b) = Some (blk\<lparr>count := count blk - 1\<rparr>))"
proof -
  from inv have b: "heap_ok h" "shb_buffer b \<noteq> fresh h" by (auto elim!: shb_invE)
  have old: "live h2 (shb_buffer b) = Some blk" using b blk by (simp add: h2)
  then obtain h3 where h3: "decr_count h2 (shb_buffer b) = Some h3" "fresh h3 = fresh h2"
    by (cases "count blk = 1") (simp_all add: decr_count_def Let_def)
  have other: "live h3 d = live h2 d" if "d \<noteq> shb_buffer b" for d
    using decr_count_other [OF h3(1) that] .
  have "live h3 (fresh h) = Some \<lparr>count = 1, bytes = replicate n None\<rparr>"
    using other [of "fresh h"] b(2) by (simp add: h2)
  moreover have "heap_ok h3"
    using b(1) other h3(2) heap_ok_live [OF b(1) blk] by (auto simp: heap_ok_def h2)
  ultimately have "shb_inv (h3, b\<lparr>shb_buffer := fresh h, shb_used := 4, shb_free := n - 4\<rparr>)"
    using n by (simp add: shb_inv_def)
  moreover have "live h3 d = live h d" if "d \<noteq> shb_buffer b" "d \<noteq> fresh h" for d
    using other [OF that(1)] that(2) by (simp add: h2)
  moreover have "live h3 (shb_buffer b) = Some (blk\<lparr>count := count blk - 1\<rparr>)" if "count blk \<noteq> 1"
    using decr_count_shared [OF old that] h3(1) by simp
  ultimately show ?thesis using h3(1) by blast
qed

lemma shb_expand_ok:
  assumes inv: "shb_inv (h, b)" and alloc: "allocator_ok grants" and len: "len \<le> 2 ^ 62" "init \<le> 2 ^ 62"
  shows "(\<exists>h' b'. shb_expand grants (h, b) len init = Done (h', b') \<and> shb_inv (h', b') \<and> len \<le> shb_free b'
        \<and> shb_buffer b' = fresh h
        \<and> (\<forall>d. d \<noteq> shb_buffer b \<longrightarrow> d \<noteq> fresh h \<longrightarrow> live h' d = live h d)
        \<and> (shb_used b \<noteq> 4 \<longrightarrow> (\<forall>blk. live h (shb_buffer b) = Some blk \<longrightarrow> count blk \<noteq> 1 \<longrightarrow>
             live h' (shb_buffer b) = Some (blk\<lparr>count := count blk - 1\<rparr>)))
        \<and> (shb_used b = 4 \<longrightarrow> live h' (shb_buffer b) = None))
    \<or> shb_expand grants (h, b) len init = Throw (h, b)"
proof (cases "shb_used b = 4")
  case True
  from shb_expand_in_place [OF inv alloc len(1) True, of init] True show ?thesis by auto
next
  case False
  from inv obtain blk where blk: "live h (shb_buffer b) = Some blk" by (auto elim!: shb_invE)
  let ?i = "max init 4"
  have "0 < ?i" "?i < 2 ^ 64" "len + 4 \<le> 2 ^ 63" using len by simp_all
  with grow_terminates [of ?i "len + 4"] obtain n where n: "grow ?i (len + 4) = Some n" "len + 4 \<le> n" by blast
  have sz: "sz_add len 4 = len + 4" using len(1) by simp
  show ?thesis
  proof (cases "grants n")
    case True
    then have n63: "n < 2 ^ 63" by (rule allocator_okD [OF alloc])
    from shb_new_block [OF inv blk _ n63 refl] n(2) obtain h3 where h3:
      "decr_count \<lparr>live = (live h)(fresh h \<mapsto> \<lparr>count = 1, bytes = replicate n None\<rparr>), fresh = Suc (fresh h)\<rparr> (shb_buffer b) = Some h3"
      "shb_inv (h3, b\<lparr>shb_buffer := fresh h, shb_used := 4, shb_free := n - 4\<rparr>)"
      "\<forall>d. d \<noteq> shb_buffer b \<longrightarrow> d \<noteq> fresh h \<longrightarrow> live h3 d = live h d"
      "count blk \<noteq> 1 \<longrightarrow> live h3 (shb_buffer b) = Some (blk\<lparr>count := count blk - 1\<rparr>)" by auto
    have "shb_expand grants (h, b) len init = Done (h3, b\<lparr>shb_buffer := fresh h, shb_used := 4, shb_free := n - 4\<rparr>)"
      using False True n sz h3(1) n63 by (simp add: shb_expand_def Let_def heap_malloc_def init_count_def)
    with h3(2-4) n(2) False blk show ?thesis by auto
  next
    case refused: False
    with False n sz show ?thesis by (simp add: shb_expand_def Let_def)
  qed
qed

text \<open>Reserving keeps the invariant and makes room; a shared block is neither rewound nor changed.\<close>

lemma shb_reserve_ok:
  assumes inv: "shb_inv (h, b)" and alloc: "allocator_ok grants" and len: "len \<le> 2 ^ 62" "init \<le> 2 ^ 62"
    and held: "live h (shb_buffer b) = Some blk"
  shows "(\<exists>h' b'. shb_reserve grants (h, b) len init = Done (h', b') \<and> shb_inv (h', b') \<and> len \<le> shb_free b'
        \<and> (count blk \<noteq> 1 \<longrightarrow> shb_used b \<noteq> 4 \<longrightarrow>
            (h' = h \<and> b' = b)
          \<or> (shb_buffer b' \<noteq> shb_buffer b \<and> live h' (shb_buffer b) = Some (blk\<lparr>count := count blk - 1\<rparr>))))
    \<or> (\<exists>s'. shb_reserve grants (h, b) len init = Throw s')"
proof -
  define b1 where "b1 = (if count blk = 1 then
      b\<lparr>shb_free := sz_add (shb_free b) (sz_sub (shb_used b) 4), shb_used := 4\<rparr> else b)"
  from inv obtain "heap_ok h" "length (bytes blk) = shb_used b + shb_free b" "4 \<le> shb_used b"
    "shb_used b + shb_free b < 2 ^ 63" "shb_buffer b \<noteq> fresh h"
    using held by (auto elim: shb_invE)
  then have inv1: "shb_inv (h, b1)" and buf: "shb_buffer b1 = shb_buffer b"
    using held by (auto simp: shb_inv_def b1_def)
  have e: "shb_reserve grants (h, b) len init =
      (if shb_free b1 < len then shb_expand grants (h, b1) len init else Done (h, b1))"
    by (simp add: shb_reserve_def get_count_def held b1_def Let_def)
  have same: "count blk \<noteq> 1 \<Longrightarrow> b1 = b" by (simp add: b1_def)
  show ?thesis
  proof (cases "shb_free b1 < len")
    case False
    with e inv1 same show ?thesis by auto
  next
    case True
    from shb_expand_ok [OF inv1 alloc len] show ?thesis
    proof
      assume "shb_expand grants (h, b1) len init = Throw (h, b1)"
      with e True show ?thesis by auto
    next
      assume "\<exists>h' b'. shb_expand grants (h, b1) len init = Done (h', b') \<and> shb_inv (h', b') \<and> len \<le> shb_free b'
        \<and> shb_buffer b' = fresh h
        \<and> (\<forall>d. d \<noteq> shb_buffer b1 \<longrightarrow> d \<noteq> fresh h \<longrightarrow> live h' d = live h d)
        \<and> (shb_used b1 \<noteq> 4 \<longrightarrow> (\<forall>blk. live h (shb_buffer b1) = Some blk \<longrightarrow> count blk \<noteq> 1 \<longrightarrow>
             live h' (shb_buffer b1) = Some (blk\<lparr>count := count blk - 1\<rparr>)))
        \<and> (shb_used b1 = 4 \<longrightarrow> live h' (shb_buffer b1) = None)"
      then obtain h' b' where x: "shb_expand grants (h, b1) len init = Done (h', b')" "shb_inv (h', b')"
        "len \<le> shb_free b'" "shb_buffer b' = fresh h"
        "shb_used b1 \<noteq> 4 \<Longrightarrow> count blk \<noteq> 1 \<Longrightarrow> live h' (shb_buffer b) = Some (blk\<lparr>count := count blk - 1\<rparr>)"
        using held buf by auto
      with e True \<open>shb_buffer b \<noteq> fresh h\<close> same show ?thesis by auto
    qed
  qed
qed


text \<open>
  An empty region does not protect its block. When the only thing taken from the arena so far is a
  reference to it without bytes (\<open>m_used\<close> still at the count), expanding reallocates the block under
  that reference: the block it points to is gone.
\<close>

theorem shb_expand_dangles:
  assumes inv: "shb_inv (h, b)" and alloc: "allocator_ok grants" and len: "len \<le> 2 ^ 62" "init \<le> 2 ^ 62"
    and held: "live h (shb_buffer b) = Some blk" "count blk \<noteq> 1" "shb_used b = 4"
    and full: "shb_free b < len"
    and res: "shb_reserve grants (h, b) len init = Done (h', b')"
  shows "live h' (shb_buffer b) = None"
proof -
  from res held full have "shb_expand grants (h, b) len init = Done (h', b')"
    by (simp add: shb_reserve_def get_count_def Let_def)
  with shb_expand_ok [OF inv alloc len] held(3) show ?thesis by auto
qed

section \<open>A concrete arena\<close>

definition sample_arena :: "nat \<Rightarrow> shb_state" where
  "sample_arena used =
    (\<lparr>live = [0 \<mapsto> \<lparr>count = 2, bytes = replicate 8 None\<rparr>], fresh = 1\<rparr>,
     \<lparr>shb_buffer = 0, shb_used = used, shb_free = 8 - used\<rparr>)"

lemma sample_arena_inv: "4 \<le> used \<Longrightarrow> used \<le> 8 \<Longrightarrow> shb_inv (sample_arena used)"
  by (simp add: sample_arena_def shb_inv_def heap_ok_def)


theorem shb_expand_dangles_witness:
  "\<exists>h' b'. shb_reserve granting (sample_arena 4) 16 16 = Done (h', b') \<and> live h' 0 = None"
proof -
  let ?h = "fst (sample_arena 4)" and ?b = "snd (sample_arena 4)"
  have inv: "shb_inv (?h, ?b)" using sample_arena_inv [of 4] by simp
  have "grow 16 20 = Some 32" by (simp add: grow.simps [of 16] grow_enough)
  then have "\<exists>h' b'. shb_reserve granting (?h, ?b) 16 16 = Done (h', b')"
    by (simp add: shb_reserve_def shb_expand_def sample_arena_def get_count_def granting_def
        heap_realloc_def Let_def)
  then obtain h' b' where res: "shb_reserve granting (?h, ?b) 16 16 = Done (h', b')" by blast
  from shb_expand_dangles [OF inv granting_ok _ _ _ _ _ _ res] have "live h' 0 = None"
    by (simp add: sample_arena_def)
  with res show ?thesis by auto
qed

end
