(* ===== verification/Source_Pool.thy ===== *)
theory Source_Pool
  imports Heap
begin

text \<open>
  \<^verbatim>\<open>src/mp/source.h\<close> and \<^verbatim>\<open>source_impl.h\<close>: a pool that cuts objects from chunks. A chunk
  counts its live objects (\<open>lots\<close>) and is reused as a whole when the last of them is freed. Before
  each object lies a \<open>data_t\<close> that points back to its chunk.

  The circular lists behind the sentinels \<open>m_free\<close> and \<open>m_used\<close> are the lists of their chunks from
  \<open>next\<close> on; splicing is removal from the list a chunk is in and insertion at the front. A pointer
  is its chunk and the offset from it. \<open>est\<close> and \<open>lots\<close> are the template parameters.
\<close>

definition sizeof_chunk :: nat where [simp]: "sizeof_chunk = 40"
definition sizeof_data :: nat where [simp]: "sizeof_data = 8"

record chunk_t =
  c_free :: nat
  c_lots :: nat
  c_size :: nat

record source =
  s_chunks :: "addr \<rightharpoonup> chunk_t"
  s_free :: "addr list"
  s_used :: "addr list"
  s_owner :: "addr \<times> nat \<rightharpoonup> addr"
  s_next :: addr

text \<open>The constructor allocates the two sentinels.\<close>

definition source_new :: source where
  "source_new = \<lparr>s_chunks = (\<lambda>_. None), s_free = [], s_used = [], s_owner = (\<lambda>_. None), s_next = 0\<rparr>"

definition splice_to_used :: "addr \<Rightarrow> source \<Rightarrow> source" where
  "splice_to_used c s = s\<lparr>s_free := removeAll c (s_free s), s_used := c # removeAll c (s_used s)\<rparr>"

definition splice_to_free :: "addr \<Rightarrow> source \<Rightarrow> source" where
  "splice_to_free c s =
    s\<lparr>s_used := removeAll c (s_used s), s_free := c # removeAll c (s_free s),
      s_chunks := (s_chunks s)(c := map_option (\<lambda>k. k\<lparr>c_free := c_size k\<rparr>) (s_chunks s c))\<rparr>"

definition default_chunk_size :: "nat \<Rightarrow> nat \<Rightarrow> nat" where
  "default_chunk_size est lots = sz_mul (sz_add est sizeof_chunk) lots"

text \<open>The chunk goes to the used list when it has no room for another object of the usual size.\<close>

definition expand_free ::
    "nat \<Rightarrow> nat \<Rightarrow> (nat \<Rightarrow> bool) \<Rightarrow> nat \<Rightarrow> source \<Rightarrow> (source \<times> addr \<times> nat) outcome" where
  "expand_free est lots grants req s =
    (let dflt = default_chunk_size est lots;
         chunk_size = (if dflt < req then req else dflt);
         bytes = sz_add sizeof_chunk chunk_size
     in
     if \<not> grants bytes then Throw (s, 0, 0)
     else if bytes < sizeof_chunk + sizeof_data then Fault
     else
       let n = s_next s;
           k = \<lparr>c_free = sz_sub chunk_size req, c_lots = 1, c_size = chunk_size\<rparr>;
           s1 = s\<lparr>s_chunks := (s_chunks s)(n \<mapsto> k), s_next := Suc n,
                  s_owner := (s_owner s)((n, sizeof_chunk + sizeof_data) \<mapsto> n)\<rparr>;
           s2 = (if c_free k < sz_add est sizeof_chunk then s1\<lparr>s_used := n # s_used s1\<rparr>
                 else s1\<lparr>s_free := n # s_free s1\<rparr>)
       in Done (s2, n, sizeof_chunk + sizeof_data))"

text \<open>The first chunk of the free list with room, from \<open>m_free->next\<close> on.\<close>

definition has_room :: "nat \<Rightarrow> source \<Rightarrow> addr \<Rightarrow> bool" where
  "has_room req s c \<longleftrightarrow> (case s_chunks s c of None \<Rightarrow> False | Some k \<Rightarrow> req \<le> c_free k)"

definition source_malloc ::
    "nat \<Rightarrow> nat \<Rightarrow> (nat \<Rightarrow> bool) \<Rightarrow> nat \<Rightarrow> source \<Rightarrow> (source \<times> addr \<times> nat) outcome" where
  "source_malloc est lots grants sz s =
    (let req = sz_add sz sizeof_data in
     case List.find (has_room req s) (s_free s) of
       None \<Rightarrow> expand_free est lots grants req s
     | Some f \<Rightarrow>
         (case s_chunks s f of
            None \<Rightarrow> Fault
          | Some k \<Rightarrow>
              let ptr = sizeof_chunk + c_size k - c_free k + sizeof_data;
                  k' = k\<lparr>c_lots := c_lots k + 1, c_free := c_free k - req\<rparr>;
                  s1 = s\<lparr>s_chunks := (s_chunks s)(f \<mapsto> k'),
                         s_owner := (s_owner s)((f, ptr) \<mapsto> f)\<rparr>;
                  s2 = (if c_free k' < sz_add est sizeof_chunk then splice_to_used f s1 else s1)
              in Done (s2, f, ptr)))"

definition source_free :: "addr \<times> nat \<Rightarrow> source \<Rightarrow> source outcome" where
  "source_free x s =
    (case s_owner s x of
       None \<Rightarrow> Fault
     | Some c \<Rightarrow>
         (case s_chunks s c of
            None \<Rightarrow> Fault
          | Some k \<Rightarrow>
              let k' = k\<lparr>c_lots := sz_sub (c_lots k) 1\<rparr>;
                  s1 = s\<lparr>s_chunks := (s_chunks s)(c \<mapsto> k')\<rparr>
              in Done (if c_lots k' = 0 then splice_to_free c s1 else s1)))"

text \<open>The blocks the destructor frees, walking both rings; the sentinels follow.\<close>

definition source_destroy :: "source \<Rightarrow> addr list" where
  "source_destroy s = s_free s @ s_used s"

section \<open>Invariant\<close>

text \<open>
  \<open>L\<close> is the set of the live objects: chunk, offset and length. Every chunk is in exactly one list;
  it counts its objects; they lie, each with its \<open>data_t\<close>, in the part that was cut off, and do not
  overlap; a chunk on the used list has objects, a chunk without objects has all its space free.
\<close>

type_synonym object = "addr \<times> nat \<times> nat"

definition objects_of :: "addr \<Rightarrow> object set \<Rightarrow> object set" where
  "objects_of c L = {x \<in> L. fst x = c}"

definition apart :: "object \<Rightarrow> object \<Rightarrow> bool" where
  "apart x y \<longleftrightarrow> fst x \<noteq> fst y \<or> fst (snd x) + snd (snd x) + 8 \<le> fst (snd y)
     \<or> fst (snd y) + snd (snd y) + 8 \<le> fst (snd x)"

definition chunk_inv :: "addr \<Rightarrow> chunk_t \<Rightarrow> object set \<Rightarrow> bool" where
  "chunk_inv c k L \<longleftrightarrow> c_free k \<le> c_size k \<and> c_size k < 2 ^ 63
     \<and> c_lots k = card (objects_of c L)
     \<and> (\<forall>(d, off, n) \<in> objects_of c L. 48 \<le> off \<and> off + n \<le> 40 + c_size k - c_free k)
     \<and> (objects_of c L = {} \<longrightarrow> c_free k = c_size k)"

definition source_inv :: "source \<Rightarrow> object set \<Rightarrow> bool" where
  "source_inv s L \<longleftrightarrow> finite L \<and> card L < 2 ^ 63
     \<and> distinct (s_free s @ s_used s) \<and> set (s_free s @ s_used s) = dom (s_chunks s)
     \<and> (\<forall>c \<in> dom (s_chunks s). c < s_next s)
     \<and> (\<forall>c k. s_chunks s c = Some k \<longrightarrow> chunk_inv c k L)
     \<and> (\<forall>(c, off, n) \<in> L. s_chunks s c \<noteq> None \<and> s_owner s (c, off) = Some c)
     \<and> (\<forall>x \<in> L. \<forall>y \<in> L. x \<noteq> y \<longrightarrow> apart x y)
     \<and> (\<forall>c \<in> set (s_used s). objects_of c L \<noteq> {})"

lemma source_new_inv: "source_inv source_new {}"
  by (simp add: source_inv_def source_new_def)

lemma objects_of_insert:
  "objects_of c (insert (d, x) L) = (if d = c then insert (d, x) (objects_of c L) else objects_of c L)"
  by (auto simp: objects_of_def)

lemma objects_of_remove:
  "objects_of c (L - {(d, x)}) = (if d = c then objects_of c L - {(d, x)} else objects_of c L)"
  by (auto simp: objects_of_def)

lemma finite_objects: "finite L \<Longrightarrow> finite (objects_of c L)"
  by (simp add: objects_of_def)

lemma card_objects: "finite L \<Longrightarrow> card (objects_of c L) \<le> card L"
  by (auto simp: objects_of_def intro: card_mono)

text \<open>A new object behind all others of its chunk.\<close>

lemma add_object:
  assumes "source_inv s L" and "s_chunks s c = Some k" and "n + 8 \<le> c_free k"
  defines "off \<equiv> 48 + c_size k - c_free k"
  shows "(c, off, n) \<notin> L"
    and "chunk_inv c (k\<lparr>c_lots := c_lots k + 1, c_free := c_free k - (n + 8)\<rparr>) (insert (c, off, n) L)"
    and "d \<noteq> c \<Longrightarrow> s_chunks s d = Some k' \<Longrightarrow> chunk_inv d k' (insert (c, off, n) L)"
    and "x \<in> L \<Longrightarrow> apart x (c, off, n) \<and> apart (c, off, n) x"
proof -
  have k: "chunk_inv c k L" and fin: "finite L" using assms(1,2) by (auto simp: source_inv_def)
  have below: "fst (snd x) + snd (snd x) \<le> 40 + c_size k - c_free k" if "x \<in> L" "fst x = c" for x
    using k that by (cases x) (auto simp: chunk_inv_def objects_of_def)
  have fs: "c_free k \<le> c_size k" using k by (simp add: chunk_inv_def)
  show new: "(c, off, n) \<notin> L"
    using below [of "(c, off, n)"] fs by (auto simp: off_def)
  show "x \<in> L \<Longrightarrow> apart x (c, off, n) \<and> apart (c, off, n) x"
    using below [of x] fs by (auto simp: apart_def off_def)
  show "d \<noteq> c \<Longrightarrow> s_chunks s d = Some k' \<Longrightarrow> chunk_inv d k' (insert (c, off, n) L)"
    using assms(1) by (auto simp: source_inv_def chunk_inv_def objects_of_insert)
  have "card (insert (c, off, n) (objects_of c L)) = card (objects_of c L) + 1"
    using new finite_objects [OF fin] by (simp add: objects_of_def)
  then show "chunk_inv c (k\<lparr>c_lots := c_lots k + 1, c_free := c_free k - (n + 8)\<rparr>) (insert (c, off, n) L)"
    using k assms(3) fs by (fastforce simp: chunk_inv_def objects_of_insert off_def)
qed


text \<open>Putting an object into a chunk of any of the two lists, or into a new one.\<close>

lemma placed:
  assumes inv: "source_inv s L" and few: "card L + 1 < 2 ^ 63"
    and k': "chunk_inv c k' (insert (c, off, n) L)"
    and away: "\<And>x. x \<in> L \<Longrightarrow> apart x (c, off, n) \<and> apart (c, off, n) x"
    and lists: "distinct (fr @ us)" "set (fr @ us) = insert c (dom (s_chunks s))"
      "set us \<subseteq> insert c (set (s_used s))"
    and nx: "c < nx" "s_next s \<le> nx"
  shows "source_inv \<lparr>s_chunks = (s_chunks s)(c \<mapsto> k'), s_free = fr, s_used = us,
    s_owner = (s_owner s)((c, off) \<mapsto> c), s_next = nx\<rparr> (insert (c, off, n) L)"
proof -
  have fin: "finite L" and own: "\<forall>(d, i, m) \<in> L. s_chunks s d \<noteq> None \<and> s_owner s (d, i) = Some d"
    and ap: "\<forall>x \<in> L. \<forall>y \<in> L. x \<noteq> y \<longrightarrow> apart x y"
    and used: "\<forall>d \<in> set (s_used s). objects_of d L \<noteq> {}"
    and lt: "\<forall>d \<in> dom (s_chunks s). d < s_next s"
    and ch: "\<forall>d k. s_chunks s d = Some k \<longrightarrow> chunk_inv d k L"
    using inv by (auto simp: source_inv_def)
  have "card (insert (c, off, n) L) < 2 ^ 63" using few fin by (simp add: card_insert_if)
  moreover have "chunk_inv d k (insert (c, off, n) L)"
    if "((s_chunks s)(c \<mapsto> k')) d = Some k" for d k
    using that ch k' by (auto simp: chunk_inv_def objects_of_insert split: if_splits)
  moreover have "\<forall>d \<in> set us. objects_of d (insert (c, off, n) L) \<noteq> {}"
    using lists(3) used by (auto simp: objects_of_insert)
  moreover have "\<forall>x \<in> insert (c, off, n) L. \<forall>y \<in> insert (c, off, n) L. x \<noteq> y \<longrightarrow> apart x y"
    using ap away by blast
  moreover have "\<forall>d \<in> insert c (dom (s_chunks s)). d < nx"
  proof (rule ballI)
    fix d assume "d \<in> insert c (dom (s_chunks s))"
    then consider "d = c" | "d < s_next s" using lt by blast
    then show "d < nx" using nx by cases simp_all
  qed
  moreover have "\<forall>(d, i, m) \<in> insert (c, off, n) L. ((s_chunks s)(c \<mapsto> k')) d \<noteq> None
      \<and> ((s_owner s)((c, off) \<mapsto> c)) (d, i) = Some d" using own by auto
  ultimately show ?thesis using lists fin by (simp add: source_inv_def)
qed

lemma expand_free_places:
  assumes inv: "source_inv s L" and few: "card L + 1 < 2 ^ 63"
    and sizes: "(est + 40) * lots < 2 ^ 62" "n < 2 ^ 62" "0 < lots"
    and alloc: "expand_free est lots grants (n + 8) s = Done (s', c, off)"
  shows "source_inv s' (insert (c, off, n) L)" "(c, off, n) \<notin> L"
    "\<And>x. x \<in> L \<Longrightarrow> apart x (c, off, n)"
proof -
  let ?cs = "max ((est + 40) * lots) (n + 8)"
  let ?k = "\<lparr>c_free = ?cs - (n + 8), c_lots = 1, c_size = ?cs\<rparr>"
  have est: "est + 40 < 2 ^ 62"
    using sizes(1,3) by (metis le_less_trans mult.commute mult_le_mono1 nat_mult_1 One_nat_def Suc_leI)
  have d: "default_chunk_size est lots = (est + 40) * lots"
    using sizes(1) est by (simp add: default_chunk_size_def)
  have cs: "?cs < 2 ^ 63" "n + 8 \<le> ?cs" using sizes by auto
  have if_max: "(if (est + 40) * lots < n + 8 then n + 8 else (est + 40) * lots) = ?cs" by (simp add: max_def)
  define s0 where "s0 = s_next s"
  from alloc have off: "off = 48" and c: "c = s0"
    and s': "s' = \<lparr>s_chunks = (s_chunks s)(c \<mapsto> ?k),
      s_free = (if ?cs - (n + 8) < est + 40 then s_free s else c # s_free s),
      s_used = (if ?cs - (n + 8) < est + 40 then c # s_used s else s_used s),
      s_owner = (s_owner s)((c, off) \<mapsto> c), s_next = Suc (s_next s)\<rparr>"
    using cs est by (auto simp: expand_free_def d if_max Let_def s0_def split: if_splits)
  have fresh: "s_chunks s c = None" using inv c by (force simp: source_inv_def s0_def)
  then have none: "objects_of c L = {}" using inv by (fastforce simp: source_inv_def objects_of_def)
  then show "(c, off, n) \<notin> L" by (auto simp: objects_of_def)
  have away: "apart x (c, off, n) \<and> apart (c, off, n) x" if "x \<in> L" for x
    using none that by (cases x) (auto simp: objects_of_def apart_def)
  then show "x \<in> L \<Longrightarrow> apart x (c, off, n)" for x by blast
  have lists: "distinct (s_free s @ s_used s)" "set (s_free s @ s_used s) = dom (s_chunks s)"
    using inv by (auto simp: source_inv_def)
  then have c_new: "c \<notin> set (s_free s @ s_used s)" using fresh by auto
  have k': "chunk_inv c ?k (insert (c, off, n) L)"
    using cs none off by (simp add: chunk_inv_def objects_of_insert)
  show "source_inv s' (insert (c, off, n) L)"
    unfolding s' by (rule placed [OF inv few k' away]) (use lists c_new c s0_def in auto)
qed

lemma source_malloc_places:
  assumes inv: "source_inv s L" and few: "card L + 1 < 2 ^ 63"
    and sizes: "(est + 40) * lots < 2 ^ 62" "n < 2 ^ 62" "0 < lots"
    and alloc: "source_malloc est lots grants n s = Done (s', c, off)"
  shows "source_inv s' (insert (c, off, n) L) \<and> (c, off, n) \<notin> L \<and> (\<forall>x \<in> L. apart x (c, off, n))"
proof (cases "List.find (has_room (n + 8) s) (s_free s)")
  case None
  then have "expand_free est lots grants (n + 8) s = Done (s', c, off)"
    using alloc sizes(2) by (simp add: source_malloc_def Let_def)
  from expand_free_places [OF inv few sizes this] show ?thesis by blast
next
  case (Some f)
  then have "has_room (n + 8) s f" and fin: "f \<in> set (s_free s)" by (auto simp: find_Some_iff)
  then obtain k where k: "s_chunks s f = Some k" "n + 8 \<le> c_free k"
    by (auto simp: has_room_def split: option.splits)
  define k' where "k' = k\<lparr>c_lots := c_lots k + 1, c_free := c_free k - (n + 8)\<rparr>"
  define full where "full \<longleftrightarrow> c_free k' < sz_add est sizeof_chunk"
  have fs: "c_free k \<le> c_size k" using inv k(1) by (auto simp: source_inv_def chunk_inv_def)
  from alloc Some k sizes(2) fs have c: "c = f" "off = 48 + c_size k - c_free k"
    and s': "s' = \<lparr>s_chunks = (s_chunks s)(c \<mapsto> k'),
      s_free = (if full then removeAll c (s_free s) else s_free s),
      s_used = (if full then c # removeAll c (s_used s) else s_used s),
      s_owner = (s_owner s)((c, off) \<mapsto> c), s_next = s_next s\<rparr>"
    by (auto simp: source_malloc_def Let_def k'_def full_def splice_to_used_def)
  note add = add_object [OF inv k, folded k'_def c(2), folded c(1)]
  have lists: "distinct (s_free s @ s_used s)" "set (s_free s @ s_used s) = dom (s_chunks s)"
    "c < s_next s" using inv k(1) c(1) by (auto simp: source_inv_def)
  have "source_inv s' (insert (c, off, n) L)"
    unfolding s' by (rule placed [OF inv few add(2) add(4)])
      (use lists fin c(1) in \<open>auto simp: distinct_removeAll\<close>)
  with add(1,4) show ?thesis by blast
qed

lemma freed_chunks:
  assumes inv: "source_inv s L" and x: "(c, off, n) \<in> L"
  obtains k where "s_chunks s c = Some k" "s_owner s (c, off) = Some c"
    "c_lots k = card (objects_of c (L - {(c, off, n)})) + 1" "c_lots k < 2 ^ 64"
proof -
  have fin: "finite L" "card L < 2 ^ 63" using inv by (auto simp: source_inv_def)
  obtain k where k: "s_chunks s c = Some k" "s_owner s (c, off) = Some c"
    using inv x by (force simp: source_inv_def)
  have ck: "c_lots k = card (objects_of c L)" using inv k(1) by (simp add: source_inv_def chunk_inv_def)
  have "(c, off, n) \<in> objects_of c L" using x by (simp add: objects_of_def)
  then have "card (objects_of c L) = card (objects_of c (L - {(c, off, n)})) + 1"
    using card_Suc_Diff1 [OF finite_objects [OF fin(1)]] by (fastforce simp: objects_of_remove)
  then show thesis using that [OF k] ck card_objects [OF fin(1), of c] fin(2) by simp
qed

lemma source_freed:
  fixes off n :: nat
  assumes inv: "source_inv s L" and k: "s_chunks s c = Some k"
  defines "M \<equiv> L - {(c, off, n)}"
  defines "k' \<equiv> k\<lparr>c_lots := card (objects_of c M), c_free := (if objects_of c M = {} then c_size k else c_free k)\<rparr>"
  defines "s' \<equiv> s\<lparr>s_chunks := (s_chunks s)(c \<mapsto> k'),
    s_free := (if objects_of c M = {} then c # removeAll c (s_free s) else s_free s),
    s_used := (if objects_of c M = {} then removeAll c (s_used s) else s_used s)\<rparr>"
  shows "source_inv s' M"
proof -
  have ck: "chunk_inv c k L" using inv k by (simp add: source_inv_def)
  have "chunk_inv c k' M"
    using ck by (auto simp: chunk_inv_def k'_def M_def objects_of_remove)
  moreover have "chunk_inv d j M" if "d \<noteq> c" "s_chunks s d = Some j" for d j
    using inv that by (auto simp: source_inv_def chunk_inv_def M_def objects_of_remove)
  ultimately have chunks: "\<forall>d j. s_chunks s' d = Some j \<longrightarrow> chunk_inv d j M"
    by (simp add: s'_def)
  have "card M \<le> card L" using inv by (intro card_mono) (auto simp: source_inv_def M_def)
  then have cards: "finite M" "card M < 2 ^ 63" using inv by (simp_all add: source_inv_def M_def)
  have used: "\<forall>d \<in> set (s_used s'). objects_of d M \<noteq> {}"
    using inv by (auto simp: source_inv_def s'_def M_def objects_of_remove split: if_splits)
  have lists: "distinct (s_free s' @ s_used s') \<and> set (s_free s' @ s_used s') = dom (s_chunks s')"
    using inv k by (auto simp: source_inv_def s'_def distinct_removeAll)
  have old: "\<forall>d \<in> dom (s_chunks s'). d < s_next s'"
    using inv k by (auto simp: source_inv_def s'_def)
  have owned: "s_chunks s' d \<noteq> None \<and> s_owner s' (d, i) = Some d" if "(d, i, m) \<in> M" for d i m
  proof -
    have "s_chunks s d \<noteq> None \<and> s_owner s (d, i) = Some d" using inv that by (auto simp: source_inv_def M_def)
    then show ?thesis by (simp add: s'_def)
  qed
  have "\<forall>x \<in> M. \<forall>y \<in> M. x \<noteq> y \<longrightarrow> apart x y"
    using inv by (simp add: source_inv_def M_def)
  with cards lists old owned chunks used show ?thesis by (auto simp: source_inv_def)
qed

lemma source_free_keeps:
  assumes inv: "source_inv s L" and x: "(c, off, n) \<in> L"
  shows "\<exists>s'. source_free (c, off) s = Done s' \<and> source_inv s' (L - {(c, off, n)})
    \<and> (objects_of c (L - {(c, off, n)}) = {} \<longrightarrow>
        (\<exists>k. s_chunks s' c = Some k \<and> c_free k = c_size k) \<and> c \<in> set (s_free s'))"
proof -
  let ?L = "L - {(c, off, n)}"
  obtain k where k: "s_chunks s c = Some k" "s_owner s (c, off) = Some c"
    and lots: "c_lots k = card (objects_of c ?L) + 1" "c_lots k < 2 ^ 64"
    by (rule freed_chunks [OF inv x])
  have "finite ?L" using inv by (simp add: source_inv_def)
  then have last: "card (objects_of c ?L) = 0 \<longleftrightarrow> objects_of c ?L = {}"
    by (simp add: finite_objects)
  have "source_free (c, off) s = Done
      (s\<lparr>s_chunks := (s_chunks s)(c \<mapsto> k\<lparr>c_lots := card (objects_of c ?L),
            c_free := (if objects_of c ?L = {} then c_size k else c_free k)\<rparr>),
         s_free := (if objects_of c ?L = {} then c # removeAll c (s_free s) else s_free s),
         s_used := (if objects_of c ?L = {} then removeAll c (s_used s) else s_used s)\<rparr>)"
    using k lots last by (auto simp: source_free_def splice_to_free_def)
  with source_freed [OF inv k(1), of off n] show ?thesis by (auto split: if_splits)
qed

lemma source_destroy_all:
  "source_inv s L \<Longrightarrow> distinct (source_destroy s) \<and> set (source_destroy s) = dom (s_chunks s)"
  by (simp add: source_inv_def source_destroy_def)

section \<open>Properties\<close>

text \<open>What the pool hands out, as steps: allocations that may fail, and frees of live objects.\<close>

inductive pool_run :: "nat \<Rightarrow> nat \<Rightarrow> source \<Rightarrow> object set \<Rightarrow> bool" for est lots where
  start: "pool_run est lots source_new {}"
| alloc: "pool_run est lots s L \<Longrightarrow> n < 2 ^ 62 \<Longrightarrow> card L + 1 < 2 ^ 63 \<Longrightarrow>
    source_malloc est lots grants n s = Done (s', c, off) \<Longrightarrow>
    pool_run est lots s' (insert (c, off, n) L)"
| release: "pool_run est lots s L \<Longrightarrow> (c, off, n) \<in> L \<Longrightarrow> source_free (c, off) s = Done s' \<Longrightarrow>
    pool_run est lots s' (L - {(c, off, n)})"

lemma pool_run_inv:
  assumes "pool_run est lots s L" and "(est + 40) * lots < 2 ^ 62" and "0 < lots"
  shows "source_inv s L"
  using assms(1)
proof induction
  case start
  show ?case by (rule source_new_inv)
next
  case (alloc s L n grants s' c off)
  from source_malloc_places [OF alloc.IH alloc.hyps(3) assms(2) alloc.hyps(2) assms(3) alloc.hyps(4)]
  show ?case by blast
next
  case (release s L c off n s')
  from source_free_keeps [OF release.IH release.hyps(2)] release.hyps(3) show ?case by auto
qed

text \<open>
  C33. Whatever sequence of allocations and frees a \<open>source\<close> has served, its live objects
  lie inside their chunks and do not overlap; freeing any of them works, and when it is the last of
  its chunk the whole chunk is free again and back on the free list. The destructor frees every chunk
  exactly once.
\<close>

theorem source_objects_disjoint:
  assumes "pool_run est lots s L" and "(est + 40) * lots < 2 ^ 62" and "0 < lots"
    and "(c, off, n) \<in> L"
  shows "(\<exists>k. s_chunks s c = Some k \<and> 48 \<le> off \<and> off + n \<le> 40 + c_size k)
      \<and> (\<forall>y \<in> L. y \<noteq> (c, off, n) \<longrightarrow> apart (c, off, n) y)
      \<and> (\<exists>s'. source_free (c, off) s = Done s' \<and>
          (objects_of c (L - {(c, off, n)}) = {} \<longrightarrow>
            (\<exists>k. s_chunks s' c = Some k \<and> c_free k = c_size k) \<and> c \<in> set (s_free s')))
      \<and> distinct (source_destroy s) \<and> c \<in> set (source_destroy s)"
proof (intro conjI)
  have inv: "source_inv s L" by (rule pool_run_inv [OF assms(1-3)])
  obtain k where k: "s_chunks s c = Some k" by (rule freed_chunks [OF inv assms(4)])
  have "(c, off, n) \<in> objects_of c L" using assms(4) by (simp add: objects_of_def)
  moreover have "chunk_inv c k L" using inv k by (simp add: source_inv_def)
  ultimately show "\<exists>k. s_chunks s c = Some k \<and> 48 \<le> off \<and> off + n \<le> 40 + c_size k"
    using k by (auto simp: chunk_inv_def)
  show "\<forall>y \<in> L. y \<noteq> (c, off, n) \<longrightarrow> apart (c, off, n) y"
    using inv assms(4) by (simp add: source_inv_def)
  show "distinct (source_destroy s)" and "c \<in> set (source_destroy s)"
    using source_destroy_all [OF inv] k by auto
qed (use source_free_keeps [OF pool_run_inv [OF assms(1-3)] assms(4)] in blast)

text \<open>An object of a hundred bytes, then one of ten in the same chunk.\<close>

definition demo_source :: source where
  "demo_source = \<lparr>s_chunks = [0 \<mapsto> \<lparr>c_free = 434, c_lots = 2, c_size = 560\<rparr>], s_free = [0],
     s_used = [], s_owner = [(0, 48) \<mapsto> 0, (0, 156) \<mapsto> 0], s_next = 1\<rparr>"

lemma demo_run: "pool_run 100 4 demo_source {(0, 156, 10), (0, 48, 100)}"
proof -
  define s1 where "s1 = \<lparr>s_chunks = [0 \<mapsto> \<lparr>c_free = 452, c_lots = 1, c_size = 560\<rparr>], s_free = [0],
     s_used = [], s_owner = [(0, 48) \<mapsto> 0], s_next = 1\<rparr>"
  have "source_malloc 100 4 (\<lambda>_. True) 100 source_new = Done (s1, 0, 48)"
    by (simp add: source_malloc_def expand_free_def source_new_def default_chunk_size_def s1_def)
  from pool_run.alloc [OF pool_run.start _ _ this] have one: "pool_run 100 4 s1 {(0, 48, 100)}" by simp
  have "source_malloc 100 4 (\<lambda>_. True) 10 s1 = Done (demo_source, 0, 156)"
    by (simp add: source_malloc_def s1_def has_room_def demo_source_def fun_eq_iff)
  from pool_run.alloc [OF one _ _ this] show ?thesis by simp
qed

theorem source_objects_disjoint_witness:
  "\<exists>s'. source_free (0, 48) demo_source = Done s'"
  using source_objects_disjoint [OF demo_run, of 0 48 100] by auto

end
