(* ===== verification/Sparse_Array.thy ===== *)
theory Sparse_Array
  imports Interfaces
begin

text \<open>
  \<^verbatim>\<open>src/mp/sparse_array.pre.h\<close> and \<^verbatim>\<open>sparse_array_impl.pre.h\<close>: an array that grows by chunks
  of 64 slots and constructs its elements in place. A slot has its flag \<open>enable\<close> and its raw
  storage: \<open>None\<close> while no object lives there. Destroying or reading an object that does not exist,
  and an index behind the last chunk, are faults.
\<close>

definition EXTEND_ARRAY_SIZE :: nat where [simp]: "EXTEND_ARRAY_SIZE = 64"

record 'a item_t =
  enable :: bool
  slot :: "'a option"

type_synonym 'a sparse_array = "'a item_t list list"

definition blank :: "'a item_t" where "blank = \<lparr>enable = False, slot = None\<rparr>"

text \<open>\<open>grants n\<close>: the \<open>n\<close>-th chunk finds memory.\<close>

definition extend_array :: "(nat \<Rightarrow> bool) \<Rightarrow> 'a sparse_array \<Rightarrow> 'a sparse_array outcome" where
  "extend_array grants a =
    (if grants (length a) then Done (a @ [replicate EXTEND_ARRAY_SIZE blank]) else Throw a)"

definition sparse_array_new :: "(nat \<Rightarrow> bool) \<Rightarrow> 'a sparse_array outcome" where
  "sparse_array_new grants = extend_array grants []"

definition sa_capacity :: "'a sparse_array \<Rightarrow> nat" where
  "sa_capacity a = length a * EXTEND_ARRAY_SIZE"

definition in_range :: "'a sparse_array \<Rightarrow> nat \<Rightarrow> bool" where
  "in_range a i \<longleftrightarrow> i div EXTEND_ARRAY_SIZE < length a
     \<and> i mod EXTEND_ARRAY_SIZE < length (a ! (i div EXTEND_ARRAY_SIZE))"

definition item_of :: "'a sparse_array \<Rightarrow> nat \<Rightarrow> 'a item_t" where
  "item_of a i = a ! (i div EXTEND_ARRAY_SIZE) ! (i mod EXTEND_ARRAY_SIZE)"

definition put_item :: "'a sparse_array \<Rightarrow> nat \<Rightarrow> 'a item_t \<Rightarrow> 'a sparse_array" where
  "put_item a i x = a[i div EXTEND_ARRAY_SIZE :=
     (a ! (i div EXTEND_ARRAY_SIZE))[i mod EXTEND_ARRAY_SIZE := x]]"

text \<open>The loop of \<open>set_impl\<close>: chunks are added until the index has one.\<close>

function extend_to :: "(nat \<Rightarrow> bool) \<Rightarrow> nat \<Rightarrow> 'a sparse_array \<Rightarrow> 'a sparse_array outcome" where
  "extend_to grants i a =
    (if length a \<le> i div EXTEND_ARRAY_SIZE then
       (case extend_array grants a of Done a' \<Rightarrow> extend_to grants i a' | r \<Rightarrow> r)
     else Done a)"
  by pat_completeness auto
termination
  by (relation "measure (\<lambda>(grants, i, a). Suc (i div EXTEND_ARRAY_SIZE) - length a)")
    (auto simp: extend_array_def split: if_splits)

declare extend_to.simps [simp del]

definition sa_set_impl :: "(nat \<Rightarrow> bool) \<Rightarrow> nat \<Rightarrow> 'a sparse_array \<Rightarrow> 'a sparse_array outcome" where
  "sa_set_impl grants i a =
    and_then (extend_to grants i a)
      (\<lambda>a. if \<not> in_range a i then Fault
           else
             let item = item_of a i in
             if enable item then
               (if slot item = None then Fault else Done (put_item a i (item\<lparr>slot := None\<rparr>)))
             else Done (put_item a i (item\<lparr>enable := True\<rparr>)))"

definition sa_revert :: "nat \<Rightarrow> 'a sparse_array \<Rightarrow> 'a sparse_array outcome" where
  "sa_revert i a =
    (if in_range a i then Done (put_item a i ((item_of a i)\<lparr>enable := False\<rparr>)) else Fault)"

text \<open>
  \<open>set\<close>, where \<open>mk\<close> is what the constructor of the element yields, \<open>None\<close> when it throws. The
  handler of the function reverts the slot and rethrows, whatever threw.
\<close>

definition sa_set :: "(nat \<Rightarrow> bool) \<Rightarrow> nat \<Rightarrow> 'a option \<Rightarrow> 'a sparse_array \<Rightarrow> 'a sparse_array outcome" where
  "sa_set grants i mk a =
    (case sa_set_impl grants i a of
       Done a1 \<Rightarrow>
         (case mk of
            Some v \<Rightarrow> Done (put_item a1 i ((item_of a1 i)\<lparr>slot := Some v\<rparr>))
          | None \<Rightarrow> (case sa_revert i a1 of Done a2 \<Rightarrow> Throw a2 | r \<Rightarrow> r))
     | Throw a1 \<Rightarrow> (case sa_revert i a1 of Done a2 \<Rightarrow> Throw a2 | r \<Rightarrow> r)
     | r \<Rightarrow> r)"

definition sa_reset :: "nat \<Rightarrow> 'a sparse_array \<Rightarrow> 'a sparse_array outcome" where
  "sa_reset i a =
    (if \<not> in_range a i \<or> slot (item_of a i) = None then Fault
     else Done (put_item a i \<lparr>enable = False, slot = None\<rparr>))"

text \<open>\<open>data\<close>: the object at an index, without any test; \<open>None\<close> when there is none.\<close>

definition sa_data :: "nat \<Rightarrow> 'a sparse_array \<Rightarrow> 'a option" where
  "sa_data i a = (if in_range a i then slot (item_of a i) else None)"

text \<open>\<open>get\<close>: \<open>NULL\<close> is \<open>None\<close>; the pointer is given as what it points to.\<close>

definition sa_get :: "nat \<Rightarrow> 'a sparse_array \<Rightarrow> 'a option" where
  "sa_get i a =
    (if i < length a * EXTEND_ARRAY_SIZE then
       (if enable (item_of a i) then slot (item_of a i) else None)
     else None)"

definition sa_test :: "nat \<Rightarrow> 'a sparse_array \<Rightarrow> bool" where
  "sa_test i a \<longleftrightarrow> i < length a * EXTEND_ARRAY_SIZE \<and> enable (item_of a i)"

text \<open>The objects the destructor destroys.\<close>

definition sa_destroy :: "'a sparse_array \<Rightarrow> 'a option list" where
  "sa_destroy a = concat (map (\<lambda>chunk. map slot (filter enable chunk)) a)"

section \<open>Invariant\<close>

definition sa_inv :: "'a sparse_array \<Rightarrow> bool" where
  "sa_inv a \<longleftrightarrow> (\<forall>chunk \<in> set a. length chunk = EXTEND_ARRAY_SIZE
     \<and> (\<forall>x \<in> set chunk. enable x \<longleftrightarrow> slot x \<noteq> None))"

lemma in_range_iff: "sa_inv a \<Longrightarrow> in_range a i \<longleftrightarrow> i < length a * 64"
  by (auto simp: in_range_def sa_inv_def div_less_iff_less_mult)

lemma item_of_inv:
  assumes "sa_inv a" and "i < length a * 64"
  shows "enable (item_of a i) \<longleftrightarrow> slot (item_of a i) \<noteq> None"
proof -
  have d: "i div 64 < length a" using assms(2) by (simp add: div_less_iff_less_mult)
  then have "a ! (i div 64) \<in> set a" by simp
  with assms(1) have "length (a ! (i div 64)) = 64"
    "\<forall>x \<in> set (a ! (i div 64)). enable x \<longleftrightarrow> slot x \<noteq> None"
    by (auto simp: sa_inv_def)
  then show ?thesis by (simp add: item_of_def)
qed

lemma length_put_item [simp]: "length (put_item a i x) = length a"
  by (simp add: put_item_def)

lemma item_of_put_item:
  assumes "sa_inv a" and "i < length a * 64" and "j < length a * 64"
  shows "item_of (put_item a i x) j = (if j = i then x else item_of a j)"
proof -
  have d: "i div 64 < length a" "j div 64 < length a"
    using assms(2,3) by (simp_all add: div_less_iff_less_mult)
  with assms(1) have l: "length (a ! (i div 64)) = 64" by (simp add: sa_inv_def)
  have "j = i \<longleftrightarrow> j div 64 = i div 64 \<and> j mod 64 = i mod 64"
    by (metis div_mult_mod_eq)
  with d l show ?thesis by (auto simp: item_of_def put_item_def nth_list_update)
qed

lemma put_item_inv:
  assumes "sa_inv a" and "i < length a * 64" and "enable x \<longleftrightarrow> slot x \<noteq> None"
  shows "sa_inv (put_item a i x)"
proof -
  have d: "i div 64 < length a" using assms(2) by (simp add: div_less_iff_less_mult)
  then have "a ! (i div 64) \<in> set a" by simp
  with assms(1) have l: "length (a ! (i div 64)) = 64"
    "\<forall>y \<in> set (a ! (i div 64)). enable y \<longleftrightarrow> slot y \<noteq> None"
    by (auto simp: sa_inv_def)
  then have "length ((a ! (i div 64))[i mod 64 := x]) = 64"
    "\<forall>y \<in> set ((a ! (i div 64))[i mod 64 := x]). enable y \<longleftrightarrow> slot y \<noteq> None"
    using assms(3) set_update_subset_insert [of "a ! (i div 64)" "i mod 64" x] by auto
  with assms(1) show ?thesis
    using set_update_subset_insert [of a "i div 64" "(a ! (i div 64))[i mod 64 := x]"]
    by (auto simp: sa_inv_def put_item_def)
qed

section \<open>The array as a map\<close>

definition sa_map :: "'a sparse_array \<Rightarrow> nat \<Rightarrow> 'a option" where "sa_map a i = sa_get i a"

lemma extend_to_ok:
  assumes "sa_inv a"
  shows "(\<exists>a'. extend_to grants i a = Done a' \<and> sa_inv a' \<and> i < length a' * 64 \<and> sa_map a' = sa_map a
           \<and> length a \<le> length a')
     \<or> (\<exists>a'. extend_to grants i a = Throw a' \<and> sa_inv a' \<and> length a' \<le> i div 64)"
  using assms
proof (induction grants i a rule: extend_to.induct)
  case (1 grants i a)
  show ?case
  proof (cases "length a \<le> i div 64")
    case False
    then have "extend_to grants i a = Done a" by (simp add: extend_to.simps)
    moreover have "i < length a * 64" using False by (simp add: not_le div_less_iff_less_mult)
    ultimately show ?thesis using 1(2) by simp
  next
    case True
    show ?thesis
    proof (cases "grants (length a)")
      case False
      with True 1(2) show ?thesis by (simp add: extend_to.simps extend_array_def)
    next
      case g: True
      let ?a = "a @ [replicate 64 blank]"
      have inv: "sa_inv ?a" using 1(2) by (auto simp: sa_inv_def blank_def)
      have "sa_get j ?a = sa_get j a" for j
      proof (cases "j < length a * 64")
        case True
        then have "j div 64 < length a" by (simp add: div_less_iff_less_mult)
        with True show ?thesis by (simp add: sa_get_def item_of_def nth_append)
      next
        case False
        then have "\<not> j div 64 < length a" by (simp add: div_less_iff_less_mult)
        moreover have "j div 64 < length ?a" if "j < length ?a * 64"
          using that by (simp add: div_less_iff_less_mult)
        ultimately show ?thesis using False
          by (auto simp: sa_get_def item_of_def nth_append blank_def less_Suc_eq)
      qed
      then have same: "sa_map ?a = sa_map a" by (simp add: sa_map_def fun_eq_iff)
      have e: "extend_array grants a = Done ?a" using g by (simp add: extend_array_def)
      have step: "extend_to grants i a = extend_to grants i ?a"
        using True e by (subst extend_to.simps) simp
      from 1(1) [OF _ e inv] True same show ?thesis unfolding step by fastforce
    qed
  qed
qed

lemma sa_map_item:
  "sa_inv a \<Longrightarrow> sa_map a i = (if i < length a * 64 then slot (item_of a i) else None)"
  using item_of_inv [of a i] by (auto simp: sa_map_def sa_get_def)

lemma put_item_put_item: "put_item (put_item a i x) i y = put_item a i y"
  by (cases "i div 64 < length a") (simp_all add: put_item_def list_update_beyond)

text \<open>Setting a slot whose constructor returns.\<close>

lemma sa_set_runs:
  assumes "sa_inv a" and "extend_to grants i a = Done b" and "sa_inv b" and "i < length b * 64"
  shows "sa_set grants i mk a =
    (case mk of
       Some v \<Rightarrow> Done (put_item b i \<lparr>enable = True, slot = Some v\<rparr>)
     | None \<Rightarrow> Throw (put_item b i \<lparr>enable = False, slot = None\<rparr>))"
proof -
  have range: "in_range (put_item b i x) i" for x
    using assms(3,4) in_range_iff [OF assms(3)]
    by (auto simp: in_range_def put_item_def nth_list_update)
  have same: "item_of (put_item b i x) i = x" for x
    using item_of_put_item [OF assms(3,4,4)] by simp
  have e: "enable (item_of b i) \<longleftrightarrow> slot (item_of b i) \<noteq> None"
    by (rule item_of_inv [OF assms(3,4)])
  let ?x = "\<lparr>enable = True, slot = None\<rparr>"
  obtain en sl where it: "item_of b i = \<lparr>enable = en, slot = sl\<rparr>" by (cases "item_of b i")
  with e have "en \<longleftrightarrow> sl \<noteq> None" by simp
  then have "sa_set_impl grants i a = Done (put_item b i ?x)"
    using assms(2) in_range_iff [OF assms(3)] assms(4)
    by (cases en) (simp_all add: sa_set_impl_def Let_def it)
  then show ?thesis
    by (simp add: sa_set_def same range sa_revert_def put_item_put_item split: option.split)
qed

lemma sa_set_map:
  assumes "sa_inv a"
  shows "(\<exists>a'. sa_set grants i (Some v) a = Done a' \<and> sa_inv a' \<and> sa_map a' = (sa_map a)(i \<mapsto> v))
    \<or> sa_set grants i (Some v) a = Fault"
proof -
  from extend_to_ok [OF assms, of grants i] show ?thesis
  proof (elim disjE exE conjE)
    fix b
    assume b: "extend_to grants i a = Done b" "sa_inv b" "i < length b * 64" "sa_map b = sa_map a"
    let ?a = "put_item b i \<lparr>enable = True, slot = Some v\<rparr>"
    have inv: "sa_inv ?a" using b(2,3) by (intro put_item_inv) simp_all
    have "sa_map ?a j = ((sa_map b)(i \<mapsto> v)) j" for j
      using item_of_put_item [OF b(2,3), of j] b(3) by (auto simp: sa_map_item inv b(2))
    then have "sa_map ?a = (sa_map a)(i \<mapsto> v)" using b(4) by (simp add: fun_eq_iff)
    with inv sa_set_runs [OF assms b(1-3)] show ?thesis by simp
  next
    fix b
    assume b: "extend_to grants i a = Throw b" "sa_inv b" "length b \<le> i div 64"
    then have "\<not> in_range b i" by (simp add: in_range_def)
    with b(1) show ?thesis by (simp add: sa_set_def sa_set_impl_def sa_revert_def)
  qed
qed

lemma sa_reset_map:
  assumes "sa_inv a" and "sa_map a i \<noteq> None"
  shows "\<exists>a'. sa_reset i a = Done a' \<and> sa_inv a' \<and> sa_map a' = (sa_map a)(i := None)"
proof -
  have i: "i < length a * 64" "slot (item_of a i) \<noteq> None"
    using assms by (auto simp: sa_map_item split: if_splits)
  let ?a = "put_item a i \<lparr>enable = False, slot = None\<rparr>"
  have inv: "sa_inv ?a" using assms(1) i(1) by (intro put_item_inv) simp_all
  have "sa_map ?a j = ((sa_map a)(i := None)) j" for j
    using item_of_put_item [OF assms(1) i(1), of j] i(1) by (auto simp: sa_map_item inv assms(1))
  then have "sa_map ?a = (sa_map a)(i := None)" by (simp add: fun_eq_iff)
  with inv i in_range_iff [OF assms(1)] show ?thesis by (simp add: sa_reset_def)
qed

interpretation sa: indexed_store sa_inv sa_map "\<lambda>i v. sa_set (\<lambda>_. True) i (Some v)" sa_reset sa_get
proof
  fix a :: "'a sparse_array" and i v
  assume a: "sa_inv a"
  have t: "extend_to (\<lambda>_. True) i a \<noteq> Throw b" for b
    by (induction "\<lambda>_ :: nat. True" i a rule: extend_to.induct)
      (subst extend_to.simps, simp add: extend_array_def)
  show "\<exists>a'. sa_set (\<lambda>_. True) i (Some v) a = Done a' \<and> sa_inv a' \<and> sa_map a' = (sa_map a)(i \<mapsto> v)"
    using extend_to_ok [OF a, of "\<lambda>_. True" i] t sa_set_runs [OF a] sa_set_map [OF a, of "\<lambda>_. True" i v]
    by fastforce
next
  fix a :: "'a sparse_array" and i
  assume "sa_inv a" "sa_map a i \<noteq> None"
  then show "\<exists>a'. sa_reset i a = Done a' \<and> sa_inv a' \<and> sa_map a' = (sa_map a)(i := None)"
    by (rule sa_reset_map)
qed (simp add: sa_map_def)


text \<open>
  Running out of memory while an array grows is not an exception. When the chunk of the index cannot be
  allocated, the handler of \<open>set\<close> reverts a slot of a chunk that does not exist, an access out of
  bounds, before the exception could reach the caller.
\<close>

theorem sparse_array_set_no_memory:
  assumes "length a \<le> i div 64" and "\<not> grants (length a)"
  shows "sa_set grants i mk a = Fault"
proof -
  have "extend_to grants i a = Throw a"
    using assms by (simp add: extend_to.simps extend_array_def)
  moreover have "\<not> in_range a i" using assms(1) by (simp add: in_range_def)
  ultimately show ?thesis by (simp add: sa_set_def sa_set_impl_def sa_revert_def)
qed

section \<open>A concrete array\<close>

definition sample_array :: "nat sparse_array" where
  "sample_array = [(replicate 64 blank)[5 := \<lparr>enable = True, slot = Some 7\<rparr>]]"

lemma sample_array_inv: "sa_inv sample_array"
  using set_update_subset_insert [of "replicate 64 (blank :: nat item_t)" 5 "\<lparr>enable = True, slot = Some 7\<rparr>"]
  by (auto simp: sa_inv_def sample_array_def blank_def)


theorem sparse_array_set_no_memory_witness:
  "sa_set (\<lambda>n. n < 1) 64 (Some 3) sample_array = Fault"
  by (rule sparse_array_set_no_memory) (simp_all add: sample_array_def)

end
