(* ===== verification/Pthread_Locks.thy ===== *)
theory Pthread_Locks
  imports Prelude
begin

text \<open>
  \<^verbatim>\<open>src/mp/pthread.h\<close>, \<^verbatim>\<open>pthread_impl.h\<close> and the locking half of \<^verbatim>\<open>exclusive.pre.h\<close>.

  The pthread library is a parameter: it answers the n-th call a thread makes with the n-th of its
  \<open>answers\<close>, an error number or zero, and \<open>calls\<close> records what was called and answered. The wrappers
  turn the answers into exceptions and results. The scoped locks differ only in the operations they
  take and release a lock with; they are written once over those and instantiated for
  \<open>pthread_scoped_lock\<close>, \<open>_rdlock\<close>, \<open>_wrlock\<close> and \<open>exclusive<T>::ref\<close>.
\<close>

section \<open>The pthread library\<close>

type_synonym lock_id = nat

datatype pcall =
    Mutex_lock lock_id | Mutex_unlock lock_id | Mutex_trylock lock_id
  | Rw_rdlock lock_id | Rw_wrlock lock_id | Rw_tryrdlock lock_id | Rw_trywrlock lock_id
  | Rw_unlock lock_id
  | Cond_signal nat | Cond_broadcast nat | Cond_wait nat lock_id | Cond_timedwait nat lock_id int
  | Thread_create nat | Thread_detach nat | Thread_join nat | Thread_cancel nat
  | Mutexattr_init | Mutexattr_settype int | Mutex_init lock_id | Mutex_destroy lock_id
  | Rw_init lock_id | Rw_destroy lock_id | Cond_init nat | Cond_destroy nat
  | Sigprocmask_block | Sigprocmask_unblock

record plib =
  answers :: "nat \<Rightarrow> int"
  calls :: "(pcall \<times> int) list"

definition EBUSY :: int where [simp]: "EBUSY = 16"
definition ETIMEDOUT :: int where [simp]: "ETIMEDOUT = 110"

definition pt_call :: "pcall \<Rightarrow> plib \<Rightarrow> int \<times> plib" where
  "pt_call c s = (let err = answers s (length (calls s)) in (err, s\<lparr>calls := calls s @ [(c, err)]\<rparr>))"

section \<open>Wrappers\<close>

text \<open>\<open>Inl e\<close> is \<open>pthread_error\<close> with error number \<open>e\<close>: most wrappers negate what they got.\<close>

type_synonym 'a presult = "(int + 'a) \<times> plib"

definition checked :: "pcall \<Rightarrow> plib \<Rightarrow> unit presult" where
  "checked c s = (let (err, s') = pt_call c s in (if err \<noteq> 0 then Inl (- err) else Inr (), s'))"

definition tried :: "int \<Rightarrow> pcall \<Rightarrow> plib \<Rightarrow> bool presult" where
  "tried no c s =
    (let (err, s') = pt_call c s in
     (if err \<noteq> 0 then if err = no then Inr False else Inl (- err) else Inr True, s'))"

definition mutex_lock :: "lock_id \<Rightarrow> plib \<Rightarrow> unit presult" where
  "mutex_lock m = checked (Mutex_lock m)"
definition mutex_unlock :: "lock_id \<Rightarrow> plib \<Rightarrow> unit presult" where
  "mutex_unlock m = checked (Mutex_unlock m)"
definition mutex_trylock :: "lock_id \<Rightarrow> plib \<Rightarrow> bool presult" where
  "mutex_trylock m = tried EBUSY (Mutex_trylock m)"
definition rwlock_rdlock :: "lock_id \<Rightarrow> plib \<Rightarrow> unit presult" where
  "rwlock_rdlock m = checked (Rw_rdlock m)"
definition rwlock_tryrdlock :: "lock_id \<Rightarrow> plib \<Rightarrow> bool presult" where
  "rwlock_tryrdlock m = tried EBUSY (Rw_tryrdlock m)"
definition rwlock_wrlock :: "lock_id \<Rightarrow> plib \<Rightarrow> unit presult" where
  "rwlock_wrlock m = checked (Rw_wrlock m)"
definition rwlock_trywrlock :: "lock_id \<Rightarrow> plib \<Rightarrow> bool presult" where
  "rwlock_trywrlock m = tried EBUSY (Rw_trywrlock m)"
definition rwlock_unlock :: "lock_id \<Rightarrow> plib \<Rightarrow> unit presult" where
  "rwlock_unlock m = checked (Rw_unlock m)"
definition cond_signal :: "nat \<Rightarrow> plib \<Rightarrow> unit presult" where
  "cond_signal c = checked (Cond_signal c)"
definition cond_broadcast :: "nat \<Rightarrow> plib \<Rightarrow> unit presult" where
  "cond_broadcast c = checked (Cond_broadcast c)"
definition cond_wait :: "nat \<Rightarrow> lock_id \<Rightarrow> plib \<Rightarrow> unit presult" where
  "cond_wait c m = checked (Cond_wait c m)"
definition cond_timedwait :: "nat \<Rightarrow> lock_id \<Rightarrow> int \<Rightarrow> plib \<Rightarrow> bool presult" where
  "cond_timedwait c m abstime = tried ETIMEDOUT (Cond_timedwait c m abstime)"

text \<open>The thread operations pass the error on as it is.\<close>

definition thread_checked :: "pcall \<Rightarrow> plib \<Rightarrow> unit presult" where
  "thread_checked c s = (let (err, s') = pt_call c s in (if err \<noteq> 0 then Inl err else Inr (), s'))"

definition thread_run :: "nat \<Rightarrow> plib \<Rightarrow> unit presult" where
  "thread_run t = thread_checked (Thread_create t)"
definition thread_detach :: "nat \<Rightarrow> plib \<Rightarrow> unit presult" where
  "thread_detach t = thread_checked (Thread_detach t)"
definition thread_join :: "nat \<Rightarrow> plib \<Rightarrow> unit presult" where
  "thread_join t = thread_checked (Thread_join t)"

section \<open>Scoped locks\<close>

text \<open>The pointer \<open>m_mutex\<close> (\<open>m_ref\<close>), over the operations of the lock.\<close>

type_synonym guard = "lock_id option"
type_synonym lock_op = "lock_id \<Rightarrow> plib \<Rightarrow> unit presult"

definition guard_empty :: guard where "guard_empty = None"

definition guard_unlock :: "lock_op \<Rightarrow> guard \<Rightarrow> plib \<Rightarrow> (int option \<times> guard) \<times> plib" where
  "guard_unlock release g s =
    (case g of
       None \<Rightarrow> ((None, None), s)
     | Some m \<Rightarrow>
         (case release m s of
            (Inl e, s') \<Rightarrow> ((Some e, g), s')
          | (Inr _, s') \<Rightarrow> ((None, None), s')))"

definition guard_lock :: "lock_op \<Rightarrow> lock_id \<Rightarrow> plib \<Rightarrow> (int option \<times> guard) \<times> plib" where
  "guard_lock acquire m s =
    (case acquire m s of
       (Inl e, s') \<Rightarrow> ((Some e, None), s')
     | (Inr _, s') \<Rightarrow> ((None, Some m), s'))"

definition guard_relock ::
    "lock_op \<Rightarrow> lock_op \<Rightarrow> lock_id \<Rightarrow> guard \<Rightarrow> plib \<Rightarrow> (int option \<times> guard) \<times> plib" where
  "guard_relock acquire release m g s =
    (case guard_unlock release g s of
       ((Some e, g'), s') \<Rightarrow> ((Some e, g'), s')
     | ((None, _), s') \<Rightarrow> guard_lock acquire m s')"

text \<open>The destructor: the lock goes with the guard.\<close>

definition guard_destroy :: "lock_op \<Rightarrow> guard \<Rightarrow> plib \<Rightarrow> int option \<times> plib" where
  "guard_destroy release g s =
    (case g of
       None \<Rightarrow> (None, s)
     | Some m \<Rightarrow> (case release m s of (Inl e, s') \<Rightarrow> (Some e, s') | (Inr _, s') \<Rightarrow> (None, s')))"

definition scoped_lock_new where "scoped_lock_new = guard_lock mutex_lock"
definition scoped_lock_unlock where "scoped_lock_unlock = guard_unlock mutex_unlock"
definition scoped_lock_relock where "scoped_lock_relock = guard_relock mutex_lock mutex_unlock"
definition scoped_lock_destroy where "scoped_lock_destroy = guard_destroy mutex_unlock"
definition scoped_rdlock_new where "scoped_rdlock_new = guard_lock rwlock_rdlock"
definition scoped_rdlock_unlock where "scoped_rdlock_unlock = guard_unlock rwlock_unlock"
definition scoped_rdlock_relock where "scoped_rdlock_relock = guard_relock rwlock_rdlock rwlock_unlock"
definition scoped_rdlock_destroy where "scoped_rdlock_destroy = guard_destroy rwlock_unlock"
definition scoped_wrlock_new where "scoped_wrlock_new = guard_lock rwlock_wrlock"
definition scoped_wrlock_unlock where "scoped_wrlock_unlock = guard_unlock rwlock_unlock"
definition scoped_wrlock_relock where "scoped_wrlock_relock = guard_relock rwlock_wrlock rwlock_unlock"
definition scoped_wrlock_destroy where "scoped_wrlock_destroy = guard_destroy rwlock_unlock"
definition exclusive_ref_new where "exclusive_ref_new = guard_lock mutex_lock"
definition exclusive_ref_reset where "exclusive_ref_reset = guard_unlock mutex_unlock"
definition exclusive_ref_reset_to where "exclusive_ref_reset_to = guard_relock mutex_lock mutex_unlock"
definition exclusive_ref_destroy where "exclusive_ref_destroy = guard_destroy mutex_unlock"

text \<open>A scope that holds a guard: constructed, used, destroyed on the way out.\<close>

datatype guard_op = Unlock | Relock lock_id

fun guard_uses :: "lock_op \<Rightarrow> lock_op \<Rightarrow> guard_op list \<Rightarrow> guard \<Rightarrow> plib \<Rightarrow> guard \<times> plib" where
  "guard_uses acquire release [] g s = (g, s)"
| "guard_uses acquire release (Unlock # is) g s =
    (case guard_unlock release g s of
       ((Some e, g'), s') \<Rightarrow> (g', s')
     | ((None, g'), s') \<Rightarrow> guard_uses acquire release is g' s')"
| "guard_uses acquire release (Relock m # is) g s =
    (case guard_relock acquire release m g s of
       ((Some e, g'), s') \<Rightarrow> (g', s')
     | ((None, g'), s') \<Rightarrow> guard_uses acquire release is g' s')"

definition guard_scope :: "lock_op \<Rightarrow> lock_op \<Rightarrow> lock_id \<Rightarrow> guard_op list \<Rightarrow> plib \<Rightarrow> plib" where
  "guard_scope acquire release m is s =
    (case guard_lock acquire m s of
       ((Some e, _), s1) \<Rightarrow> s1
     | ((None, g), s1) \<Rightarrow>
         (case guard_uses acquire release is g s1 of (g', s2) \<Rightarrow> snd (guard_destroy release g' s2)))"

section \<open>The signal thread\<close>

text \<open>\<open>pthread_signal::operator()\<close>: the signals handled, given what \<open>sigwait\<close> returns in turn.\<close>

fun signal_thread :: "(int \<times> int) list \<Rightarrow> int list" where
  "signal_thread [] = []"
| "signal_thread ((err, signo) # rs) = (if err \<noteq> 0 then [] else signo # signal_thread rs)"

text \<open>The constructor: block the signals, start the thread; the mask is undone if that throws.\<close>

definition pthread_signal_new :: "nat \<Rightarrow> plib \<Rightarrow> unit presult" where
  "pthread_signal_new t s =
    (case pt_call Sigprocmask_block s of
       (r, s1) \<Rightarrow>
         if r < 0 then (Inl r, s1)
         else (case thread_run t s1 of
                 (Inl e, s2) \<Rightarrow> (Inl e, snd (pt_call Sigprocmask_unblock s2))
               | (Inr _, s2) \<Rightarrow> (Inr (), s2)))"

definition pthread_signal_destroy :: "plib \<Rightarrow> plib" where
  "pthread_signal_destroy s = snd (pt_call Sigprocmask_unblock s)"

section \<open>Locks held\<close>

text \<open>What the calls of this thread have taken and not given back, for mutexes and rwlocks.\<close>

fun held_change :: "bool \<Rightarrow> lock_id \<Rightarrow> pcall \<times> int \<Rightarrow> int" where
  "held_change False m (Mutex_lock n, r) = (if n = m \<and> r = 0 then 1 else 0)"
| "held_change False m (Mutex_trylock n, r) = (if n = m \<and> r = 0 then 1 else 0)"
| "held_change False m (Mutex_unlock n, r) = (if n = m \<and> r = 0 then -1 else 0)"
| "held_change True m (Rw_rdlock n, r) = (if n = m \<and> r = 0 then 1 else 0)"
| "held_change True m (Rw_wrlock n, r) = (if n = m \<and> r = 0 then 1 else 0)"
| "held_change True m (Rw_tryrdlock n, r) = (if n = m \<and> r = 0 then 1 else 0)"
| "held_change True m (Rw_trywrlock n, r) = (if n = m \<and> r = 0 then 1 else 0)"
| "held_change True m (Rw_unlock n, r) = (if n = m \<and> r = 0 then -1 else 0)"
| "held_change rw m _ = 0"

definition held :: "bool \<Rightarrow> lock_id \<Rightarrow> plib \<Rightarrow> int" where
  "held rw m s = sum_list (map (held_change rw m) (calls s))"

text \<open>
  The documented promise of \<open>pthread_mutex_unlock\<close> and \<open>pthread_rwlock_unlock\<close>: they fail only for a
  lock the caller does not hold. Stated of the calls that were made.
\<close>

fun is_unlock :: "pcall \<Rightarrow> (bool \<times> lock_id) option" where
  "is_unlock (Mutex_unlock m) = Some (False, m)"
| "is_unlock (Rw_unlock m) = Some (True, m)"
| "is_unlock _ = None"

definition unlock_sound :: "plib \<Rightarrow> bool" where
  "unlock_sound s \<longleftrightarrow> (\<forall>i < length (calls s). case is_unlock (fst (calls s ! i)) of
      None \<Rightarrow> True
    | Some (rw, m) \<Rightarrow> 0 < sum_list (map (held_change rw m) (take i (calls s))) \<longrightarrow> snd (calls s ! i) = 0)"


lemma held_append: "calls s' = calls s @ cs \<Longrightarrow> held b x s' = held b x s + sum_list (map (held_change b x) cs)"
  by (simp add: held_def)

definition grows :: "plib \<Rightarrow> plib \<Rightarrow> bool" where
  "grows s s' \<longleftrightarrow> (\<exists>cs. calls s' = calls s @ cs)"

lemma grows_refl [simp, intro]: "grows s s"
  by (simp add: grows_def)

lemma grows_trans [trans]: "grows s t \<Longrightarrow> grows t u \<Longrightarrow> grows s u"
  by (auto simp: grows_def)

lemma unlock_sound_earlier:
  assumes "unlock_sound s'" and "grows s s'"
  shows "unlock_sound s"
proof -
  obtain cs where cs: "calls s' = calls s @ cs" using assms(2) by (auto simp: grows_def)
  have "calls s ! i = calls s' ! i" "take i (calls s) = take i (calls s')" "i < length (calls s')"
    if "i < length (calls s)" for i
    using that by (simp_all add: cs nth_append)
  with assms(1) show ?thesis unfolding unlock_sound_def by metis
qed

section \<open>The contract of a lock\<close>

locale lock_api =
  fixes acquire :: lock_op and release :: lock_op and rw :: bool
  assumes acquire_ok: "acquire m s = (Inr u, s') \<Longrightarrow>
      held b x s' = held b x s + (if b = rw \<and> x = m then 1 else 0)"
    and acquire_err: "acquire m s = (Inl e, s') \<Longrightarrow> held b x s' = held b x s"
    and release_ok: "release m s = (Inr u, s') \<Longrightarrow>
      held b x s' = held b x s - (if b = rw \<and> x = m then 1 else 0)"
    and release_err: "release m s = (Inl e, s') \<Longrightarrow> unlock_sound s' \<Longrightarrow> held rw m s \<le> 0"
    and acquire_grows: "acquire m s = (r, s') \<Longrightarrow> grows s s'"
    and release_grows: "release m s = (r', s') \<Longrightarrow> grows s s'"
begin

text \<open>The guard accounts for what is held beyond the balance \<open>h\<close> it started from.\<close>

definition balanced :: "(bool \<Rightarrow> lock_id \<Rightarrow> int) \<Rightarrow> guard \<Rightarrow> plib \<Rightarrow> bool" where
  "balanced h g s \<longleftrightarrow> (\<forall>b x. held b x s = h b x + (if b = rw \<and> g = Some x then 1 else 0))"

lemma unlock_grows: "guard_unlock release g s = (r, s') \<Longrightarrow> grows s s'"
  by (auto simp: guard_unlock_def dest: release_grows split: option.splits sum.splits prod.splits)

lemma lock_grows: "guard_lock acquire m s = (r, s') \<Longrightarrow> grows s s'"
  by (auto simp: guard_lock_def dest: acquire_grows split: sum.splits prod.splits)

lemma relock_grows: "guard_relock acquire release m g s = (r, s') \<Longrightarrow> grows s s'"
  by (auto simp: guard_relock_def dest: unlock_grows lock_grows intro: grows_trans
      split: option.splits prod.splits)

lemma unlock_balanced:
  assumes bal: "balanced h g s" and pos: "\<And>x. 0 \<le> h rw x"
    and run: "guard_unlock release g s = ((e, g'), s')" and sound: "unlock_sound s'"
  shows "e = None \<and> g' = None \<and> balanced h None s'"
proof (cases g)
  case None
  then show ?thesis using bal run by (simp add: guard_unlock_def)
next
  case (Some m)
  obtain r t where rel: "release m s = (r, t)" by (cases "release m s")
  show ?thesis
  proof (cases r)
    case (Inl err)
    with rel run Some have "s' = t" by (simp add: guard_unlock_def)
    with release_err rel Inl sound have "held rw m s \<le> 0" by blast
    moreover have "held rw m s = h rw m + 1" using bal Some by (simp add: balanced_def)
    ultimately show ?thesis using pos [of m] by simp
  next
    case (Inr u)
    with rel run Some have "s' = t" "e = None" "g' = None" by (auto simp: guard_unlock_def)
    with release_ok [of m s u t] rel Inr bal Some show ?thesis by (auto simp: balanced_def)
  qed
qed

lemma lock_balanced:
  assumes "balanced h None s" and "guard_lock acquire m s = ((e, g'), s')"
  shows "balanced h g' s'"
  using assms acquire_ok [of m s] acquire_err [of m s]
  by (auto simp: guard_lock_def balanced_def split: sum.splits prod.splits)

lemma relock_balanced:
  assumes bal: "balanced h g s" and pos: "\<And>x. 0 \<le> h rw x"
    and run: "guard_relock acquire release m g s = ((e, g'), s')" and sound: "unlock_sound s'"
  shows "balanced h g' s'"
proof -
  obtain e1 g1 s1 where u: "guard_unlock release g s = ((e1, g1), s1)"
    by (metis surj_pair)
  have "grows s1 s'" using run u
    by (auto simp: guard_relock_def split: option.splits dest: lock_grows)
  with sound have "unlock_sound s1" by (rule unlock_sound_earlier)
  from unlock_balanced [OF bal pos u this] have "e1 = None" "balanced h None s1" by auto
  with run u show ?thesis by (auto simp: guard_relock_def intro: lock_balanced)
qed

lemma uses_grows: "guard_uses acquire release is g s = (g', s') \<Longrightarrow> grows s s'"
proof (induction "is" arbitrary: g s)
  case (Cons i "is")
  show ?case
  proof (cases i)
    case Unlock
    obtain e1 g1 s1 where u: "guard_unlock release g s = ((e1, g1), s1)" by (metis surj_pair)
    with Cons Unlock show ?thesis
      by (auto split: option.splits intro: grows_trans [OF unlock_grows [OF u]] unlock_grows)
  next
    case (Relock m)
    obtain e1 g1 s1 where u: "guard_relock acquire release m g s = ((e1, g1), s1)" by (metis surj_pair)
    with Cons Relock show ?thesis
      by (auto split: option.splits intro: grows_trans [OF relock_grows [OF u]] relock_grows)
  qed
qed simp

lemma uses_balanced:
  assumes "balanced h g s" and pos: "\<And>x. 0 \<le> h rw x"
    and "guard_uses acquire release is g s = (g', s')" and sound: "unlock_sound s'"
  shows "balanced h g' s'"
  using assms(1,3)
proof (induction "is" arbitrary: g s)
  case (Cons i "is")
  show ?case
  proof (cases i)
    case Unlock
    obtain e1 g1 s1 where u: "guard_unlock release g s = ((e1, g1), s1)" by (metis surj_pair)
    have "grows s1 s'" using Cons.prems(2) Unlock u
      by (auto split: option.splits dest: uses_grows)
    with sound have "unlock_sound s1" by (rule unlock_sound_earlier)
    from unlock_balanced [OF Cons.prems(1) pos u this] have "e1 = None" "g1 = None" "balanced h None s1"
      by auto
    with Cons.prems(2) Unlock u Cons.IH show ?thesis by simp
  next
    case (Relock m)
    obtain e1 g1 s1 where u: "guard_relock acquire release m g s = ((e1, g1), s1)" by (metis surj_pair)
    have "grows s1 s'" using Cons.prems(2) Relock u
      by (auto split: option.splits dest: uses_grows)
    with sound have "unlock_sound s1" by (rule unlock_sound_earlier)
    from relock_balanced [OF Cons.prems(1) pos u this] have "balanced h g1 s1" .
    with Cons.prems(2) Relock u Cons.IH show ?thesis by (auto split: option.splits)
  qed
qed simp

lemma destroy_balanced:
  assumes "balanced h g s" and pos: "\<And>x. 0 \<le> h rw x"
    and sound: "unlock_sound (snd (guard_destroy release g s))"
  shows "balanced h None (snd (guard_destroy release g s))"
proof -
  obtain e g' s' where u: "guard_unlock release g s = ((e, g'), s')" by (metis surj_pair)
  then have "snd (guard_destroy release g s) = s'"
    by (auto simp: guard_unlock_def guard_destroy_def split: option.splits sum.splits prod.splits)
  with unlock_balanced [OF assms(1) pos u] sound show ?thesis by simp
qed

lemma scope_balanced:
  assumes pos: "\<And>x. 0 \<le> held rw x s" and sound: "unlock_sound (guard_scope acquire release m is s)"
  shows "held b x (guard_scope acquire release m is s) = held b x s"
proof -
  define h where "h = (\<lambda>b x. held b x s)"
  have start: "balanced h None s" by (simp add: balanced_def h_def)
  have pos': "0 \<le> h rw x" for x using pos by (simp add: h_def)
  obtain e g1 s1 where l: "guard_lock acquire m s = ((e, g1), s1)" by (metis surj_pair)
  from lock_balanced [OF start l] have b1: "balanced h g1 s1" .
  obtain g2 s2 where us: "guard_uses acquire release is g1 s1 = (g2, s2)" by (metis surj_pair)
  show ?thesis
  proof (cases e)
    case (Some err)
    with l have "guard_scope acquire release m is s = s1" "g1 = None"
      by (auto simp: guard_scope_def guard_lock_def split: sum.splits prod.splits)
    with b1 show ?thesis by (simp add: balanced_def h_def)
  next
    case None
    then have fin: "guard_scope acquire release m is s = snd (guard_destroy release g2 s2)"
      using l us by (simp add: guard_scope_def)
    have "grows s2 (snd (guard_destroy release g2 s2))"
      by (auto simp: guard_destroy_def dest: release_grows split: option.splits sum.splits prod.splits)
    with sound fin have "unlock_sound s2" by (metis unlock_sound_earlier)
    from uses_balanced [OF b1 pos' us this] have "balanced h g2 s2" .
    from destroy_balanced [OF this pos'] sound fin show ?thesis by (simp add: balanced_def h_def)
  qed
qed

end

lemma checked_cases:
  "checked c s = (r, s') \<Longrightarrow> s' = s\<lparr>calls := calls s @ [(c, answers s (length (calls s)))]\<rparr>
    \<and> r = (if answers s (length (calls s)) \<noteq> 0 then Inl (- answers s (length (calls s))) else Inr ())"
  by (auto simp: checked_def pt_call_def Let_def)

lemma checked_unlock_fails:
  assumes "checked c s = (Inl e, s')" and "is_unlock c = Some (rw, m)" and "unlock_sound s'"
  shows "held rw m s \<le> 0"
proof (rule ccontr)
  let ?r = "answers s (length (calls s))"
  assume pos: "\<not> held rw m s \<le> 0"
  from assms(1) have s': "calls s' = calls s @ [(c, ?r)]" and r: "?r \<noteq> 0"
    by (auto dest: checked_cases split: if_splits)
  have "length (calls s) < length (calls s')" using s' by simp
  with assms(3) have "case is_unlock (fst (calls s' ! length (calls s))) of None \<Rightarrow> True
    | Some (rw, m) \<Rightarrow> 0 < sum_list (map (held_change rw m) (take (length (calls s)) (calls s'))) \<longrightarrow>
        snd (calls s' ! length (calls s)) = 0"
    unfolding unlock_sound_def by blast
  with s' assms(2) pos r show False by (simp add: held_def)
qed

lemma checked_grows: "checked c s = (r, s') \<Longrightarrow> grows s s'"
  by (auto dest: checked_cases simp: grows_def)

lemma held_change_lock [simp]:
  "held_change b x (Mutex_lock n, r) = (if \<not> b \<and> n = x \<and> r = 0 then 1 else 0)"
  "held_change b x (Mutex_trylock n, r) = (if \<not> b \<and> n = x \<and> r = 0 then 1 else 0)"
  "held_change b x (Mutex_unlock n, r) = (if \<not> b \<and> n = x \<and> r = 0 then -1 else 0)"
  "held_change b x (Rw_rdlock n, r) = (if b \<and> n = x \<and> r = 0 then 1 else 0)"
  "held_change b x (Rw_wrlock n, r) = (if b \<and> n = x \<and> r = 0 then 1 else 0)"
  "held_change b x (Rw_tryrdlock n, r) = (if b \<and> n = x \<and> r = 0 then 1 else 0)"
  "held_change b x (Rw_trywrlock n, r) = (if b \<and> n = x \<and> r = 0 then 1 else 0)"
  "held_change b x (Rw_unlock n, r) = (if b \<and> n = x \<and> r = 0 then -1 else 0)"
  by (cases b; simp)+

lemma held_checked:
  "checked c s = (r, s') \<Longrightarrow> held b x s' = held b x s + held_change b x (c, answers s (length (calls s)))"
  by (auto dest!: checked_cases simp: held_def)

lemma checked_result:
  "checked c s = (Inr u, s') \<Longrightarrow> answers s (length (calls s)) = 0"
  "checked c s = (Inl e, s') \<Longrightarrow> answers s (length (calls s)) \<noteq> 0"
  by (auto dest!: checked_cases split: if_splits)

lemmas checked_facts = held_checked checked_result checked_grows

interpretation mutex_api: lock_api mutex_lock mutex_unlock False
proof
  show "mutex_unlock m s = (Inl e, s') \<Longrightarrow> unlock_sound s' \<Longrightarrow> held False m s \<le> 0" for m s e s'
    by (rule checked_unlock_fails [of "Mutex_unlock m" s e s']) (simp_all add: mutex_unlock_def)
qed (auto simp: mutex_lock_def mutex_unlock_def checked_facts)

interpretation rdlock_api: lock_api rwlock_rdlock rwlock_unlock True
proof
  show "rwlock_unlock m s = (Inl e, s') \<Longrightarrow> unlock_sound s' \<Longrightarrow> held True m s \<le> 0" for m s e s'
    by (rule checked_unlock_fails [of "Rw_unlock m" s e s']) (simp_all add: rwlock_unlock_def)
qed (auto simp: rwlock_rdlock_def rwlock_unlock_def checked_facts)

interpretation wrlock_api: lock_api rwlock_wrlock rwlock_unlock True
proof
  show "rwlock_unlock m s = (Inl e, s') \<Longrightarrow> unlock_sound s' \<Longrightarrow> held True m s \<le> 0" for m s e s'
    by (rule checked_unlock_fails [of "Rw_unlock m" s e s']) (simp_all add: rwlock_unlock_def)
qed (auto simp: rwlock_wrlock_def rwlock_unlock_def checked_facts)

text \<open>
  C36. A scope that holds a guard (a scoped lock of a mutex, a read or write lock, or a
  reference to an \<open>exclusive\<close>), that unlocks and relocks it in any order and leaves at its end or
  by an exception, holds exactly the locks it held before, when an unlock fails only for a lock
  that is not held.
\<close>

theorem scoped_locks_balanced:
  assumes "(acquire, release, rw) \<in> {(mutex_lock, mutex_unlock, False),
      (rwlock_rdlock, rwlock_unlock, True), (rwlock_wrlock, rwlock_unlock, True)}"
    and "\<And>y. 0 \<le> held rw y s" and "unlock_sound (guard_scope acquire release m is s)"
  shows "held b x (guard_scope acquire release m is s) = held b x s"
  using assms mutex_api.scope_balanced rdlock_api.scope_balanced wrlock_api.scope_balanced by auto

text \<open>A scope that relocks to another mutex, and is left when that fails.\<close>

definition demo_lib :: plib where
  "demo_lib = \<lparr>answers = (\<lambda>i. if i = 2 then 35 else 0), calls = []\<rparr>"

theorem scoped_locks_balanced_witness:
  "held False 7 (guard_scope mutex_lock mutex_unlock 7 [Relock 8, Unlock] demo_lib) = 0"
proof -
  have fin: "calls (guard_scope mutex_lock mutex_unlock 7 [Relock 8, Unlock] demo_lib)
      = [(Mutex_lock 7, 0), (Mutex_unlock 7, 0), (Mutex_lock 8, 35)]"
    by (simp add: guard_scope_def guard_lock_def guard_relock_def guard_unlock_def guard_destroy_def
        mutex_lock_def mutex_unlock_def checked_def pt_call_def demo_lib_def)
  have "unlock_sound (guard_scope mutex_lock mutex_unlock 7 [Relock 8, Unlock] demo_lib)"
    by (simp add: unlock_sound_def fin nth_Cons split: nat.splits)
  moreover have "held False y demo_lib = 0" for y by (simp add: held_def demo_lib_def)
  ultimately show ?thesis
    using scoped_locks_balanced [of mutex_lock mutex_unlock False demo_lib 7 "[Relock 8, Unlock]" False 7]
    by simp
qed

text \<open>
  The wrappers report what the library answered: a lock that was taken, a try that found it busy, a
  wait that timed out. Any other answer is thrown with its sign changed, where the thread
  operations throw the number itself.
\<close>

lemma pthread_answers:
  "let err = answers s (length (calls s));
       tried_result = (\<lambda>no. if err = 0 then Inr True else if err = no then Inr False else Inl (- err))
   in fst (mutex_trylock m s) = tried_result EBUSY
    \<and> fst (rwlock_tryrdlock m s) = tried_result EBUSY
    \<and> fst (rwlock_trywrlock m s) = tried_result EBUSY
    \<and> fst (cond_timedwait c m t s) = tried_result ETIMEDOUT
    \<and> fst (mutex_lock m s) = (if err = 0 then Inr () else Inl (- err))
    \<and> fst (cond_wait c m s) = (if err = 0 then Inr () else Inl (- err))
    \<and> fst (thread_run i s) = (if err = 0 then Inr () else Inl err)"
  by (simp add: mutex_trylock_def rwlock_tryrdlock_def rwlock_trywrlock_def Let_def
      cond_timedwait_def mutex_lock_def cond_wait_def thread_run_def thread_checked_def tried_def
      checked_def pt_call_def)

text \<open>
  The signal thread handles, in order, the signals \<open>sigwait\<close> delivers before its first error; a
  thread that cannot be started leaves the signal mask as it was.
\<close>

lemma signal_thread_upto:
  "signal_thread rs = map snd (takeWhile (\<lambda>(err, _). err = 0) rs)"
  by (induction rs rule: signal_thread.induct) auto

lemma pthread_signal_new_undo:
  assumes "pthread_signal_new t s = (Inl e, s')" and "0 \<le> answers s (length (calls s))"
  shows "map fst (calls s') = map fst (calls s) @ [Sigprocmask_block, Thread_create t, Sigprocmask_unblock]"
  using assms by (auto simp: pthread_signal_new_def pt_call_def thread_run_def thread_checked_def Let_def
      split: if_splits)

end
