(* ===== verification/Thread_Errors.thy ===== *)
theory Thread_Errors
  imports Pthread_Locks
begin

text \<open>
  What \<^verbatim>\<open>src/mp/pthread_impl.h\<close> does without looking at a result, the function a thread runs in, and the
  exceptions of \<^verbatim>\<open>mp/exception.h\<close>, \<^verbatim>\<open>mp/pthread.h\<close> and \<^verbatim>\<open>exception.h\<close> with their messages. \<open>strerror\<close>,
  \<open>demangle\<close> (\<open>__cxa_demangle\<close>) and the stream \<open>std::cerr\<close>, whose output may throw, are parameters.
\<close>

section \<open>Objects of the pthread library\<close>

text \<open>Constructors and destructors drop the answer of the library.\<close>

definition dropped :: "pcall \<Rightarrow> plib \<Rightarrow> plib" where
  "dropped c s = snd (pt_call c s)"

definition mutex_new :: "lock_id \<Rightarrow> plib \<Rightarrow> plib" where
  "mutex_new m = dropped (Mutex_init m)"

definition mutex_new_kind :: "lock_id \<Rightarrow> int \<Rightarrow> plib \<Rightarrow> plib" where
  "mutex_new_kind m kind s =
    dropped (Mutex_init m) (dropped (Mutexattr_settype kind) (dropped Mutexattr_init s))"

definition mutex_destroy :: "lock_id \<Rightarrow> plib \<Rightarrow> plib" where
  "mutex_destroy m = dropped (Mutex_destroy m)"

definition rwlock_new :: "lock_id \<Rightarrow> plib \<Rightarrow> plib" where
  "rwlock_new m = dropped (Rw_init m)"

definition rwlock_destroy :: "lock_id \<Rightarrow> plib \<Rightarrow> plib" where
  "rwlock_destroy m = dropped (Rw_destroy m)"

definition cond_new :: "nat \<Rightarrow> plib \<Rightarrow> plib" where
  "cond_new c = dropped (Cond_init c)"

definition cond_destroy :: "nat \<Rightarrow> plib \<Rightarrow> plib" where
  "cond_destroy c = dropped (Cond_destroy c)"

definition thread_cancel :: "nat \<Rightarrow> plib \<Rightarrow> plib" where
  "thread_cancel t = dropped (Thread_cancel t)"

lemma dropped_calls: "map fst (calls (dropped c s)) = map fst (calls s) @ [c]"
  by (simp add: dropped_def pt_call_def Let_def)

text \<open>None of them takes or releases a lock.\<close>

lemma dropped_held [simp]:
  assumes "held_change b x (c, answers s (length (calls s))) = 0"
  shows "held b x (dropped c s) = held b x s"
  using assms by (simp add: dropped_def pt_call_def Let_def held_def)

lemma objects_hold_nothing:
  "held b x (mutex_new m s) = held b x s" "held b x (mutex_new_kind m kind s) = held b x s"
  "held b x (mutex_destroy m s) = held b x s" "held b x (rwlock_new m s) = held b x s"
  "held b x (rwlock_destroy m s) = held b x s" "held b x (cond_new c s) = held b x s"
  "held b x (cond_destroy c s) = held b x s" "held b x (thread_cancel t s) = held b x s"
  by (cases b; simp add: mutex_new_def mutex_new_kind_def mutex_destroy_def rwlock_new_def rwlock_destroy_def
      cond_new_def cond_destroy_def thread_cancel_def)+

text \<open>
  A mutex that the library could not create is not noticed by its constructor; the first lock reports it,
  if the library does.
\<close>

lemma failed_init_unnoticed:
  assumes "answers s (length (calls s)) = 12"
  shows "calls (mutex_new m s) = calls s @ [(Mutex_init m, 12)]"
  using assms by (simp add: mutex_new_def dropped_def pt_call_def Let_def)

section \<open>The exceptions\<close>

definition system_error :: "(int \<Rightarrow> string) \<Rightarrow> int \<Rightarrow> string \<Rightarrow> string" where
  "system_error strerror e msg = msg @ '': '' @ strerror e"

definition pthread_error :: "(int \<Rightarrow> string) \<Rightarrow> int \<Rightarrow> string \<Rightarrow> string" where
  "pthread_error strerror e msg = system_error strerror e msg"

text \<open>\<open>errno\<close> is the variable, \<open>e\<close> the argument.\<close>

definition event_error :: "(int \<Rightarrow> string) \<Rightarrow> int \<Rightarrow> int \<Rightarrow> string \<Rightarrow> string" where
  "event_error strerror errno e msg = system_error strerror errno msg"

datatype connection_error = Connection_closed_error | Connection_broken_error

fun connection_what :: "connection_error \<Rightarrow> string" where
  "connection_what Connection_closed_error = ''connection closed''"
| "connection_what Connection_broken_error = ''connection broken''"

text \<open>The message of an \<open>event_error\<close> does not depend on its argument.\<close>

lemma event_error_argument: "event_error strerror errno e msg = event_error strerror errno e' msg"
  by (simp add: event_error_def)

text \<open>
  The messages of a failing lock and of a failing thread operation: the lock names the error with the
  negative number, which is none of the system's.
\<close>

lemma lock_error_message:
  assumes "answers s (length (calls s)) = e" and "e \<noteq> 0"
  shows "fst (mutex_lock m s) = Inl (- e)" and "fst (thread_join t s) = Inl e"
    and "pthread_error strerror (- e) msg = msg @ '': '' @ strerror (- e)"
  using assms by (simp_all add: mutex_lock_def checked_def thread_join_def thread_checked_def pt_call_def Let_def
      pthread_error_def system_error_def)

section \<open>The function of a thread\<close>

record pthread_thread =
  m_thread :: nat
  m_pimpl :: nat

definition thread_eq :: "pthread_thread \<Rightarrow> pthread_thread \<Rightarrow> bool" where
  "thread_eq t u \<longleftrightarrow> m_thread t = m_thread u"

definition thread_neq :: "pthread_thread \<Rightarrow> pthread_thread \<Rightarrow> bool" where
  "thread_neq t u \<longleftrightarrow> \<not> thread_eq t u"

text \<open>
  \<open>Std_exception\<close> carries the name of its type and its message; \<open>None\<close> is a body that returns.
\<close>

datatype thrown = Std_exception string string | Unknown_object

fun death_note :: "(string \<Rightarrow> string) \<Rightarrow> thrown \<Rightarrow> string" where
  "death_note demangle (Std_exception name what) =
    ''thread terminated with throwing an instance of '' @ [CHR 0x27] @ demangle name @ [CHR 0x27, CHR 0x0A]
      @ ''  what():  '' @ what @ [CHR 0x0A]"
| "death_note demangle Unknown_object = ''thread terminated with throwing an unknown object'' @ [CHR 0x0A]"

definition trampoline :: "(string \<Rightarrow> 'w \<Rightarrow> bool \<times> 'w) \<Rightarrow> (string \<Rightarrow> string) \<Rightarrow> ('w \<Rightarrow> thrown option \<times> 'w) \<Rightarrow>
    'w \<Rightarrow> thrown option \<times> 'w" where
  "trampoline cerr demangle body w =
    (case body w of
       (None, w1) \<Rightarrow> (None, w1)
     | (Some x, w1) \<Rightarrow> (case cerr (death_note demangle x) w1 of (ok, w2) \<Rightarrow> (Some x, w2)))"

text \<open>
  A thread ends the way its body ends: the report of an exception neither hides it nor adds another,
  whatever happens to the stream; a body that returns reports nothing.
\<close>

lemma trampoline_transparent:
  "fst (trampoline cerr demangle body w) = fst (body w)"
  "fst (body w) = None \<Longrightarrow> trampoline cerr demangle body w = body w"
  "fst (body w) = Some x \<Longrightarrow>
    snd (trampoline cerr demangle body w) = snd (cerr (death_note demangle x) (snd (body w)))"
  by (auto simp: trampoline_def split: prod.split option.split)

end
