(* ===== verification/Wavy_Port.thy ===== *)
theory Wavy_Port
  imports Prelude
begin

text \<open>
  \<^verbatim>\<open>src/mpsrc/wavy_port_epoll.h\<close>: the port over Linux \<open>epoll\<close>. A registration carries in its 64
  bits of user data the descriptor (low half) and the event mask (high half), so that an event
  taken from the queue is enough to re-arm or to remove its descriptor.

  The kernel is the parameter \<open>os\<close>: a record of system calls on a kernel state \<open>'k\<close>. A descriptor
  is a C \<open>int\<close>, kept as a 32-bit word and read with \<open>sint\<close>; \<open>struct epoll_event\<close> is the pair of its
  event mask and its data. A negative result is \<open>-1\<close>.
\<close>

type_synonym c_int = "32 word"
type_synonym epoll_event = "uint32_t \<times> uint64_t"

datatype ctl_op = EPOLL_CTL_ADD | EPOLL_CTL_MOD | EPOLL_CTL_DEL

record 'k kernel =
  epoll_create :: "'k \<Rightarrow> c_int \<times> 'k"
  epoll_ctl :: "c_int \<Rightarrow> ctl_op \<Rightarrow> c_int \<Rightarrow> epoll_event option \<Rightarrow> 'k \<Rightarrow> c_int \<times> 'k"
  epoll_wait :: "c_int \<Rightarrow> nat \<Rightarrow> int \<Rightarrow> 'k \<Rightarrow> epoll_event list option \<times> 'k"
  timerfd_create :: "'k \<Rightarrow> c_int \<times> 'k"
  timerfd_settime :: "c_int \<Rightarrow> (int \<times> int) \<times> (int \<times> int) \<Rightarrow> 'k \<Rightarrow> c_int \<times> 'k"
  signalfd_create :: "nat \<Rightarrow> 'k \<Rightarrow> c_int \<times> 'k"
  set_nonblock :: "c_int \<Rightarrow> 'k \<Rightarrow> c_int \<times> 'k"
  read_u64 :: "c_int \<Rightarrow> 'k \<Rightarrow> uint64_t option \<times> 'k"
  read_siginfo :: "c_int \<Rightarrow> 'k \<Rightarrow> bool \<times> 'k"
  close_fd :: "c_int \<Rightarrow> 'k \<Rightarrow> 'k"

definition EPOLLIN :: uint16_t where "EPOLLIN = 1"
definition EPOLLOUT :: uint16_t where "EPOLLOUT = 4"
definition EPOLLONESHOT :: uint32_t where "EPOLLONESHOT = 0x40000000"

definition EVPORT_READ :: uint16_t where "EVPORT_READ = EPOLLIN"
definition EVPORT_WRITE :: uint16_t where "EVPORT_WRITE = EPOLLOUT"

definition MP_WAVY_PORT_BACKLOG_SIZE :: nat where "MP_WAVY_PORT_BACKLOG_SIZE = 256"

text \<open>The state of a port object is its descriptor. A failing constructor throws.\<close>

datatype 'a thrown = Value 'a | Thrown

definition port_new :: "'k kernel \<Rightarrow> 'k \<Rightarrow> c_int thrown \<times> 'k" where
  "port_new os k =
    (case epoll_create os k of (ep, k') \<Rightarrow> if sint ep < 0 then (Thrown, k') else (Value ep, k'))"

definition port_destroy :: "'k kernel \<Rightarrow> c_int \<Rightarrow> 'k \<Rightarrow> 'k" where
  "port_destroy os ep k = close_fd os ep k"

section \<open>Events\<close>

definition event_ident :: "uint64_t \<Rightarrow> c_int" where
  "event_ident d = ucast (d AND 0xffffffff)"

definition event_events :: "uint64_t \<Rightarrow> uint32_t" where
  "event_events d = ucast (drop_bit 32 d)"

text \<open>
  \<open>ev.events = events | EPOLLONESHOT\<close> promotes the \<open>short\<close> to \<open>int\<close>, \<open>(uint64_t)fd\<close> extends the
  sign of \<open>fd\<close>.
\<close>

definition epoll_mask :: "uint16_t \<Rightarrow> uint32_t" where
  "epoll_mask events = scast events OR EPOLLONESHOT"

definition event_data :: "c_int \<Rightarrow> uint32_t \<Rightarrow> uint64_t" where
  "event_data fd evs = scast fd OR push_bit 32 (ucast evs)"

definition add_fd :: "'k kernel \<Rightarrow> c_int \<Rightarrow> c_int \<Rightarrow> uint16_t \<Rightarrow> 'k \<Rightarrow> c_int \<times> 'k" where
  "add_fd os ep fd events k =
    (let evs = epoll_mask events in
     epoll_ctl os ep EPOLL_CTL_ADD fd (Some (evs, event_data fd evs)) k)"

definition shot_reactivate :: "'k kernel \<Rightarrow> c_int \<Rightarrow> uint64_t \<Rightarrow> 'k \<Rightarrow> c_int \<times> 'k" where
  "shot_reactivate os ep e k =
    epoll_ctl os ep EPOLL_CTL_MOD (event_ident e) (Some (event_events e, e)) k"

definition shot_remove :: "'k kernel \<Rightarrow> c_int \<Rightarrow> uint64_t \<Rightarrow> 'k \<Rightarrow> c_int \<times> 'k" where
  "shot_remove os ep e k = epoll_ctl os ep EPOLL_CTL_DEL (event_ident e) None k"

definition remove_fd :: "'k kernel \<Rightarrow> c_int \<Rightarrow> c_int \<Rightarrow> uint16_t \<Rightarrow> 'k \<Rightarrow> c_int \<times> 'k" where
  "remove_fd os ep fd events k = epoll_ctl os ep EPOLL_CTL_DEL fd None k"

definition add_port :: "'k kernel \<Rightarrow> c_int \<Rightarrow> c_int \<Rightarrow> 'k \<Rightarrow> c_int \<times> 'k" where
  "add_port os ep pt k =
    (case add_fd os ep pt EVPORT_READ k of (r, k') \<Rightarrow> if sint r < 0 then (-1, k') else (pt, k'))"

text \<open>\<open>wait\<close>: the events of the backlog, \<open>None\<close> for a negative result.\<close>

definition port_wait :: "'k kernel \<Rightarrow> c_int \<Rightarrow> int \<Rightarrow> 'k \<Rightarrow> uint64_t list option \<times> 'k" where
  "port_wait os ep timeout_msec k =
    (case epoll_wait os ep MP_WAVY_PORT_BACKLOG_SIZE timeout_msec k of
       (r, k') \<Rightarrow> (map_option (map snd) r, k'))"

text \<open>
  \<open>max\<close>, from the soft limit of \<open>getrlimit\<close> when that answers. The backlog: the constructor takes zeroed
  memory when \<open>calloc\<close> has it, \<open>wait\<close> overwrites the beginning, and an index outside it is an access
  outside that memory.
\<close>

definition port_max :: "nat option \<Rightarrow> nat thrown" where
  "port_max rlim_cur = (case rlim_cur of None \<Rightarrow> Thrown | Some n \<Rightarrow> Value n)"

definition backlog_new :: "bool \<Rightarrow> epoll_event list thrown" where
  "backlog_new granted = (if granted then Value (replicate MP_WAVY_PORT_BACKLOG_SIZE (0, 0)) else Thrown)"

definition backlog_at :: "epoll_event list \<Rightarrow> nat \<Rightarrow> uint64_t option" where
  "backlog_at buf n = (if n < length buf then Some (snd (buf ! n)) else None)"

definition wait_into :: "'k kernel \<Rightarrow> c_int \<Rightarrow> epoll_event list \<Rightarrow> int \<Rightarrow> 'k \<Rightarrow> int \<times> epoll_event list \<times> 'k" where
  "wait_into os ep buf timeout_msec k =
    (case epoll_wait os ep MP_WAVY_PORT_BACKLOG_SIZE timeout_msec k of
       (None, k') \<Rightarrow> (-1, buf, k')
     | (Some evs, k') \<Rightarrow> (int (length evs), store_at buf 0 evs, k'))"

definition wait_forever :: "'k kernel \<Rightarrow> c_int \<Rightarrow> epoll_event list \<Rightarrow> 'k \<Rightarrow> int \<times> epoll_event list \<times> 'k" where
  "wait_forever os ep buf k = wait_into os ep buf (-1) k"

text \<open>
  When the kernel returns no more events than it was asked for, the entries below the result of \<open>wait\<close> are
  the events that \<open>port_wait\<close> gives, and the backlog keeps its size.
\<close>

lemma wait_into_events:
  assumes "wait_into os ep buf t k = (int n, buf', k')" and "length buf = MP_WAVY_PORT_BACKLOG_SIZE"
    and "\<And>evs k1. epoll_wait os ep MP_WAVY_PORT_BACKLOG_SIZE t k = (Some evs, k1) \<Longrightarrow> length evs \<le> MP_WAVY_PORT_BACKLOG_SIZE"
  shows "length buf' = MP_WAVY_PORT_BACKLOG_SIZE
    \<and> (\<exists>ds. port_wait os ep t k = (Some ds, k') \<and> length ds = n \<and> (\<forall>i < n. backlog_at buf' i = Some (ds ! i)))"
proof -
  obtain r k1 where r: "epoll_wait os ep MP_WAVY_PORT_BACKLOG_SIZE t k = (r, k1)" by fastforce
  with assms(1) obtain evs where evs: "r = Some evs" by (cases r) (auto simp: wait_into_def)
  with assms(1) r have "n = length evs" "buf' = store_at buf 0 evs" "k' = k1" by (auto simp: wait_into_def)
  with assms(2) assms(3) [OF r [unfolded evs]] r evs show ?thesis
    by (auto simp: port_wait_def backlog_at_def store_at_in nth_append)
qed

section \<open>Timers and signals\<close>

text \<open>
  A \<open>timer\<close> or \<open>signal\<close> object owns a descriptor until \<open>add_timer\<close> or \<open>add_signal\<close> hands it to the
  port; its destructor closes what it still owns. The state is the field \<open>fd\<close>.
\<close>

definition create_timer :: "'k kernel \<Rightarrow> int \<times> int \<Rightarrow> (int \<times> int) option \<Rightarrow> 'k \<Rightarrow>
    c_int \<times> c_int \<times> 'k" where
  "create_timer os value interval k =
    (case timerfd_create os k of (fd, k1) \<Rightarrow>
      if sint fd < 0 then (-1, fd, k1)
      else case set_nonblock os fd k1 of (r, k2) \<Rightarrow>
        if sint r < 0 then (-1, fd, k2)
        else case timerfd_settime os fd (value, case interval of None \<Rightarrow> (0, 0) | Some i \<Rightarrow> i) k2 of
          (r, k3) \<Rightarrow> if sint r < 0 then (-1, fd, k3) else (fd, fd, k3))"

definition add_timer :: "'k kernel \<Rightarrow> c_int \<Rightarrow> c_int \<Rightarrow> 'k \<Rightarrow> c_int \<times> c_int \<times> 'k" where
  "add_timer os ep fd k =
    (case add_fd os ep fd EVPORT_READ k of (r, k') \<Rightarrow>
      if sint r < 0 then (-1, fd, k') else (0, -1, k'))"

definition timer_destroy :: "'k kernel \<Rightarrow> c_int \<Rightarrow> 'k \<Rightarrow> 'k" where
  "timer_destroy os fd k = (if 0 \<le> sint fd then close_fd os fd k else k)"

definition get_timer :: "'k kernel \<Rightarrow> uint64_t \<Rightarrow> 'k \<Rightarrow> c_int \<times> 'k" where
  "get_timer os e k =
    (case read_u64 os (event_ident e) k of
       (None, k') \<Rightarrow> (-1, k')
     | (Some exp, k') \<Rightarrow> (ucast (exp AND 0x7fffffff), k'))"

definition create_signal :: "'k kernel \<Rightarrow> nat \<Rightarrow> 'k \<Rightarrow> c_int \<times> c_int \<times> 'k" where
  "create_signal os signo k =
    (case signalfd_create os signo k of (fd, k1) \<Rightarrow>
      if sint fd < 0 then (-1, fd, k1)
      else case set_nonblock os fd k1 of (r, k2) \<Rightarrow>
        if sint r < 0 then (-1, fd, k2) else (fd, fd, k2))"

definition add_signal :: "'k kernel \<Rightarrow> c_int \<Rightarrow> c_int \<Rightarrow> 'k \<Rightarrow> c_int \<times> c_int \<times> 'k" where
  "add_signal os ep fd k =
    (case add_fd os ep fd EVPORT_READ k of (r, k') \<Rightarrow>
      if sint r < 0 then (-1, fd, k') else (0, -1, k'))"

definition signal_destroy :: "'k kernel \<Rightarrow> c_int \<Rightarrow> 'k \<Rightarrow> 'k" where
  "signal_destroy os fd k = (if 0 \<le> sint fd then close_fd os fd k else k)"

definition get_signal :: "'k kernel \<Rightarrow> uint64_t \<Rightarrow> 'k \<Rightarrow> c_int \<times> 'k" where
  "get_signal os e k =
    (case read_siginfo os (event_ident e) k of (ok, k') \<Rightarrow> (if ok then 0 else -1, k'))"

section \<open>Round trip of the packed data\<close>

lemma low_mask: "(0xffffffff :: uint64_t) = mask 32"
  by (simp add: mask_eq_exp_minus_1)

lemma event_ident_data: "0 \<le> sint fd \<Longrightarrow> event_ident (event_data fd evs) = fd"
  by (rule bit_word_eqI)
    (auto simp: event_ident_def event_data_def low_mask bit_simps)

lemma event_events_data:
  assumes "0 \<le> sint fd"
  shows "event_events (event_data fd evs) = evs"
proof (rule bit_word_eqI)
  fix n
  assume "n < LENGTH(32)"
  have "\<not> bit fd 31" using assms bit_last_iff [of fd] by simp
  with \<open>n < LENGTH(32)\<close> show "bit (event_events (event_data fd evs)) n = bit evs n"
    by (auto simp: event_events_def event_data_def bit_simps)
qed

text \<open>
  Re-arming an event registers what was registered. For a valid descriptor, the event of a
  registration by \<open>add_fd\<close> yields back its descriptor, and \<open>shot_reactivate\<close> and \<open>shot_remove\<close> on
  it address exactly that descriptor, with the mask and the data of the registration.
\<close>

theorem event_round_trip:
  assumes "0 \<le> sint fd" and "e = event_data fd (epoll_mask events)"
  shows "event_ident e = fd
     \<and> add_fd os ep fd events k = epoll_ctl os ep EPOLL_CTL_ADD fd (Some (epoll_mask events, e)) k
     \<and> shot_reactivate os ep e k = epoll_ctl os ep EPOLL_CTL_MOD fd (Some (epoll_mask events, e)) k
     \<and> shot_remove os ep e k = epoll_ctl os ep EPOLL_CTL_DEL fd None k"
  using assms
  by (simp add: event_ident_data event_events_data add_fd_def shot_reactivate_def
      shot_remove_def Let_def)

text \<open>
  Who closes the descriptor of a timer. After \<open>create_timer\<close>, and \<open>add_timer\<close> when that
  succeeded, the destructor of the object closes the descriptor exactly when it was created and not
  handed to the port: no path leaks it, none closes it twice.
\<close>

theorem timer_owner:
  assumes "create_timer os value interval k = (r, fd, k1)"
  shows "(sint r < 0 \<longrightarrow> (sint fd < 0 \<longrightarrow> timer_destroy os fd k1 = k1)
         \<and> (0 \<le> sint fd \<longrightarrow> timer_destroy os fd k1 = close_fd os fd k1))
     \<and> (0 \<le> sint r \<longrightarrow> r = fd
         \<and> (case add_timer os ep fd k1 of (r2, fd2, k2) \<Rightarrow>
             (sint r2 < 0 \<longrightarrow> timer_destroy os fd2 k2 = close_fd os fd k2)
             \<and> (r2 = 0 \<longrightarrow> timer_destroy os fd2 k2 = k2)
             \<and> (r2 = 0 \<or> sint r2 < 0)))"
  using assms
  by (auto simp: create_timer_def add_timer_def timer_destroy_def split: prod.splits if_splits)

section \<open>A concrete kernel\<close>

text \<open>
  The state is the table of the registrations of one \<open>epoll\<close> descriptor and the list of closed
  descriptors; new descriptors are 7.
\<close>

fun table_ctl :: "ctl_op \<Rightarrow> c_int \<Rightarrow> epoll_event option \<Rightarrow> (c_int \<times> epoll_event) list \<Rightarrow>
    c_int \<times> (c_int \<times> epoll_event) list" where
  "table_ctl EPOLL_CTL_ADD fd (Some ev) t =
    (if map_of t fd = None then (0, (fd, ev) # t) else (-1, t))"
| "table_ctl EPOLL_CTL_MOD fd (Some ev) t =
    (if map_of t fd = None then (-1, t) else (0, (fd, ev) # t))"
| "table_ctl EPOLL_CTL_DEL fd _ t =
    (if map_of t fd = None then (-1, t) else (0, List.filter (\<lambda>(g, _). g \<noteq> fd) t))"
| "table_ctl _ fd None t = (-1, t)"

definition sample_kernel :: "((c_int \<times> epoll_event) list \<times> c_int list) kernel" where
  "sample_kernel =
    \<lparr>epoll_create = (\<lambda>k. (3, k)),
     epoll_ctl = (\<lambda>ep opn fd ev (t, c). case table_ctl opn fd ev t of (r, t') \<Rightarrow> (r, t', c)),
     epoll_wait = (\<lambda>ep n ms (t, c). (Some (take n (map snd t)), t, c)),
     timerfd_create = (\<lambda>k. (7, k)), timerfd_settime = (\<lambda>fd v k. (0, k)),
     signalfd_create = (\<lambda>s k. (7, k)), set_nonblock = (\<lambda>fd k. (0, k)),
     read_u64 = (\<lambda>fd k. (Some 1, k)), read_siginfo = (\<lambda>fd k. (True, k)),
     close_fd = (\<lambda>fd (t, c). (t, fd # c))\<rparr>"

theorem event_round_trip_witness:
  "event_ident (event_data 9 (epoll_mask EVPORT_READ)) = 9
     \<and> add_fd sample_kernel 3 9 EVPORT_READ ([], []) = epoll_ctl sample_kernel 3 EPOLL_CTL_ADD 9
         (Some (epoll_mask EVPORT_READ, event_data 9 (epoll_mask EVPORT_READ))) ([], [])
     \<and> shot_reactivate sample_kernel 3 (event_data 9 (epoll_mask EVPORT_READ)) ([], [])
         = epoll_ctl sample_kernel 3 EPOLL_CTL_MOD 9
         (Some (epoll_mask EVPORT_READ, event_data 9 (epoll_mask EVPORT_READ))) ([], [])
     \<and> shot_remove sample_kernel 3 (event_data 9 (epoll_mask EVPORT_READ)) ([], [])
         = epoll_ctl sample_kernel 3 EPOLL_CTL_DEL 9 None ([], [])"
  by (rule event_round_trip) simp_all

theorem timer_owner_witness:
  "(sint (7 :: c_int) < 0 \<longrightarrow> (sint (7 :: c_int) < 0 \<longrightarrow> timer_destroy sample_kernel 7 ([], []) = ([], []))
         \<and> (0 \<le> sint (7 :: c_int) \<longrightarrow> timer_destroy sample_kernel 7 ([], []) = close_fd sample_kernel 7 ([], [])))
     \<and> (0 \<le> sint (7 :: c_int) \<longrightarrow> (7 :: c_int) = 7
         \<and> (case add_timer sample_kernel 3 7 ([], []) of (r2, fd2, k2) \<Rightarrow>
             (sint r2 < 0 \<longrightarrow> timer_destroy sample_kernel fd2 k2 = close_fd sample_kernel 7 k2)
             \<and> (r2 = 0 \<longrightarrow> timer_destroy sample_kernel fd2 k2 = k2)
             \<and> (r2 = 0 \<or> sint r2 < 0)))"
proof (rule timer_owner)
  show "create_timer sample_kernel (1, 0) None ([], []) = (7, 7, [], [])"
    by (simp add: create_timer_def sample_kernel_def)
qed

end
