(* ===== verification/Wavy_Core.thy ===== *)
theory Wavy_Core
  imports Wavy_Port
begin

text \<open>
  \<^verbatim>\<open>src/mpsrc/wavy_base.cc\<close> and the class \<open>coreimpl\<close> of \<^verbatim>\<open>wavy_core.h\<close>: the event loop that the
  worker threads share.

  A worker holds \<open>m_mutex\<close> from the top of the loop to its first \<open>lk.unlock()\<close> or to
  \<open>m_cond.wait\<close>; what it does there is one function on the shared state (\<open>begin_section\<close>,
  \<open>after_poll\<close>) and one step of the relation \<open>core_step\<close>. What a worker does without the mutex
  (wait on the port, run a task, call a handler, re-arm or remove a descriptor) are steps of their
  own, so that those of different workers interleave in any order. The other steps are what the rest
  of the program and the kernel do: \<open>submit\<close>, \<open>add_handler\<close>, \<open>end\<close>, opening and closing of
  descriptors, threads that start, spurious wake-ups.

  An event of the port is delivered once and disarms its descriptor (\<open>EPOLLONESHOT\<close>).
\<close>

section \<open>State\<close>

type_synonym tid = nat
type_synonym task = nat
type_synonym handler_id = nat

definition MP_WAVY_TASK_QUEUE_LIMIT :: nat where "MP_WAVY_TASK_QUEUE_LIMIT = 16"

text \<open>Where a thread is: a worker of \<open>operator()\<close> or a caller of \<open>step_next\<close>.\<close>

datatype mode = Loop | Once

datatype pc =
    Absent
  | Locking
  | Waiting
  | Running task
  | Writing uint64_t
  | Polling
  | Polled nat
  | Rearming uint64_t
  | Calling uint64_t
  | Removing uint64_t
  | Resetting c_int
  | Returned
  | Died
  | Crashed

text \<open>
  \<open>k_armed\<close> are the descriptors the port may report, \<open>k_open\<close> the open ones. \<open>m_adding\<close> and
  \<open>m_registering\<close> are calls of \<open>add_handler\<close> under way, before and after \<open>set_handler\<close>;
  \<open>submitted\<close> and \<open>started\<close> record tasks.
\<close>

record core_state =
  m_off :: nat
  m_num :: nat
  m_pollable :: bool
  m_backlog :: "uint64_t list"
  m_state :: "c_int \<rightharpoonup> handler_id"
  m_tasks :: "task list"
  m_outq :: "uint64_t list"
  m_end :: bool
  m_out :: c_int
  m_pcs :: "tid \<Rightarrow> pc"
  m_adding :: "c_int \<rightharpoonup> handler_id"
  m_registering :: "c_int set"
  k_armed :: "c_int set"
  k_open :: "c_int set"
  submitted :: "task list"
  started :: "task list"

text \<open>The constructor: no worker yet, the output handler set and its port registered.\<close>

definition core_new :: "c_int \<Rightarrow> c_int \<Rightarrow> handler_id \<Rightarrow> core_state" where
  "core_new ep out_fd h =
    \<lparr>m_off = 0, m_num = 0, m_pollable = True, m_backlog = [], m_state = [out_fd \<mapsto> h],
     m_tasks = [], m_outq = [], m_end = False, m_out = out_fd, m_pcs = (\<lambda>_. Absent),
     m_adding = (\<lambda>_. None), m_registering = {}, k_armed = {out_fd}, k_open = {ep, out_fd},
     submitted = [], started = []\<rparr>"

section \<open>Under the mutex\<close>

text \<open>
  What the thread does next. \<open>Do_throw\<close> is the exception of \<open>poll_event\<close>, \<open>Do_overrun\<close> a read
  behind the events of the backlog.
\<close>

datatype action =
    Do_return | Do_wait | Do_task task | Do_out uint64_t | Do_poll
  | Do_rearm uint64_t | Do_call uint64_t | Do_throw | Do_overrun

definition do_task :: "core_state \<Rightarrow> action \<times> bool \<times> core_state" where
  "do_task c =
    (Do_task (hd (m_tasks c)), tl (m_tasks c) \<noteq> [],
     c\<lparr>m_tasks := tl (m_tasks c), started := started c @ [hd (m_tasks c)]\<rparr>)"

definition do_out :: "core_state \<Rightarrow> action \<times> bool \<times> core_state" where
  "do_out c = (Do_out (hd (m_outq c)), False, c\<lparr>m_outq := tl (m_outq c)\<rparr>)"

text \<open>\<open>out::poll_event\<close>: \<open>outs\<close> is what its port reports without waiting, \<open>None\<close> an error.\<close>

definition poll_event :: "uint64_t list option \<Rightarrow> core_state \<Rightarrow> core_state option" where
  "poll_event outs c = map_option (\<lambda>es. c\<lparr>m_outq := m_outq c @ es\<rparr>) outs"

definition take_event :: "uint64_t list option \<Rightarrow> core_state \<Rightarrow> action \<times> core_state" where
  "take_event outs c =
    (if length (m_backlog c) \<le> m_off c then (Do_overrun, c)
     else
       let e = m_backlog c ! m_off c;
           c' = c\<lparr>m_off := m_off c + 1\<rparr>
       in if event_ident e = m_out c
          then (case poll_event outs c' of None \<Rightarrow> (Do_throw, c') | Some c'' \<Rightarrow> (Do_rearm e, c''))
          else (Do_call e, c'))"

text \<open>From the lock to the first unlock. The second component says whether \<open>m_cond\<close> is signalled.\<close>

definition prefers_task :: "mode \<Rightarrow> core_state \<Rightarrow> bool" where
  "prefers_task md c = (case md of
     Loop \<Rightarrow> MP_WAVY_TASK_QUEUE_LIMIT < length (m_tasks c)
   | Once \<Rightarrow> m_tasks c \<noteq> [])"

definition begin_section ::
    "mode \<Rightarrow> uint64_t list option \<Rightarrow> core_state \<Rightarrow> action \<times> bool \<times> core_state" where
  "begin_section md outs c =
    (if m_end c then (Do_return, False, c)
     else if \<not> m_pollable c then
       (if m_outq c \<noteq> [] then do_out c
        else if m_tasks c \<noteq> [] then do_task c
        else (Do_wait, False, c))
     else if prefers_task md c then do_task c
     else if m_num c = m_off c then (Do_poll, False, c\<lparr>m_pollable := False\<rparr>)
     else case take_event outs c of (a, c') \<Rightarrow> (a, False, c'))"

text \<open>After a wait that found \<open>n\<close> events, from \<open>relock\<close> on.\<close>

definition after_poll :: "nat \<Rightarrow> uint64_t list option \<Rightarrow> core_state \<Rightarrow> action \<times> bool \<times> core_state" where
  "after_poll n outs c =
    (case take_event outs (c\<lparr>m_off := 0, m_num := n, m_pollable := True\<rparr>) of
       (a, c') \<Rightarrow> (a, True, c'))"

text \<open>The two callers of these sections: \<open>operator()\<close> and \<open>step_next\<close>.\<close>

definition loop_section :: "uint64_t list option \<Rightarrow> core_state \<Rightarrow> action \<times> bool \<times> core_state" where
  "loop_section = begin_section Loop"

definition step_next_section :: "uint64_t list option \<Rightarrow> core_state \<Rightarrow> action \<times> bool \<times> core_state" where
  "step_next_section = begin_section Once"

section \<open>Steps\<close>

fun next_pc :: "action \<Rightarrow> pc" where
  "next_pc Do_return = Returned"
| "next_pc Do_wait = Waiting"
| "next_pc (Do_task k) = Running k"
| "next_pc (Do_out e) = Writing e"
| "next_pc Do_poll = Polling"
| "next_pc (Do_rearm e) = Rearming e"
| "next_pc (Do_call e) = Calling e"
| "next_pc Do_throw = Died"
| "next_pc Do_overrun = Crashed"

text \<open>The end of a round: the loop goes back to the lock, \<open>step_next\<close> returns.\<close>

definition resume :: "mode \<Rightarrow> pc" where
  "resume md = (case md of Loop \<Rightarrow> Locking | Once \<Rightarrow> Returned)"

definition at_pc :: "tid \<Rightarrow> pc \<Rightarrow> core_state \<Rightarrow> core_state" where
  "at_pc t p c = c\<lparr>m_pcs := (m_pcs c)(t := p)\<rparr>"

definition waiters :: "core_state \<Rightarrow> tid set" where
  "waiters c = {t. m_pcs c t = Waiting}"

text \<open>\<open>pthread_cond_signal\<close> wakes at least one thread, when one waits.\<close>

definition wakes :: "bool \<Rightarrow> tid set \<Rightarrow> core_state \<Rightarrow> bool" where
  "wakes sg ts c \<longleftrightarrow> (if sg \<and> waiters c \<noteq> {} then ts \<noteq> {} \<and> ts \<subseteq> waiters c else ts = {})"

definition awaken :: "(tid \<Rightarrow> mode) \<Rightarrow> tid set \<Rightarrow> core_state \<Rightarrow> core_state" where
  "awaken md ts c = c\<lparr>m_pcs := (\<lambda>t. if t \<in> ts then resume (md t) else m_pcs c t)\<rparr>"

text \<open>A wait that found nothing.\<close>

definition poll_nothing :: "mode \<Rightarrow> tid \<Rightarrow> core_state \<Rightarrow> core_state" where
  "poll_nothing md t c = (case md of
     Loop \<Rightarrow> if m_end c then at_pc t Returned (c\<lparr>m_pollable := True\<rparr>) else c
   | Once \<Rightarrow> at_pc t Returned (c\<lparr>m_pollable := True\<rparr>))"

definition submit_impl :: "task \<Rightarrow> core_state \<Rightarrow> core_state" where
  "submit_impl k c = c\<lparr>m_tasks := m_tasks c @ [k], submitted := submitted c @ [k]\<rparr>"

definition set_handler :: "c_int \<Rightarrow> handler_id \<Rightarrow> core_state \<Rightarrow> core_state" where
  "set_handler x h c =
    c\<lparr>m_state := (m_state c)(x \<mapsto> h), m_adding := (m_adding c)(x := None),
      m_registering := insert x (m_registering c)\<rparr>"

definition port_add_fd :: "c_int \<Rightarrow> core_state \<Rightarrow> core_state" where
  "port_add_fd x c = c\<lparr>m_registering := m_registering c - {x}, k_armed := insert x (k_armed c)\<rparr>"

definition reset_handler :: "c_int \<Rightarrow> core_state \<Rightarrow> core_state" where
  "reset_handler x c = c\<lparr>m_state := (m_state c)(x := None)\<rparr>"

inductive core_step :: "(tid \<Rightarrow> mode) \<Rightarrow> core_state \<Rightarrow> core_state \<Rightarrow> bool" for md where
  spawn: "m_pcs c t = Absent \<or> md t = Once \<and> m_pcs c t = Returned \<Longrightarrow>
    core_step md c (at_pc t Locking c)"
| locked: "m_pcs c t = Locking \<Longrightarrow> begin_section (md t) outs c = (a, sg, c') \<Longrightarrow> wakes sg ts c \<Longrightarrow>
    core_step md c (at_pc t (next_pc a) (awaken md ts c'))"
| spurious: "m_pcs c t = Waiting \<Longrightarrow> core_step md c (at_pc t (resume (md t)) c)"
| task_done: "m_pcs c t = Running k \<Longrightarrow> core_step md c (at_pc t (resume (md t)) c)"
| out_written: "m_pcs c t = Writing e \<Longrightarrow> core_step md c (at_pc t (resume (md t)) c)"
| poll_some: "m_pcs c t = Polling \<Longrightarrow> es \<noteq> [] \<Longrightarrow> length es \<le> MP_WAVY_PORT_BACKLOG_SIZE \<Longrightarrow>
    distinct (map event_ident es) \<Longrightarrow> event_ident ` set es \<subseteq> k_armed c \<Longrightarrow>
    core_step md c (at_pc t (Polled (length es))
      (c\<lparr>m_backlog := es @ drop (length es) (m_backlog c),
         k_armed := k_armed c - event_ident ` set es\<rparr>))"
| poll_none: "m_pcs c t = Polling \<Longrightarrow> core_step md c (poll_nothing (md t) t c)"
| poll_error: "m_pcs c t = Polling \<Longrightarrow> core_step md c (at_pc t Died c)"
| relock: "m_pcs c t = Polled n \<Longrightarrow> after_poll n outs c = (a, sg, c') \<Longrightarrow> wakes sg ts c \<Longrightarrow>
    core_step md c (at_pc t (next_pc a) (awaken md ts c'))"
| rearm: "m_pcs c t = Rearming e \<Longrightarrow>
    core_step md c (at_pc t (resume (md t)) (c\<lparr>k_armed := insert (event_ident e) (k_armed c)\<rparr>))"
| call: "m_pcs c t = Calling e \<Longrightarrow> m_state c (event_ident e) = Some h \<Longrightarrow>
    core_step md c (at_pc t (if cont then Rearming e else Removing e) c)"
| call_null: "m_pcs c t = Calling e \<Longrightarrow> m_state c (event_ident e) = None \<Longrightarrow>
    core_step md c (at_pc t Crashed c)"
| remove: "m_pcs c t = Removing e \<Longrightarrow>
    core_step md c (at_pc t (Resetting (event_ident e)) (c\<lparr>k_armed := k_armed c - {event_ident e}\<rparr>))"
| reset: "m_pcs c t = Resetting x \<Longrightarrow> core_step md c (at_pc t (resume (md t)) (reset_handler x c))"
| submit: "wakes True ts c \<Longrightarrow> core_step md c (awaken md ts (submit_impl k c))"
| open_fd: "x \<notin> k_open c \<Longrightarrow>
    core_step md c (c\<lparr>k_open := insert x (k_open c), m_adding := (m_adding c)(x \<mapsto> h)\<rparr>)"
| add_failed: "core_step md c (c\<lparr>m_adding := (m_adding c)(x := None)\<rparr>)"
| handler_set: "m_adding c x = Some h \<Longrightarrow> core_step md c (set_handler x h c)"
| fd_added: "x \<in> m_registering c \<Longrightarrow> core_step md c (port_add_fd x c)"
| close: "m_state c x = None \<Longrightarrow> m_adding c x = None \<Longrightarrow>
    core_step md c (c\<lparr>k_open := k_open c - {x}, k_armed := k_armed c - {x}\<rparr>)"
| finish: "core_step md c (c\<lparr>m_end := True\<rparr>)"
| broadcast: "m_end c \<Longrightarrow> core_step md c (awaken md (waiters c) c)"

inductive core_reach :: "(tid \<Rightarrow> mode) \<Rightarrow> core_state \<Rightarrow> bool" for md where
  init: "core_reach md (core_new ep out_fd h)"
| step: "core_reach md c \<Longrightarrow> core_step md c c' \<Longrightarrow> core_reach md c'"

text \<open>
  \<open>step_next\<close> is a thread's one round of the same sections: it returns from the wait, from the task
  and from the handler instead of going back to the lock.
\<close>

definition step_next :: "core_state \<Rightarrow> core_state \<Rightarrow> bool" where
  "step_next = core_step (\<lambda>_. Once)"

lemma step_next_returns:
  assumes "step_next c c'" and "m_pcs c t \<in> {Waiting, Returned} \<or> (\<exists>k e x. m_pcs c t \<in> {Running k, Writing e, Resetting x})"
  shows "m_pcs c' t = m_pcs c t \<or> m_pcs c' t = Returned \<or> m_pcs c t = Returned \<and> m_pcs c' t = Locking"
proof -
  have *: "m_pcs c' u = m_pcs c u" if "begin_section md outs c = (a, sg, c')" for md outs a sg c' u
    using that by (auto simp: begin_section_def do_out_def do_task_def take_event_def poll_event_def Let_def
        split: if_splits option.splits prod.splits)
  have **: "m_pcs c' u = m_pcs c u" if "after_poll n outs c = (a, sg, c')" for n outs a sg c' u
    using that by (auto simp: after_poll_def take_event_def poll_event_def Let_def
        split: if_splits option.splits prod.splits)
  show ?thesis
    using assms(1)[unfolded step_next_def]
    by cases (use assms(2) in \<open>auto simp: at_pc_def awaken_def resume_def poll_nothing_def submit_impl_def
        set_handler_def port_add_fd_def reset_handler_def dest: * **\<close>)
qed

section \<open>What the critical sections do\<close>

text \<open>The events of the backlog no thread took yet.\<close>

definition pending :: "core_state \<Rightarrow> uint64_t list" where
  "pending c = drop (m_off c) (take (m_num c) (m_backlog c))"

definition is_poller :: "pc \<Rightarrow> bool" where
  "is_poller p \<longleftrightarrow> p = Polling \<or> (\<exists>n. p = Polled n)"

definition poll_inv :: "core_state \<Rightarrow> bool" where
  "poll_inv c \<longleftrightarrow> m_off c \<le> m_num c \<and> m_num c \<le> length (m_backlog c)
    \<and> (\<forall>t. is_poller (m_pcs c t) \<longrightarrow> \<not> m_pollable c \<and> m_off c = m_num c)
    \<and> (\<forall>t u. is_poller (m_pcs c t) \<longrightarrow> is_poller (m_pcs c u) \<longrightarrow> t = u)
    \<and> (\<forall>t n. m_pcs c t = Polled n \<longrightarrow> 0 < n \<and> n \<le> length (m_backlog c))"

text \<open>The outcomes of a section, with the frame each leaves.\<close>

definition same_but_queues :: "core_state \<Rightarrow> core_state \<Rightarrow> bool" where
  "same_but_queues c c' \<longleftrightarrow> m_backlog c' = m_backlog c \<and> m_state c' = m_state c
    \<and> m_out c' = m_out c \<and> m_pcs c' = m_pcs c \<and> m_adding c' = m_adding c \<and> m_end c' = m_end c
    \<and> m_registering c' = m_registering c \<and> k_armed c' = k_armed c \<and> k_open c' = k_open c
    \<and> submitted c' = submitted c"

lemma same_but_queuesD:
  assumes "same_but_queues c c'"
  shows "m_backlog c' = m_backlog c" "m_state c' = m_state c" "m_out c' = m_out c"
    "m_pcs c' = m_pcs c" "m_adding c' = m_adding c" "m_end c' = m_end c"
    "m_registering c' = m_registering c" "k_armed c' = k_armed c" "k_open c' = k_open c"
    "submitted c' = submitted c"
  using assms by (simp_all add: same_but_queues_def)

text \<open>Either no event is taken, or the first of the pending ones.\<close>

definition takes :: "core_state \<Rightarrow> uint64_t \<Rightarrow> action \<Rightarrow> core_state \<Rightarrow> bool" where
  "takes c e a c' \<longleftrightarrow> pending c = e # pending c' \<and> m_off c' = m_off c + 1 \<and> m_num c' = m_num c
    \<and> same_but_queues c c' \<and> m_pollable c \<and> m_pollable c' \<and> m_tasks c' = m_tasks c
    \<and> started c' = started c
    \<and> (a = Do_call e \<and> event_ident e \<noteq> m_out c \<or> a = Do_rearm e \<and> event_ident e = m_out c
       \<or> a = Do_throw \<and> event_ident e = m_out c)"

inductive section_result :: "core_state \<Rightarrow> action \<Rightarrow> bool \<Rightarrow> core_state \<Rightarrow> bool" where
  idle: "m_off c' = m_off c \<Longrightarrow> m_num c' = m_num c \<Longrightarrow> same_but_queues c c' \<Longrightarrow>
    (a = Do_return \<and> m_end c \<and> \<not> sg \<and> c' = c)
    \<or> (a = Do_wait \<and> \<not> m_pollable c \<and> m_tasks c = [] \<and> m_outq c = [] \<and> \<not> m_end c \<and> \<not> sg \<and> c' = c)
    \<or> (\<exists>k. a = Do_task k \<and> m_tasks c = k # m_tasks c' \<and> sg = (m_tasks c' \<noteq> [])
         \<and> started c' = started c @ [k] \<and> m_pollable c' = m_pollable c \<and> m_outq c' = m_outq c)
    \<or> (\<exists>e. a = Do_out e \<and> m_outq c = e # m_outq c' \<and> \<not> m_pollable c' \<and> \<not> m_pollable c \<and> \<not> sg
         \<and> m_tasks c' = m_tasks c \<and> started c' = started c)
    \<or> (a = Do_poll \<and> m_pollable c \<and> \<not> m_pollable c' \<and> m_off c = m_num c \<and> \<not> sg
         \<and> m_tasks c' = m_tasks c \<and> m_outq c' = m_outq c \<and> started c' = started c)
    \<Longrightarrow> section_result c a sg c'"
| taken: "takes c e a c' \<Longrightarrow> section_result c a sg c'"

lemma take_event_takes:
  assumes "m_off c < m_num c" and "m_num c \<le> length (m_backlog c)" and "m_pollable c"
    and "take_event outs c = (a, c')"
  shows "takes c (m_backlog c ! m_off c) a c'"
proof -
  have off: "m_off c < length (m_backlog c)" using assms(1,2) by simp
  have p: "pending c = m_backlog c ! m_off c # drop (Suc (m_off c)) (take (m_num c) (m_backlog c))"
    unfolding pending_def using assms(1,2) by (subst Cons_nth_drop_Suc [symmetric]) simp_all
  show ?thesis
    using assms off p by (auto simp: takes_def take_event_def poll_event_def Let_def pending_def
        same_but_queues_def split: if_splits option.splits)
qed

lemma begin_section_result:
  assumes "poll_inv c" and "begin_section md outs c = (a, sg, c')"
  shows "section_result c a sg c'"
proof -
  have le: "m_off c \<le> m_num c" "m_num c \<le> length (m_backlog c)" using assms(1) by (auto simp: poll_inv_def)
  show ?thesis
  proof (cases "\<not> m_end c \<and> m_pollable c \<and> \<not> prefers_task md c \<and> m_num c \<noteq> m_off c")
    case True
    then have "take_event outs c = (a, c')" using assms(2)
      by (auto simp: begin_section_def split: prod.splits)
    with True le show ?thesis by (intro section_result.taken [OF take_event_takes]) auto
  next
    case False
    have "prefers_task md c \<Longrightarrow> m_tasks c \<noteq> []" by (auto simp: prefers_task_def split: mode.splits)
    with False show ?thesis using assms(2)
      by (intro section_result.idle; cases "m_tasks c"; cases "m_outq c")
        (auto simp: begin_section_def do_out_def do_task_def same_but_queues_def split: if_splits)
  qed
qed

lemma after_poll_takes:
  assumes "0 < n" and "n \<le> length (m_backlog c)" and "after_poll n outs c = (a, sg, c')"
  shows "takes (c\<lparr>m_off := 0, m_num := n, m_pollable := True\<rparr>) (m_backlog c ! 0) a c'" and "sg"
  using assms take_event_takes [of "c\<lparr>m_off := 0, m_num := n, m_pollable := True\<rparr>" outs a c']
  by (auto simp: after_poll_def split: prod.splits)

lemma section_result_frame: "section_result c a sg c' \<Longrightarrow> same_but_queues c c'"
  by (erule section_result.cases; simp add: takes_def)

text \<open>
  Under a load of at most sixteen tasks the loop polls first and \<open>step_next\<close> takes a task first;
  where the port is being polled, both do the same.
\<close>

lemma sections_agree:
  "\<not> m_pollable c \<Longrightarrow> step_next_section outs c = loop_section outs c"
  "m_pollable c \<Longrightarrow> \<not> m_end c \<Longrightarrow> m_tasks c = [k] \<Longrightarrow> m_num c = m_off c \<Longrightarrow>
    fst (loop_section outs c) = Do_poll \<and> fst (step_next_section outs c) = Do_task k"
  by (simp_all add: loop_section_def step_next_section_def begin_section_def prefers_task_def
      MP_WAVY_TASK_QUEUE_LIMIT_def do_task_def)

section \<open>One poller at a time\<close>

lemma resume_pc [simp]: "\<not> is_poller (resume md)" "resume md \<noteq> Polled n" "resume md \<noteq> Waiting"
    "resume md \<noteq> Crashed" "resume md \<noteq> Calling e" "resume md \<noteq> Removing e"
    "resume md \<noteq> Resetting x" "resume md \<noteq> Rearming e" "resume md \<noteq> Polling"
  by (auto simp: resume_def is_poller_def split: mode.splits)

lemma is_poller_simps [simp]:
  "is_poller Polling" "is_poller (Polled n)" "\<not> is_poller Absent" "\<not> is_poller Locking"
  "\<not> is_poller Waiting" "\<not> is_poller (Running k)" "\<not> is_poller (Writing e)"
  "\<not> is_poller (Rearming e)" "\<not> is_poller (Calling e)" "\<not> is_poller (Removing e)"
  "\<not> is_poller (Resetting x)" "\<not> is_poller Returned" "\<not> is_poller Died" "\<not> is_poller Crashed"
  by (auto simp: is_poller_def)

lemma is_poller_next [simp]: "is_poller (next_pc a) \<longleftrightarrow> a = Do_poll"
  by (cases a) auto

lemma next_pc_not [simp]: "next_pc a \<noteq> Polled n" "next_pc a \<noteq> Removing e" "next_pc a \<noteq> Resetting x"
  by (cases a; simp)+

lemma awaken_frame [simp]:
  "m_off (awaken md ts c) = m_off c" "m_num (awaken md ts c) = m_num c"
  "m_pollable (awaken md ts c) = m_pollable c" "m_backlog (awaken md ts c) = m_backlog c"
  "m_state (awaken md ts c) = m_state c" "m_tasks (awaken md ts c) = m_tasks c"
  "m_outq (awaken md ts c) = m_outq c" "m_end (awaken md ts c) = m_end c"
  "m_out (awaken md ts c) = m_out c" "m_adding (awaken md ts c) = m_adding c"
  "m_registering (awaken md ts c) = m_registering c" "k_armed (awaken md ts c) = k_armed c"
  "k_open (awaken md ts c) = k_open c" "submitted (awaken md ts c) = submitted c"
  "started (awaken md ts c) = started c"
  by (simp_all add: awaken_def)

lemma at_pc_frame [simp]:
  "m_off (at_pc t p c) = m_off c" "m_num (at_pc t p c) = m_num c"
  "m_pollable (at_pc t p c) = m_pollable c" "m_backlog (at_pc t p c) = m_backlog c"
  "m_state (at_pc t p c) = m_state c" "m_tasks (at_pc t p c) = m_tasks c"
  "m_outq (at_pc t p c) = m_outq c" "m_end (at_pc t p c) = m_end c"
  "m_out (at_pc t p c) = m_out c" "m_adding (at_pc t p c) = m_adding c"
  "m_registering (at_pc t p c) = m_registering c" "k_armed (at_pc t p c) = k_armed c"
  "k_open (at_pc t p c) = k_open c" "submitted (at_pc t p c) = submitted c"
  "started (at_pc t p c) = started c" "m_pcs (at_pc t p c) = (m_pcs c)(t := p)"
  by (simp_all add: at_pc_def)

lemma m_pcs_awaken: "wakes sg ts c \<Longrightarrow> m_pcs c' = m_pcs c \<Longrightarrow>
    m_pcs (awaken md ts c') u = (if u \<in> ts then resume (md u) else m_pcs c u)"
  by (simp add: awaken_def)

lemma wakesD: "wakes sg ts c \<Longrightarrow> u \<in> ts \<Longrightarrow> m_pcs c u = Waiting"
  by (auto simp: wakes_def waiters_def split: if_splits)

text \<open>Waking threads changes nothing for the pollers.\<close>

lemma poll_inv_awaken:
  assumes "poll_inv c" and "\<And>u. u \<in> ts \<Longrightarrow> m_pcs c u = Waiting"
  shows "poll_inv (awaken md ts c)"
  using assms(1) unfolding poll_inv_def awaken_def by (auto split: if_splits)

text \<open>A thread that is no poller moves to another place.\<close>

lemma poll_inv_move:
  assumes "poll_inv c" and "\<not> is_poller p" and "m_off c' \<le> m_num c'"
    and "m_num c' \<le> length (m_backlog c')" and "m_pcs c' = m_pcs c"
    and "length (m_backlog c) \<le> length (m_backlog c')"
    and "\<And>u. u \<noteq> t \<Longrightarrow> is_poller (m_pcs c u) \<Longrightarrow> \<not> m_pollable c' \<and> m_off c' = m_num c'"
  shows "poll_inv (at_pc t p c')"
proof -
  have "p \<noteq> Polled n" for n using assms(2) by auto
  moreover have "0 < n \<and> n \<le> length (m_backlog c')" if "m_pcs c u = Polled n" for u n
    using assms(1,6) that unfolding poll_inv_def by (meson le_trans)
  ultimately show ?thesis
    using assms unfolding poll_inv_def by auto
qed

lemma poll_inv_idle:
  assumes "poll_inv c" and "\<not> is_poller p" and "\<not> is_poller (m_pcs c t)"
  shows "poll_inv (at_pc t p c)"
  by (rule poll_inv_move [OF assms(1,2)]) (use assms in \<open>auto simp: poll_inv_def\<close>)

lemma poll_inv_none:
  assumes "\<And>u. \<not> is_poller (m_pcs c u)" and "m_off c \<le> m_num c" and "m_num c \<le> length (m_backlog c)"
  shows "poll_inv c"
proof -
  have "m_pcs c u \<noteq> Polled n" for u n using assms(1) [of u] by auto
  then show ?thesis using assms by (simp add: poll_inv_def)
qed

lemma takes_poll_inv:
  assumes "takes c e a c'" and "m_num c \<le> length (m_backlog c)"
    and "\<And>u. u \<noteq> t \<Longrightarrow> \<not> is_poller (m_pcs c u)"
  shows "poll_inv (at_pc t (next_pc a) c')"
proof (rule poll_inv_none)
  have "m_off c < m_num c"
    by (rule ccontr) (use assms(1) in \<open>simp add: takes_def pending_def\<close>)
  then show "m_off (at_pc t (next_pc a) c') \<le> m_num (at_pc t (next_pc a) c')"
    "m_num (at_pc t (next_pc a) c') \<le> length (m_backlog (at_pc t (next_pc a) c'))"
    using assms(1,2) by (simp_all add: takes_def same_but_queues_def)
  have "a \<noteq> Do_poll" using assms(1) by (auto simp: takes_def)
  then show "\<not> is_poller (m_pcs (at_pc t (next_pc a) c') u)" for u
    using assms(1,3) by (simp add: takes_def same_but_queues_def)
qed

lemma poll_inv_section:
  assumes inv: "poll_inv c" and res: "section_result c a sg c'" and t: "\<not> is_poller (m_pcs c t)"
  shows "poll_inv (at_pc t (next_pc a) c')"
  using res
proof cases
  case idle
  then show ?thesis
    using inv t unfolding poll_inv_def same_but_queues_def by auto
next
  case (taken e)
  then show ?thesis
    by (rule takes_poll_inv) (use inv taken in \<open>auto simp: poll_inv_def takes_def\<close>)
qed

lemma at_pc_awaken:
  "t \<notin> ts \<Longrightarrow> at_pc t p (awaken md ts c) = awaken md ts (at_pc t p c)"
  by (auto simp: at_pc_def awaken_def fun_eq_iff)

lemma poll_inv_wake:
  assumes "poll_inv (at_pc t p c')" and "wakes sg ts c" and "m_pcs c' = m_pcs c" and "m_pcs c t \<noteq> Waiting"
  shows "poll_inv (at_pc t p (awaken md ts c'))"
proof -
  have t: "t \<notin> ts" using assms(2,4) by (auto dest: wakesD)
  have "poll_inv (awaken md ts (at_pc t p c'))"
    by (rule poll_inv_awaken [OF assms(1)]) (use assms t in \<open>auto dest: wakesD\<close>)
  with t show ?thesis by (simp add: at_pc_awaken)
qed

lemma poll_inv_frame:
  "poll_inv c \<Longrightarrow> m_off c' = m_off c \<Longrightarrow> m_num c' = m_num c \<Longrightarrow> m_backlog c' = m_backlog c \<Longrightarrow>
    m_pcs c' = m_pcs c \<Longrightarrow> m_pollable c' = m_pollable c \<Longrightarrow> poll_inv c'"
  by (simp add: poll_inv_def)

lemma poll_inv_leave:
  assumes "poll_inv c" and "is_poller (m_pcs c t)" and "\<not> is_poller p"
  shows "poll_inv (at_pc t p (c\<lparr>m_pollable := b\<rparr>))"
  by (rule poll_inv_move [OF assms(1,3)]) (use assms in \<open>auto simp: poll_inv_def\<close>)

lemma poll_inv_step:
  assumes "core_step md c c'" and "poll_inv c"
  shows "poll_inv c'"
  using assms(1)
proof cases
  case (locked t outs a sg d ts)
  have "section_result c a sg d" by (rule begin_section_result [OF assms(2) locked(3)])
  from section_result_frame [OF this] poll_inv_section [OF assms(2) this, of t] locked
  show ?thesis by (auto intro!: poll_inv_wake dest: same_but_queuesD)
next
  case (relock t n outs a sg d ts)
  have n: "0 < n" "n \<le> length (m_backlog c)" using assms(2) relock(2) by (auto simp: poll_inv_def)
  note tk = after_poll_takes(1) [OF n relock(3)]
  have "\<not> is_poller (m_pcs c u)" if "u \<noteq> t" for u
    using assms(2) relock(2) that unfolding poll_inv_def by (metis is_poller_simps(2))
  with tk n have "poll_inv (at_pc t (next_pc a) d)" by (intro takes_poll_inv [OF tk]) auto
  moreover have "m_pcs d = m_pcs c" using tk by (auto simp: takes_def dest: same_but_queuesD)
  ultimately show ?thesis using relock by (auto intro!: poll_inv_wake)
next
  case (poll_some t es)
  then have "\<not> m_pollable c" "m_off c = m_num c" "\<And>u. u \<noteq> t \<Longrightarrow> \<not> is_poller (m_pcs c u)"
    using assms(2) unfolding poll_inv_def by (metis is_poller_simps(1))+
  moreover from this(3) have "\<And>u n. u \<noteq> t \<Longrightarrow> m_pcs c u \<noteq> Polled n" by (metis is_poller_simps(2))
  ultimately show ?thesis using poll_some assms(2) unfolding poll_inv_def by auto
next
  case (poll_none t)
  have "poll_inv (at_pc t Returned (c\<lparr>m_pollable := True\<rparr>))"
    by (rule poll_inv_leave [OF assms(2)]) (simp_all add: poll_none)
  then show ?thesis using poll_none assms(2) by (auto simp: poll_nothing_def split: mode.splits)
next
  case (poll_error t)
  then show ?thesis using poll_inv_leave [OF assms(2), of t Died "m_pollable c"] by simp
next
  case (submit ts k)
  then show ?thesis
    by (auto intro!: poll_inv_awaken poll_inv_frame [OF assms(2)] simp: submit_impl_def dest: wakesD)
next
  case broadcast
  then show ?thesis by (auto intro!: poll_inv_awaken assms(2) simp: waiters_def)
qed (auto intro!: poll_inv_idle assms(2) poll_inv_frame [OF assms(2)] poll_inv_move [OF assms(2)]
    simp: reset_handler_def set_handler_def port_add_fd_def)

section \<open>A descriptor is in one place\<close>

text \<open>
  A registered descriptor is armed in the port, or its event waits in the backlog, or one thread is
  busy with it. \<open>one_place\<close> is that for any threads \<open>F\<close>, waiting items \<open>P\<close> and armed set \<open>A\<close>.
\<close>

definition one_place :: "(tid \<Rightarrow> 'a set) \<Rightarrow> 'a list \<Rightarrow> 'a set \<Rightarrow> bool" where
  "one_place F P A \<longleftrightarrow> (\<forall>t u. t \<noteq> u \<longrightarrow> F t \<inter> F u = {}) \<and> (\<forall>t. F t \<inter> (A \<union> set P) = {})
    \<and> set P \<inter> A = {} \<and> distinct P"

definition everywhere :: "(tid \<Rightarrow> 'a set) \<Rightarrow> 'a list \<Rightarrow> 'a set \<Rightarrow> 'a set" where
  "everywhere F P A = (\<Union>t. F t) \<union> set P \<union> A"

lemma one_place_take:
  "one_place F (x # P) A \<Longrightarrow> F t = {} \<Longrightarrow> S \<subseteq> {x} \<Longrightarrow> one_place (F(t := S)) P A"
  unfolding one_place_def by auto

lemma one_place_fetch:
  "one_place F P A \<Longrightarrow> F t = {} \<Longrightarrow> S \<subseteq> A \<Longrightarrow> one_place (F(t := S)) P (A - S)"
  unfolding one_place_def by (auto; blast)

lemma one_place_unpack:
  assumes "one_place F [] A" and "F t = set (x # P)" and "distinct (x # P)" and "S \<subseteq> {x}"
  shows "one_place (F(t := S)) P A"
  using assms unfolding one_place_def by (auto; blast)

lemma one_place_rearm:
  "one_place F P A \<Longrightarrow> one_place (F(t := {})) P (F t \<union> A)"
  unfolding one_place_def by auto

lemma one_place_less:
  "one_place F P A \<Longrightarrow> S \<subseteq> F t \<Longrightarrow> B \<subseteq> A \<Longrightarrow> one_place (F(t := S)) P B"
  unfolding one_place_def by (auto; blast)

lemma one_place_new:
  "one_place F P A \<Longrightarrow> x \<notin> everywhere F P A \<Longrightarrow> one_place F P (insert x A)"
  unfolding one_place_def everywhere_def by auto

fun pc_fds :: "uint64_t list \<Rightarrow> pc \<Rightarrow> c_int set" where
  "pc_fds es (Polled n) = event_ident ` set (take n es)"
| "pc_fds es (Rearming e) = {event_ident e}"
| "pc_fds es (Calling e) = {event_ident e}"
| "pc_fds es (Removing e) = {event_ident e}"
| "pc_fds es (Resetting x) = {x}"
| "pc_fds es _ = {}"

definition thread_fds :: "core_state \<Rightarrow> tid \<Rightarrow> c_int set" where
  "thread_fds c t = pc_fds (m_backlog c) (m_pcs c t)"

definition pending_fds :: "core_state \<Rightarrow> c_int list" where
  "pending_fds c = map event_ident (pending c)"

abbreviation all_fds :: "core_state \<Rightarrow> c_int set" where
  "all_fds c \<equiv> everywhere (thread_fds c) (pending_fds c) (k_armed c)"

definition placed :: "core_state \<Rightarrow> bool" where
  "placed c \<longleftrightarrow> one_place (thread_fds c) (pending_fds c) (k_armed c)"

text \<open>Who owns a descriptor: the table of handlers, or a call of \<open>add_handler\<close>.\<close>

definition owned :: "core_state \<Rightarrow> bool" where
  "owned c \<longleftrightarrow> (\<forall>x \<in> all_fds c. m_state c x \<noteq> None \<and> x \<notin> m_registering c)
    \<and> (\<forall>x. m_state c x \<noteq> None \<longrightarrow> x \<in> k_open c \<and> m_adding c x = None)
    \<and> (\<forall>x. m_adding c x \<noteq> None \<longrightarrow> x \<in> k_open c)
    \<and> (\<forall>x \<in> m_registering c. m_state c x \<noteq> None)
    \<and> m_state c (m_out c) \<noteq> None"

text \<open>The output handler is never called, removed or reset.\<close>

fun pc_ok :: "core_state \<Rightarrow> pc \<Rightarrow> bool" where
  "pc_ok c (Polled n) \<longleftrightarrow> distinct (map event_ident (take n (m_backlog c)))"
| "pc_ok c (Calling e) \<longleftrightarrow> event_ident e \<noteq> m_out c"
| "pc_ok c (Removing e) \<longleftrightarrow> event_ident e \<noteq> m_out c"
| "pc_ok c (Resetting x) \<longleftrightarrow> x \<noteq> m_out c"
| "pc_ok c Crashed \<longleftrightarrow> False"
| "pc_ok c _ \<longleftrightarrow> True"

definition shot_inv :: "core_state \<Rightarrow> bool" where
  "shot_inv c \<longleftrightarrow> placed c \<and> owned c \<and> (\<forall>t. pc_ok c (m_pcs c t))"

lemma resume_fds [simp]: "pc_fds es (resume md) = {}" "pc_ok c (resume md)"
  by (simp_all add: resume_def split: mode.splits)

definition same_owners :: "core_state \<Rightarrow> core_state \<Rightarrow> bool" where
  "same_owners c c' \<longleftrightarrow> m_state c' = m_state c \<and> m_adding c' = m_adding c
    \<and> m_registering c' = m_registering c \<and> k_open c' = k_open c \<and> m_out c' = m_out c"

text \<open>A thread moves: what it holds afterwards, what waits and what is armed was somewhere before.\<close>

lemma shot_inv_update:
  assumes inv: "shot_inv c"
    and fds: "thread_fds c' = (thread_fds c)(t := S)"
    and one: "one_place ((thread_fds c)(t := S)) (pending_fds c') (k_armed c')"
    and sub: "S \<union> set (pending_fds c') \<union> k_armed c' \<subseteq> all_fds c"
    and own: "same_owners c c'" and ok: "\<And>u. pc_ok c' (m_pcs c' u)"
  shows "shot_inv c'"
proof -
  have "all_fds c' \<subseteq> all_fds c"
    using sub unfolding fds everywhere_def by (auto split: if_splits)
  then have "owned c'" using inv own unfolding shot_inv_def owned_def same_owners_def by auto
  moreover have "placed c'" using one fds by (simp add: placed_def)
  ultimately show ?thesis using ok by (simp add: shot_inv_def)
qed

lemma shot_inv_frame:
  assumes "shot_inv c" and "thread_fds c' = thread_fds c" and "pending_fds c' = pending_fds c"
    and "k_armed c' = k_armed c" and "same_owners c c'" and "\<And>u. pc_ok c' (m_pcs c' u)"
  shows "shot_inv c'"
  using assms unfolding shot_inv_def placed_def owned_def same_owners_def by simp

lemma awaken_shot:
  assumes "shot_inv c" and "\<And>u. u \<in> ts \<Longrightarrow> m_pcs c u = Waiting"
  shows "shot_inv (awaken md ts c)"
proof (rule shot_inv_frame [OF assms(1)])
  show "thread_fds (awaken md ts c) = thread_fds c"
    using assms(2) by (auto simp: thread_fds_def fun_eq_iff awaken_def)
  show "pc_ok (awaken md ts c) (m_pcs (awaken md ts c) u)" for u
  proof -
    have "pc_ok (awaken md ts c) p = pc_ok c p" for p by (cases p) simp_all
    then show ?thesis using assms by (simp add: awaken_def shot_inv_def)
  qed
qed (simp_all add: pending_fds_def pending_def same_owners_def)


lemma thread_fds_at [simp]:
  "m_backlog c' = m_backlog c \<Longrightarrow> m_pcs c' = m_pcs c \<Longrightarrow>
    thread_fds (at_pc t p c') = (thread_fds c)(t := pc_fds (m_backlog c) p)"
  by (auto simp: thread_fds_def fun_eq_iff)

lemma pending_at [simp]: "pending (at_pc t p c) = pending c" "pending_fds (at_pc t p c) = pending_fds c"
  by (simp_all add: pending_def pending_fds_def)

lemma same_owners_at [simp]: "same_owners c (at_pc t p c') \<longleftrightarrow> same_owners c c'" "same_owners c c"
  by (simp_all add: same_owners_def)

lemma pc_ok_frame:
  "m_backlog c' = m_backlog c \<Longrightarrow> m_out c' = m_out c \<Longrightarrow> pc_ok c' p = pc_ok c p"
  by (cases p) simp_all

lemma pc_ok_at [simp]: "pc_ok (at_pc t p c) q = pc_ok c q"
  by (rule pc_ok_frame) simp_all

text \<open>A thread moves without touching anything else; it may let go of what it held.\<close>

lemma shot_inv_move:
  assumes "shot_inv c" and "pc_fds (m_backlog c) p \<subseteq> thread_fds c t" and "pc_ok c p"
    and "m_backlog c' = m_backlog c" "m_pcs c' = m_pcs c" "pending c' = pending c"
    and "k_armed c' \<subseteq> k_armed c" "same_owners c c'"
  shows "shot_inv (at_pc t p c')"
proof (rule shot_inv_update [OF assms(1), where S = "pc_fds (m_backlog c) p" and t = t])
  show "one_place ((thread_fds c)(t := pc_fds (m_backlog c) p))
      (pending_fds (at_pc t p c')) (k_armed (at_pc t p c'))"
    using assms by (auto simp: shot_inv_def placed_def pending_fds_def intro!: one_place_less)
  show "pc_fds (m_backlog c) p \<union> set (pending_fds (at_pc t p c')) \<union> k_armed (at_pc t p c') \<subseteq> all_fds c"
    using assms by (auto simp: everywhere_def pending_fds_def)
  show "pc_ok (at_pc t p c') (m_pcs (at_pc t p c') u)" for u
    using assms by (simp add: shot_inv_def same_owners_def pc_ok_frame [of c' c])
qed (use assms in simp_all)

text \<open>Taking an event: \<open>c\<close> is the state before, up to what the poller found.\<close>

lemma takes_shot:
  assumes inv: "shot_inv c" and tk: "takes d e a c'"
    and d: "m_backlog d = m_backlog c" "m_pcs d = m_pcs c" "k_armed d = k_armed c" "same_owners c d"
    and one: "\<And>S. S \<subseteq> {event_ident e} \<Longrightarrow>
      one_place ((thread_fds c)(t := S)) (map event_ident (pending c')) (k_armed c)"
    and old: "event_ident ` set (pending d) \<subseteq> all_fds c"
  shows "shot_inv (at_pc t (next_pc a) c')"
proof -
  have same: "same_but_queues d c'" and p: "pending d = e # pending c'"
    and a: "a = Do_call e \<and> event_ident e \<noteq> m_out d \<or> a = Do_rearm e \<or> a = Do_throw"
    using tk by (auto simp: takes_def)
  have f: "m_backlog c' = m_backlog c" "m_pcs c' = m_pcs c" "k_armed c' = k_armed c" "same_owners c c'"
    using same_but_queuesD [OF same] d by (simp_all add: same_owners_def)
  have S: "pc_fds (m_backlog c) (next_pc a) \<subseteq> {event_ident e}" using a by auto
  have ok: "pc_ok c (next_pc a)" using a d by (auto simp: same_owners_def)
  show ?thesis
  proof (rule shot_inv_update [OF inv, where S = "pc_fds (m_backlog c) (next_pc a)" and t = t])
    show "one_place ((thread_fds c)(t := pc_fds (m_backlog c) (next_pc a)))
        (pending_fds (at_pc t (next_pc a) c')) (k_armed (at_pc t (next_pc a) c'))"
      using one [OF S] f by (simp add: pending_fds_def)
    show "pc_fds (m_backlog c) (next_pc a) \<union> set (pending_fds (at_pc t (next_pc a) c'))
        \<union> k_armed (at_pc t (next_pc a) c') \<subseteq> all_fds c"
      using S old f p by (auto simp: pending_fds_def everywhere_def)
    show "pc_ok (at_pc t (next_pc a) c') (m_pcs (at_pc t (next_pc a) c') u)" for u
      using inv f ok by (simp add: shot_inv_def same_owners_def pc_ok_frame [of c' c])
  qed (use f in simp_all)
qed

lemma section_shot:
  assumes inv: "shot_inv c" and res: "section_result c a sg c'" and t: "m_pcs c t = Locking"
  shows "shot_inv (at_pc t (next_pc a) c')"
  using res
proof cases
  case idle
  then have "pc_fds (m_backlog c) (next_pc a) = {}" "pc_ok c (next_pc a)" by auto
  moreover have "pending c' = pending c" using idle by (simp add: pending_def same_but_queues_def)
  ultimately show ?thesis using idle(3)
    by (intro shot_inv_move [OF inv]) (simp_all add: same_but_queues_def same_owners_def)
next
  case (taken e)
  have "one_place (thread_fds c) (event_ident e # map event_ident (pending c')) (k_armed c)"
    using inv taken by (simp add: shot_inv_def placed_def pending_fds_def takes_def)
  then show ?thesis
    by (intro takes_shot [OF inv taken])
      (auto intro: one_place_take simp: t thread_fds_def everywhere_def pending_fds_def)
qed

lemma shot_inv_wake:
  assumes "shot_inv (at_pc t p c')" and "wakes sg ts c" and "m_pcs c' = m_pcs c" and "m_pcs c t \<noteq> Waiting"
  shows "shot_inv (at_pc t p (awaken md ts c'))"
proof -
  have t: "t \<notin> ts" using assms(2,4) by (auto dest: wakesD)
  have "shot_inv (awaken md ts (at_pc t p c'))"
    by (rule awaken_shot [OF assms(1)]) (use assms t in \<open>auto dest: wakesD\<close>)
  with t show ?thesis by (simp add: at_pc_awaken)
qed

lemma poller_facts:
  assumes "poll_inv c" and "is_poller (m_pcs c t)"
  shows "\<not> m_pollable c" "m_off c = m_num c" "pending c = []" "u \<noteq> t \<Longrightarrow> \<not> is_poller (m_pcs c u)"
proof -
  show off: "m_off c = m_num c" and "\<not> m_pollable c" using assms unfolding poll_inv_def by blast+
  show "pending c = []" by (simp add: pending_def off)
  show "u \<noteq> t \<Longrightarrow> \<not> is_poller (m_pcs c u)" using assms unfolding poll_inv_def by metis
qed

lemma relock_shot:
  assumes inv: "shot_inv c" and pol: "poll_inv c" and t: "m_pcs c t = Polled n"
    and run: "after_poll n outs c = (a, sg, c')"
  shows "shot_inv (at_pc t (next_pc a) c')" and "m_pcs c' = m_pcs c"
proof -
  let ?d = "c\<lparr>m_off := 0, m_num := n, m_pollable := True\<rparr>"
  have n: "0 < n" "n \<le> length (m_backlog c)" using pol t by (auto simp: poll_inv_def)
  have none: "pending c = []" by (rule poller_facts [OF pol, of t]) (simp add: t)
  note tk = after_poll_takes(1) [OF n run]
  then have p: "take n (m_backlog c) = m_backlog c ! 0 # pending c'"
    by (simp add: takes_def pending_def)
  have F: "thread_fds c t = event_ident ` set (take n (m_backlog c))"
    using t by (simp add: thread_fds_def)
  have dist: "distinct (map event_ident (take n (m_backlog c)))"
    using inv t by (metis pc_ok.simps(1) shot_inv_def)
  have one: "one_place ((thread_fds c)(t := S)) (map event_ident (pending c')) (k_armed c)"
    if "S \<subseteq> {event_ident (m_backlog c ! 0)}" for S
    by (rule one_place_unpack [OF _ _ _ that])
      (use inv none F dist p in \<open>auto simp: shot_inv_def placed_def pending_fds_def\<close>)
  show "shot_inv (at_pc t (next_pc a) c')"
    by (rule takes_shot [OF inv tk _ _ _ _ one])
      (use F in \<open>auto simp: same_owners_def everywhere_def pending_def\<close>)
  show "m_pcs c' = m_pcs c" using tk by (simp add: takes_def same_but_queues_def)
qed

lemma poll_some_shot:
  assumes inv: "shot_inv c" and pol: "poll_inv c" and t: "m_pcs c t = Polling"
    and es: "distinct (map event_ident es)" "event_ident ` set es \<subseteq> k_armed c"
  shows "shot_inv (at_pc t (Polled (length es))
      (c\<lparr>m_backlog := es @ drop (length es) (m_backlog c), k_armed := k_armed c - event_ident ` set es\<rparr>))"
    (is "shot_inv ?c")
proof (rule shot_inv_update [OF inv, where S = "event_ident ` set es" and t = t])
  have other: "\<forall>n. m_pcs c u \<noteq> Polled n" if "u \<noteq> t" for u
    using poller_facts(4) [OF pol, of t u] that t by auto
  have "pc_fds (es @ drop (length es) (m_backlog c)) (m_pcs c u) = pc_fds (m_backlog c) (m_pcs c u)"
    if "u \<noteq> t" for u using other [OF that] by (cases "m_pcs c u") simp_all
  then show "thread_fds ?c = (thread_fds c)(t := event_ident ` set es)"
    by (simp add: fun_eq_iff thread_fds_def)
  have "m_off c = m_num c" by (rule poller_facts [OF pol, of t]) (simp add: t)
  then have none: "pending_fds ?c = []" "pending_fds c = []" by (simp_all add: pending_fds_def pending_def)
  show "one_place ((thread_fds c)(t := event_ident ` set es)) (pending_fds ?c) (k_armed ?c)"
    using inv es(2) none t by (auto simp: shot_inv_def placed_def thread_fds_def intro!: one_place_fetch)
  show "event_ident ` set es \<union> set (pending_fds ?c) \<union> k_armed ?c \<subseteq> all_fds c"
    using es(2) none by (auto simp: everywhere_def)
  show "same_owners c ?c" by (simp add: same_owners_def)
  show "pc_ok ?c (m_pcs ?c u)" for u
  proof (cases "u = t")
    case False
    then have "pc_ok ?c (m_pcs c u) = pc_ok c (m_pcs c u)" using other [OF False] by (cases "m_pcs c u") auto
    with False inv show ?thesis by (simp add: shot_inv_def)
  qed (use es(1) in simp)
qed

lemma rearm_shot:
  assumes inv: "shot_inv c" and t: "m_pcs c t = Rearming e"
  shows "shot_inv (at_pc t (resume md) (c\<lparr>k_armed := insert (event_ident e) (k_armed c)\<rparr>))"
    (is "shot_inv (at_pc t _ ?d)")
proof (rule shot_inv_update [OF inv, where S = "{}" and t = t])
  have F: "thread_fds c t = {event_ident e}" by (simp add: thread_fds_def t)
  have P: "pending_fds ?d = pending_fds c" by (simp add: pending_fds_def pending_def)
  have "one_place (thread_fds c) (pending_fds c) (k_armed c)" using inv by (simp add: shot_inv_def placed_def)
  from one_place_rearm [OF this, of t]
  show "one_place ((thread_fds c)(t := {})) (pending_fds (at_pc t (resume md) ?d)) (k_armed (at_pc t (resume md) ?d))"
    by (simp add: P F)
  have "event_ident e \<in> all_fds c" using F unfolding everywhere_def by blast
  then show "{} \<union> set (pending_fds (at_pc t (resume md) ?d)) \<union> k_armed (at_pc t (resume md) ?d) \<subseteq> all_fds c"
    by (auto simp: P everywhere_def)
  have "pc_ok ?d p = pc_ok c p" for p by (rule pc_ok_frame) simp_all
  then show "pc_ok (at_pc t (resume md) ?d) (m_pcs (at_pc t (resume md) ?d) u)" for u
    using inv by (simp add: shot_inv_def)
qed (simp_all add: same_owners_def)

lemma reset_shot:
  assumes inv: "shot_inv c" and t: "m_pcs c t = Resetting x"
  shows "shot_inv (at_pc t (resume md) (reset_handler x c))"
proof -
  let ?c = "at_pc t (resume md) (reset_handler x c)"
  have x: "thread_fds c t = {x}" "x \<noteq> m_out c"
    using inv t by (auto simp: thread_fds_def shot_inv_def dest!: spec [of _ t])
  have fds: "thread_fds ?c = (thread_fds c)(t := {})" "pending_fds ?c = pending_fds c" "k_armed ?c = k_armed c"
    by (auto simp: thread_fds_def fun_eq_iff reset_handler_def pending_fds_def pending_def)
  have one: "one_place (thread_fds c) (pending_fds c) (k_armed c)" and own: "owned c"
    using inv by (auto simp: shot_inv_def placed_def)
  have "x \<notin> all_fds ?c"
    using one x(1) unfolding fds one_place_def everywhere_def by (auto split: if_splits; blast)
  moreover have "all_fds ?c \<subseteq> all_fds c" unfolding fds by (auto simp: everywhere_def split: if_splits)
  moreover have "x \<notin> m_registering c"
    using own x(1) unfolding owned_def everywhere_def by blast
  ultimately have "owned ?c" using own x(2) unfolding owned_def reset_handler_def by auto
  moreover have "placed ?c"
    unfolding placed_def fds using one by (auto intro: one_place_less)
  moreover have "pc_ok ?c p = pc_ok c p" for p by (cases p) (simp_all add: reset_handler_def)
  ultimately show ?thesis using inv by (simp add: shot_inv_def reset_handler_def)
qed

lemma shot_inv_quiet:
  "shot_inv c \<Longrightarrow> m_backlog c' = m_backlog c \<Longrightarrow> m_pcs c' = m_pcs c \<Longrightarrow> pending c' = pending c \<Longrightarrow>
    k_armed c' = k_armed c \<Longrightarrow> same_owners c c' \<Longrightarrow> shot_inv c'"
  by (rule shot_inv_frame [of c])
    (auto simp: thread_fds_def fun_eq_iff pending_fds_def shot_inv_def same_owners_def pc_ok_frame [of c' c])

lemma shot_inv_owners:
  assumes inv: "shot_inv c" and same: "m_backlog c' = m_backlog c" "m_pcs c' = m_pcs c"
      "pending c' = pending c" "m_out c' = m_out c"
    and placed: "placed c'" and owned: "owned c'"
  shows "shot_inv c'"
  using inv placed owned by (simp add: shot_inv_def same pc_ok_frame [of c' c])

lemma adding_shot:
  assumes inv: "shot_inv c"
  shows "x \<notin> k_open c \<Longrightarrow>
      shot_inv (c\<lparr>k_open := insert x (k_open c), m_adding := (m_adding c)(x \<mapsto> h)\<rparr>)"
    and "shot_inv (c\<lparr>m_adding := (m_adding c)(x := None)\<rparr>)"
    and "m_adding c x = Some h \<Longrightarrow> shot_inv (set_handler x h c)"
proof -
  have fds: "thread_fds (c\<lparr>k_open := P, m_adding := Q\<rparr>) = thread_fds c"
      "thread_fds (set_handler x h c) = thread_fds c"
      "pending_fds (c\<lparr>k_open := P, m_adding := Q\<rparr>) = pending_fds c"
      "pending_fds (set_handler x h c) = pending_fds c" for P Q
    by (simp_all add: thread_fds_def fun_eq_iff pending_fds_def pending_def set_handler_def)
  have pl: "placed c" and ow: "owned c" using inv by (simp_all add: shot_inv_def)
  show "shot_inv (c\<lparr>k_open := insert x (k_open c), m_adding := (m_adding c)(x \<mapsto> h)\<rparr>)"
    if "x \<notin> k_open c"
  proof (rule shot_inv_owners [OF inv])
    show "placed (c\<lparr>k_open := insert x (k_open c), m_adding := (m_adding c)(x \<mapsto> h)\<rparr>)"
      using pl by (simp add: placed_def fds)
    show "owned (c\<lparr>k_open := insert x (k_open c), m_adding := (m_adding c)(x \<mapsto> h)\<rparr>)"
      using ow that by (auto simp: owned_def fds)
  qed (simp_all add: pending_def)
  show "shot_inv (c\<lparr>m_adding := (m_adding c)(x := None)\<rparr>)"
  proof (rule shot_inv_owners [OF inv])
    have f: "thread_fds (c\<lparr>m_adding := Q\<rparr>) = thread_fds c"
      "pending_fds (c\<lparr>m_adding := Q\<rparr>) = pending_fds c" for Q
      by (simp_all add: thread_fds_def fun_eq_iff pending_fds_def pending_def)
    show "placed (c\<lparr>m_adding := (m_adding c)(x := None)\<rparr>)" using pl by (simp add: placed_def f)
    show "owned (c\<lparr>m_adding := (m_adding c)(x := None)\<rparr>)" using ow by (simp add: owned_def f)
  qed (simp_all add: pending_def)
  show "shot_inv (set_handler x h c)" if a: "m_adding c x = Some h"
  proof (rule shot_inv_owners [OF inv])
    show "placed (set_handler x h c)" using pl fds by (simp add: placed_def set_handler_def)
    have "m_state c x = None" using ow a by (auto simp: owned_def)
    then have "x \<notin> all_fds c" using ow by (auto simp: owned_def)
    moreover have "x \<in> k_open c" using ow a by (simp add: owned_def)
    ultimately show "owned (set_handler x h c)"
      using ow fds by (auto simp: owned_def set_handler_def)
  qed (simp_all add: set_handler_def pending_def)
qed

lemma registered_shot:
  assumes inv: "shot_inv c"
  shows "x \<in> m_registering c \<Longrightarrow> shot_inv (port_add_fd x c)"
    and "m_state c x = None \<Longrightarrow> m_adding c x = None \<Longrightarrow>
      shot_inv (c\<lparr>k_open := k_open c - {x}, k_armed := k_armed c - {x}\<rparr>)"
proof -
  have pl: "placed c" and ow: "owned c" using inv by (simp_all add: shot_inv_def)
  show "shot_inv (port_add_fd x c)" if x: "x \<in> m_registering c"
  proof (rule shot_inv_owners [OF inv])
    have fds: "thread_fds (port_add_fd x c) = thread_fds c" "pending_fds (port_add_fd x c) = pending_fds c"
      by (simp_all add: thread_fds_def fun_eq_iff pending_fds_def pending_def port_add_fd_def)
    have "x \<notin> all_fds c" using ow x by (auto simp: owned_def)
    then show "placed (port_add_fd x c)"
      using pl by (simp add: placed_def fds) (simp add: port_add_fd_def one_place_new)
    show "owned (port_add_fd x c)"
      using ow x unfolding owned_def fds by (auto simp: port_add_fd_def everywhere_def)
  qed (simp_all add: port_add_fd_def pending_def)
  show "shot_inv (c\<lparr>k_open := k_open c - {x}, k_armed := k_armed c - {x}\<rparr>)" (is "shot_inv ?c")
    if x: "m_state c x = None" "m_adding c x = None"
  proof (rule shot_inv_owners [OF inv])
    have fds: "thread_fds ?c = thread_fds c" "pending_fds ?c = pending_fds c"
      by (simp_all add: thread_fds_def fun_eq_iff pending_fds_def pending_def)
    have "x \<notin> k_armed c" using ow x(1) unfolding owned_def everywhere_def by blast
    then have "k_armed ?c = k_armed c" by auto
    with fds show "placed ?c" using pl by (simp add: placed_def)
    show "owned ?c" using ow x unfolding owned_def fds by (auto simp: everywhere_def)
  qed (simp_all add: pending_def)
qed

lemma shot_inv_step:
  assumes "core_step md c c'" and inv: "shot_inv c" and pol: "poll_inv c"
  shows "shot_inv c'"
  using assms(1)
proof cases
  case (locked t outs a sg d ts)
  have res: "section_result c a sg d" by (rule begin_section_result [OF pol locked(3)])
  from section_result_frame [OF this] section_shot [OF inv res locked(2)] locked
  show ?thesis by (auto intro!: shot_inv_wake dest: same_but_queuesD)
next
  case (relock t n outs a sg d ts)
  from relock_shot [OF inv pol relock(2,3)] relock show ?thesis by (auto intro!: shot_inv_wake)
next
  case (poll_some t es)
  then show ?thesis using poll_some_shot [OF inv pol] by simp
next
  case (rearm t e)
  then show ?thesis using rearm_shot [OF inv] by simp
next
  case (reset t x)
  then show ?thesis using reset_shot [OF inv] by simp
next
  case (poll_none t)
  have "shot_inv (at_pc t Returned (c\<lparr>m_pollable := True\<rparr>))"
    by (rule shot_inv_move [OF inv]) (simp_all add: pending_def same_owners_def)
  then show ?thesis using poll_none inv by (auto simp: poll_nothing_def split: mode.splits)
next
  case (call t e h cont)
  have "pc_ok c (Calling e)" using inv call(2) by (metis shot_inv_def)
  then show ?thesis unfolding call(1)
    by (intro shot_inv_move [OF inv]) (auto simp: call thread_fds_def)
next
  case (call_null t e)
  have "event_ident e \<in> thread_fds c t" by (simp add: thread_fds_def call_null(2))
  then have "event_ident e \<in> all_fds c" unfolding everywhere_def by blast
  then show ?thesis using inv call_null(3) by (auto simp: shot_inv_def owned_def)
next
  case (remove t e)
  have "pc_ok c (Removing e)" using inv remove(2) by (metis shot_inv_def)
  then show ?thesis unfolding remove(1)
    by (intro shot_inv_move [OF inv]) (auto simp: remove thread_fds_def pending_def same_owners_def)
next
  case (submit ts k)
  then show ?thesis
    by (auto intro!: awaken_shot shot_inv_quiet [OF inv] simp: submit_impl_def pending_def same_owners_def dest: wakesD)
next
  case broadcast
  then show ?thesis by (auto intro!: awaken_shot inv simp: waiters_def)
next
  case finish
  then show ?thesis by (auto intro!: shot_inv_quiet [OF inv] simp: pending_def same_owners_def)
qed (auto intro!: shot_inv_move [OF inv] adding_shot [OF inv] registered_shot [OF inv])

lemma core_new_inv: "poll_inv (core_new ep out_fd h)" "shot_inv (core_new ep out_fd h)"
  by (auto simp: poll_inv_def core_new_def shot_inv_def placed_def owned_def one_place_def
      everywhere_def thread_fds_def pending_fds_def pending_def)

lemma core_reach_inv: "core_reach md c \<Longrightarrow> poll_inv c \<and> shot_inv c"
  by (induction rule: core_reach.induct) (auto intro: core_new_inv poll_inv_step shot_inv_step)

section \<open>No wake-up is lost\<close>

text \<open>
  \<open>awake\<close> threads come back to the lock by themselves. While a thread waits on \<open>m_cond\<close>: when the
  port may be polled, two threads are awake, so that one stays when the other polls; when it is
  being polled, work that is queued has a thread besides the poller.
\<close>

definition awake :: "pc \<Rightarrow> bool" where
  "awake p \<longleftrightarrow> p \<notin> {Absent, Waiting, Returned, Died, Crashed}"

definition fallen :: "core_state \<Rightarrow> bool" where
  "fallen c \<longleftrightarrow> m_end c \<or> (\<exists>t. m_pcs c t = Died \<or> m_pcs c t = Crashed)"

definition has_work :: "core_state \<Rightarrow> bool" where
  "has_work c \<longleftrightarrow> m_tasks c \<noteq> [] \<or> m_outq c \<noteq> []"

definition wake_inv :: "core_state \<Rightarrow> bool" where
  "wake_inv c \<longleftrightarrow> fallen c \<or>
    (\<not> m_pollable c \<longrightarrow> (\<exists>t. is_poller (m_pcs c t)))
    \<and> (waiters c \<noteq> {} \<longrightarrow>
        (m_pollable c \<longrightarrow> (\<exists>t u. t \<noteq> u \<and> awake (m_pcs c t) \<and> awake (m_pcs c u)))
        \<and> (\<not> m_pollable c \<and> has_work c \<longrightarrow> (\<exists>t. awake (m_pcs c t) \<and> \<not> is_poller (m_pcs c t))))"

lemma awake_simps [simp]:
  "awake Locking" "awake (Running k)" "awake (Writing e)" "awake Polling" "awake (Polled n)"
  "awake (Rearming e)" "awake (Calling e)" "awake (Removing e)" "awake (Resetting x)"
  "\<not> awake Absent" "\<not> awake Waiting" "\<not> awake Returned" "\<not> awake Died" "\<not> awake Crashed"
  by (auto simp: awake_def)

lemma resume_Loop [simp]: "resume Loop = Locking"
  by (simp add: resume_def)

lemma fallen_awaken:
  assumes "fallen c" and "\<And>u. u \<in> ts \<Longrightarrow> m_pcs c u = Waiting"
  shows "fallen (awaken md ts c)"
proof (cases "m_end c")
  case False
  then obtain t where t: "m_pcs c t = Died \<or> m_pcs c t = Crashed" using assms(1) by (auto simp: fallen_def)
  then have "t \<notin> ts" using assms(2) by fastforce
  then have "m_pcs (awaken md ts c) t = m_pcs c t" by (simp add: awaken_def)
  then show ?thesis using t unfolding fallen_def by metis
qed (simp add: fallen_def)

lemma fallen_at:
  "fallen c \<Longrightarrow> m_pcs c t \<notin> {Died, Crashed} \<Longrightarrow> m_pcs c' = m_pcs c \<Longrightarrow> m_end c' = m_end c \<Longrightarrow>
    fallen (at_pc t p c')"
  unfolding fallen_def by (auto; metis)

text \<open>Threads stay awake or wake up, no work is added.\<close>

lemma wake_more:
  assumes "wake_inv c" and "\<And>u. awake (m_pcs c u) \<Longrightarrow> awake (m_pcs c' u)"
    and "\<And>u. awake (m_pcs c u) \<Longrightarrow> is_poller (m_pcs c' u) = is_poller (m_pcs c u)"
    and "waiters c' \<subseteq> waiters c" and "m_pollable c' = m_pollable c" and "\<not> m_pollable c' \<Longrightarrow> has_work c' \<Longrightarrow> has_work c"
    and "fallen c \<Longrightarrow> fallen c'"
  shows "wake_inv c'"
proof (cases "fallen c")
  case False
  have poller: "is_poller (m_pcs c u) \<Longrightarrow> awake (m_pcs c u)" for u by (auto simp: is_poller_def)
  from False assms(1) show ?thesis
    unfolding wake_inv_def using assms(2-6) poller by (metis subset_empty)
qed (use assms(7) in \<open>simp add: wake_inv_def\<close>)

lemma waiters_at: "waiters (at_pc t p c) = (if p = Waiting then insert t (waiters c) else waiters c - {t})"
  by (auto simp: waiters_def)

lemma wake_at:
  assumes "wake_inv c" and "awake (m_pcs c t) \<Longrightarrow> is_poller p = is_poller (m_pcs c t)"
    and "awake p" and "m_pcs c t \<notin> {Died, Crashed}" and "m_pcs c' = m_pcs c"
    and "m_pollable c' = m_pollable c" and "\<not> m_pollable c' \<Longrightarrow> has_work c' \<Longrightarrow> has_work c" and "m_end c' = m_end c"
  shows "wake_inv (at_pc t p c')"
proof (rule wake_more [OF assms(1)])
  show "waiters (at_pc t p c') \<subseteq> waiters c" using assms(3,5) by (auto simp: waiters_def)
  show "\<not> m_pollable (at_pc t p c') \<Longrightarrow> has_work (at_pc t p c') \<Longrightarrow> has_work c"
    using assms(7) by (simp add: has_work_def)
  show "fallen c \<Longrightarrow> fallen (at_pc t p c')" using assms(4,5,8) by (intro fallen_at)
qed (use assms(2,3,5,6) in auto)

lemma wake_awaken:
  assumes "wake_inv c" and "\<And>u. u \<in> ts \<Longrightarrow> m_pcs c u = Waiting"
  shows "wake_inv (awaken (\<lambda>_. Loop) ts c)"
proof (rule wake_more [OF assms(1)])
  show "fallen c \<Longrightarrow> fallen (awaken (\<lambda>_. Loop) ts c)" by (rule fallen_awaken) (use assms(2) in auto)
  show "waiters (awaken (\<lambda>_. Loop) ts c) \<subseteq> waiters c" by (auto simp: waiters_def awaken_def)
qed (auto simp: awaken_def has_work_def dest: assms(2))

lemma wake_fallen: "fallen c \<Longrightarrow> wake_inv c"
  by (simp add: wake_inv_def)

text \<open>Going to wait: the mutex was taken while the port was polled and nothing was queued.\<close>

lemma wake_wait:
  assumes "wake_inv c" and "m_pcs c t = Locking" and "\<not> m_pollable c" and "\<not> has_work c"
  shows "wake_inv (at_pc t Waiting c)"
proof (cases "fallen c")
  case True
  then show ?thesis using assms(2) by (intro wake_fallen fallen_at) simp_all
next
  case False
  then obtain u where u: "is_poller (m_pcs c u)" using assms(1,3) by (auto simp: wake_inv_def)
  with assms(2) have "is_poller (m_pcs (at_pc t Waiting c) u)" by auto
  moreover have "\<not> m_pollable (at_pc t Waiting c)" "\<not> has_work (at_pc t Waiting c)"
    using assms(3,4) by (simp_all add: has_work_def)
  ultimately show ?thesis unfolding wake_inv_def by blast
qed

text \<open>Going to poll: another thread is awake, if one waits.\<close>

lemma wake_poll:
  assumes "wake_inv c" and "poll_inv c" and "m_pcs c t = Locking" and "m_pollable c"
    and "m_pcs d = m_pcs c" and "\<not> m_pollable d" and "m_end d = m_end c"
  shows "wake_inv (at_pc t Polling d)"
proof (cases "fallen c")
  case True
  then show ?thesis using assms by (intro wake_fallen fallen_at [of c]) simp_all
next
  case False
  have none: "\<not> is_poller (m_pcs c u)" for u using assms(2,4) by (auto simp: poll_inv_def)
  have wait: "waiters (at_pc t Polling d) = waiters c" using assms(3,5) by (auto simp: waiters_def)
  have "\<exists>u. awake (m_pcs (at_pc t Polling d) u) \<and> \<not> is_poller (m_pcs (at_pc t Polling d) u)"
    if "waiters c \<noteq> {}"
  proof -
    obtain v w where "v \<noteq> w" "awake (m_pcs c v)" "awake (m_pcs c w)"
      using assms(1,4) False \<open>waiters c \<noteq> {}\<close> by (auto simp: wake_inv_def)
    then obtain u where "u \<noteq> t" "awake (m_pcs c u)" by metis
    with none [of u] assms(5) show ?thesis by (intro exI [of _ u]) simp
  qed
  moreover have "is_poller (m_pcs (at_pc t Polling d) t)" by simp
  ultimately show ?thesis
    unfolding wake_inv_def wait using assms(6) by (metis at_pc_frame(3))
qed

lemma wake_section:
  assumes inv: "wake_inv c" and pol: "poll_inv c" and res: "section_result c a sg d"
    and t: "m_pcs c t = Locking"
  shows "wake_inv (at_pc t (next_pc a) d)"
proof -
  note frame = same_but_queuesD [OF section_result_frame [OF res]]
  have moved: ?thesis
    if "awake (next_pc a)" "\<not> is_poller (next_pc a)" "m_pollable d = m_pollable c"
      "\<not> m_pollable d \<Longrightarrow> has_work d \<Longrightarrow> has_work c"
    by (rule wake_at [OF inv]) (use that t frame in simp_all)
  show ?thesis
    using res
  proof cases
    case (taken e)
    show ?thesis
    proof (cases "a = Do_throw")
      case False
      with taken show ?thesis by (intro moved) (auto simp: takes_def)
    qed (auto intro!: wake_fallen simp: fallen_def)
  next
    case idle
    show ?thesis
    proof (cases a)
      case Do_return
      then show ?thesis using frame idle(4) by (simp add: wake_fallen fallen_def)
    next
      case Do_wait
      then show ?thesis using idle(4) wake_wait [OF inv t] by (simp add: has_work_def)
    next
      case (Do_task k)
      then have "m_pollable d = m_pollable c" "has_work c" using idle(4) by (auto simp: has_work_def)
      with Do_task show ?thesis by (intro moved) simp_all
    next
      case (Do_out e)
      then have "m_pollable d = m_pollable c" "has_work c" using idle(4) by (auto simp: has_work_def)
      with Do_out show ?thesis by (intro moved) simp_all
    next
      case Do_poll
      then show ?thesis using idle(4) wake_poll [OF inv pol t _ frame(4) _ frame(6)] by simp
    qed (use idle(4) in simp_all)
  qed
qed

text \<open>The poller is back: it wakes a waiting thread.\<close>

lemma wake_relock:
  assumes pol: "poll_inv c" and t: "m_pcs c t = Polled n" and run: "after_poll n outs c = (a, sg, d)"
    and w: "wakes sg ts c"
  shows "wake_inv (at_pc t (next_pc a) (awaken (\<lambda>_. Loop) ts d))"
proof -
  have n: "0 < n" "n \<le> length (m_backlog c)" using pol t by (auto simp: poll_inv_def)
  note tk = after_poll_takes [OF n run]
  have pcs: "m_pcs d = m_pcs c" and on: "m_pollable d" using tk(1) by (auto simp: takes_def same_but_queues_def)
  show ?thesis
  proof (cases "a = Do_throw")
    case False
    then have a: "awake (next_pc a)" "next_pc a \<noteq> Waiting" using tk(1) by (auto simp: takes_def)
    let ?c = "at_pc t (next_pc a) (awaken (\<lambda>_. Loop) ts d)"
    have "\<exists>u. u \<noteq> t \<and> awake (m_pcs ?c u)" if wait: "waiters ?c \<noteq> {}"
    proof -
      obtain v where "m_pcs ?c v = Waiting" using wait unfolding waiters_def by blast
      then have "waiters c \<noteq> {}" using a pcs by (auto simp: waiters_def awaken_def split: if_splits)
      then obtain u where u: "u \<in> ts" using w tk(2) by (auto simp: wakes_def)
      then have "u \<noteq> t" using w t by (auto dest: wakesD)
      with u show ?thesis by (intro exI [of _ u]) (simp add: awaken_def)
    qed
    moreover have "awake (m_pcs ?c t)" using a by simp
    ultimately show ?thesis unfolding wake_inv_def using on by (metis at_pc_frame(3) awaken_frame(3))
  qed (auto intro!: wake_fallen simp: fallen_def)
qed

lemma wake_submit:
  assumes inv: "wake_inv c" and w: "wakes True ts c"
  shows "wake_inv (awaken (\<lambda>_. Loop) ts (submit_impl k c))"
proof (cases "fallen c \<or> waiters c = {}")
  case True
  have Waiting: "\<And>u. u \<in> ts \<Longrightarrow> m_pcs (submit_impl k c) u = Waiting" using w by (auto simp: submit_impl_def dest: wakesD)
  have "fallen c \<Longrightarrow> fallen (submit_impl k c)" by (simp add: fallen_def submit_impl_def)
  with inv True have "wake_inv (submit_impl k c)"
    by (auto simp: wake_inv_def waiters_def submit_impl_def)
  then show ?thesis by (rule wake_awaken) (rule Waiting)
next
  case False
  let ?c = "awaken (\<lambda>_. Loop) ts (submit_impl k c)"
  from False w obtain u where u: "u \<in> ts" by (auto simp: wakes_def)
  have stay: "m_pcs ?c v = (if v \<in> ts then Locking else m_pcs c v)" for v by (simp add: awaken_def submit_impl_def)
  have up: "awake (m_pcs c v) \<Longrightarrow> awake (m_pcs ?c v)" for v by (simp add: stay)
  have pol: "is_poller (m_pcs c v) \<Longrightarrow> is_poller (m_pcs ?c v)" for v
    using wakesD [OF w, of v] by (auto simp: stay)
  have "awake (m_pcs ?c u) \<and> \<not> is_poller (m_pcs ?c u)" using u by (simp add: stay)
  moreover have "m_pollable ?c = m_pollable c" by (simp add: submit_impl_def)
  ultimately show ?thesis
    using False inv up pol unfolding wake_inv_def by metis
qed

lemma wake_at_awaken:
  assumes "wake_inv (at_pc t p d)" and "wakes sg ts c" and "m_pcs d = m_pcs c" and "m_pcs c t \<noteq> Waiting"
  shows "wake_inv (at_pc t p (awaken (\<lambda>_. Loop) ts d))"
proof -
  have t: "t \<notin> ts" using assms(2,4) by (auto dest: wakesD)
  have "wake_inv (awaken (\<lambda>_. Loop) ts (at_pc t p d))"
    by (rule wake_awaken [OF assms(1)]) (use assms t in \<open>auto dest: wakesD\<close>)
  with t show ?thesis by (simp add: at_pc_awaken)
qed

lemma wake_quiet:
  "wake_inv c \<Longrightarrow> m_pcs c' = m_pcs c \<Longrightarrow> m_pollable c' = m_pollable c \<Longrightarrow> m_tasks c' = m_tasks c \<Longrightarrow>
    m_outq c' = m_outq c \<Longrightarrow> m_end c \<longrightarrow> m_end c' \<Longrightarrow> wake_inv c'"
  by (rule wake_more [of c]) (auto simp: waiters_def has_work_def fallen_def)

lemma wake_inv_step:
  assumes "core_step (\<lambda>_. Loop) c c'" and inv: "wake_inv c" and pol: "poll_inv c"
  shows "wake_inv c'"
  using assms(1)
proof cases
  case (locked t outs a sg d ts)
  have res: "section_result c a sg d" by (rule begin_section_result [OF pol locked(3)])
  have "m_pcs d = m_pcs c" using section_result_frame [OF res] by (rule same_but_queuesD)
  with wake_at_awaken [OF wake_section [OF inv pol res locked(2)] locked(4)] locked show ?thesis by simp
next
  case (relock t n outs a sg d ts)
  with wake_relock [OF pol] show ?thesis by simp
next
  case (poll_none t)
  then show ?thesis using inv by (auto simp: poll_nothing_def fallen_def intro!: wake_fallen)
next
  case (poll_error t)
  then show ?thesis by (auto intro!: wake_fallen simp: fallen_def)
next
  case (call_null t e)
  then show ?thesis by (auto intro!: wake_fallen simp: fallen_def)
next
  case (submit ts k)
  then show ?thesis using wake_submit [OF inv] by simp
next
  case broadcast
  then show ?thesis by (auto intro!: wake_awaken inv simp: waiters_def)
next
  case (open_fd x h)
  then show ?thesis by (simp add: wake_quiet [OF inv])
next
  case (add_failed x)
  then show ?thesis by (simp add: wake_quiet [OF inv])
next
  case (handler_set x h)
  then show ?thesis by (simp add: wake_quiet [OF inv] set_handler_def)
next
  case (fd_added x)
  then show ?thesis by (simp add: wake_quiet [OF inv] port_add_fd_def)
next
  case (close x)
  then show ?thesis by (simp add: wake_quiet [OF inv])
next
  case finish
  then show ?thesis by (simp add: wake_quiet [OF inv])
qed (auto intro!: wake_at [OF inv] simp: has_work_def reset_handler_def)

lemma core_new_wake: "wake_inv (core_new ep out_fd h)"
  by (simp add: wake_inv_def core_new_def waiters_def)

lemma core_reach_wake: "core_reach (\<lambda>_. Loop) c \<Longrightarrow> wake_inv c"
  by (induction rule: core_reach.induct)
    (auto intro: core_new_wake wake_inv_step dest: core_reach_inv)

section \<open>Tasks\<close>

definition fifo :: "core_state \<Rightarrow> bool" where
  "fifo c \<longleftrightarrow> submitted c = started c @ m_tasks c"

lemma section_fifo:
  assumes "section_result c a sg d" and "fifo c"
  shows "fifo d"
  using assms(1)
proof cases
  case idle
  have "submitted d = submitted c" using idle(3) by (simp add: same_but_queues_def)
  then show ?thesis using idle assms(2) by (auto simp: fifo_def)
next
  case (taken e)
  then show ?thesis using assms(2) by (auto simp: fifo_def takes_def same_but_queues_def)
qed

lemma fifo_step:
  assumes "core_step md c c'" and "fifo c" and pol: "poll_inv c"
  shows "fifo c'"
  using assms(1)
proof cases
  case (locked t outs a sg d ts)
  have "fifo d" by (rule section_fifo [OF begin_section_result [OF pol locked(3)] assms(2)])
  then show ?thesis using locked by (simp add: fifo_def)
next
  case (relock t n outs a sg d ts)
  then have "0 < n" "n \<le> length (m_backlog c)" using pol by (auto simp: poll_inv_def)
  from after_poll_takes(1) [OF this relock(3)] assms(2)
  have "fifo d" by (auto simp: fifo_def takes_def same_but_queues_def)
  then show ?thesis using relock by (simp add: fifo_def)
qed (use assms(2) in \<open>auto simp: fifo_def poll_nothing_def submit_impl_def reset_handler_def
    set_handler_def port_add_fd_def split: mode.splits\<close>)

lemma core_reach_fifo: "core_reach md c \<Longrightarrow> fifo c"
proof (induction rule: core_reach.induct)
  case (init ep out_fd h)
  show ?case by (simp add: core_new_def fifo_def)
next
  case (step c c')
  then show ?case using core_reach_inv fifo_step by blast
qed


section \<open>Runs of the loop\<close>

text \<open>
  Descriptor 4 is the output port, descriptor 5 has a handler. \<open>demo_polling\<close>: worker 0 polls.
  \<open>demo_calling\<close>: it found an event of descriptor 5. \<open>demo_waiting\<close>: another worker came while
  worker 0 polled.
\<close>

definition demo_fd :: core_state where
  "demo_fd = port_add_fd 5 (set_handler 5 9 ((core_new 3 4 8)
     \<lparr>k_open := {5, 3, 4}, m_adding := [5 \<mapsto> 9]\<rparr>))"

definition demo_polling :: core_state where
  "demo_polling = at_pc 0 Polling (at_pc 0 Locking demo_fd\<lparr>m_pollable := False\<rparr>)"

definition demo_fetched :: core_state where
  "demo_fetched = at_pc 0 (Polled 1) (demo_polling\<lparr>m_backlog := [5], k_armed := k_armed demo_polling - {5}\<rparr>)"

definition demo_calling :: core_state where
  "demo_calling = at_pc 0 (Calling 5) (demo_fetched\<lparr>m_off := 1, m_num := 1, m_pollable := True\<rparr>)"

definition demo_waiting :: core_state where
  "demo_waiting = at_pc 1 Waiting (at_pc 1 Locking demo_polling)"

lemmas demo_defs = demo_fd_def demo_polling_def demo_fetched_def demo_calling_def demo_waiting_def
  core_new_def at_pc_def port_add_fd_def set_handler_def

lemma demo_fd_reach: "core_reach md demo_fd"
proof -
  have "core_reach md (core_new 3 4 8)" by (rule core_reach.init)
  from core_reach.step [OF this core_step.open_fd [of 5 _ md 9]]
  have "core_reach md ((core_new 3 4 8)\<lparr>k_open := {5, 3, 4}, m_adding := [5 \<mapsto> 9]\<rparr>)"
    by (simp add: core_new_def)
  from core_reach.step [OF this core_step.handler_set [of _ 5 9]]
  have "core_reach md (set_handler 5 9 ((core_new 3 4 8)\<lparr>k_open := {5, 3, 4}, m_adding := [5 \<mapsto> 9]\<rparr>))"
    by simp
  from core_reach.step [OF this core_step.fd_added [of 5]] show ?thesis
    by (simp add: demo_fd_def set_handler_def)
qed

lemma wakes_none [simp]: "wakes False {} c" and awaken_none [simp]: "awaken md {} c = c"
  by (simp_all add: wakes_def awaken_def)

lemma demo_polling_reach: "core_reach md demo_polling"
proof -
  have "core_reach md (at_pc 0 Locking demo_fd)"
    by (rule core_reach.step [OF demo_fd_reach core_step.spawn]) (simp add: demo_defs)
  moreover have "begin_section (md 0) (Some []) (at_pc 0 Locking demo_fd) =
      (Do_poll, False, at_pc 0 Locking demo_fd\<lparr>m_pollable := False\<rparr>)"
    by (simp add: begin_section_def prefers_task_def demo_defs split: mode.splits)
  ultimately show ?thesis
    using core_reach.step [OF _ core_step.locked [of "at_pc 0 Locking demo_fd" 0 md _ _ _ _ "{}"]]
    by (fastforce simp: demo_polling_def)
qed

lemma demo_calling_reach: "core_reach md demo_calling"
proof -
  have ident: "event_ident 5 = 5" "(4 :: c_int) \<noteq> 5" by (simp_all add: event_ident_def)
  have "core_step md demo_polling (at_pc 0 (Polled (length [5 :: uint64_t]))
      (demo_polling\<lparr>m_backlog := [5] @ drop (length [5 :: uint64_t]) (m_backlog demo_polling),
         k_armed := k_armed demo_polling - event_ident ` set [5]\<rparr>))"
    by (rule core_step.poll_some) (simp_all add: demo_defs ident MP_WAVY_PORT_BACKLOG_SIZE_def)
  then have "core_step md demo_polling demo_fetched"
    by (simp add: demo_fetched_def ident) (simp add: demo_defs)
  with demo_polling_reach have fetched: "core_reach md demo_fetched" by (rule core_reach.step)
  have "core_step md demo_fetched (at_pc 0 (next_pc (Do_call 5))
      (awaken md {} (demo_fetched\<lparr>m_off := 1, m_num := 1, m_pollable := True\<rparr>)))"
  proof (rule core_step.relock)
    show "m_pcs demo_fetched 0 = Polled 1" by (simp add: demo_defs)
    show "after_poll 1 None demo_fetched =
        (Do_call 5, True, demo_fetched\<lparr>m_off := 1, m_num := 1, m_pollable := True\<rparr>)"
      by (simp add: after_poll_def take_event_def demo_defs ident)
    show "wakes True {} demo_fetched" by (auto simp: wakes_def waiters_def demo_defs)
  qed
  from core_reach.step [OF fetched this] show ?thesis by (simp add: demo_calling_def)
qed

lemma demo_waiting_reach: "core_reach md demo_waiting"
proof -
  have "core_reach md (at_pc 1 Locking demo_polling)"
    by (rule core_reach.step [OF demo_polling_reach core_step.spawn]) (simp add: demo_defs)
  moreover have "begin_section (md 1) None (at_pc 1 Locking demo_polling) =
      (Do_wait, False, at_pc 1 Locking demo_polling)"
    by (simp add: begin_section_def demo_defs)
  ultimately show ?thesis
    using core_reach.step [OF _ core_step.locked [of "at_pc 1 Locking demo_polling" 1 md _ _ _ _ "{}"]]
    by (fastforce simp: demo_waiting_def)
qed

section \<open>Properties\<close>

text \<open>
  C7. While a thread calls the handler of a descriptor, the handler exists, the descriptor is
  not armed, no event of it waits in the backlog, and no other thread calls, re-arms or removes it:
  a handler is called by one thread at a time, and in no reachable state has a thread called an
  empty slot of \<open>m_state\<close> or read behind the events of the backlog.
\<close>

theorem core_one_handler_at_a_time:
  assumes "core_reach md c" and "m_pcs c t = Calling e"
  shows "m_state c (event_ident e) \<noteq> None \<and> event_ident e \<notin> k_armed c
    \<and> event_ident e \<notin> event_ident ` set (pending c)
    \<and> (\<forall>u. u \<noteq> t \<longrightarrow> event_ident e \<notin> thread_fds c u) \<and> (\<forall>u. m_pcs c u \<noteq> Crashed)"
proof -
  have inv: "shot_inv c" using core_reach_inv [OF assms(1)] by blast
  have F: "thread_fds c t = {event_ident e}" by (simp add: thread_fds_def assms(2))
  have "event_ident e \<in> all_fds c" using F unfolding everywhere_def by blast
  then have "m_state c (event_ident e) \<noteq> None" using inv by (simp add: shot_inv_def owned_def)
  moreover have "thread_fds c t \<inter> (k_armed c \<union> set (pending_fds c)) = {}"
    "\<forall>u. u \<noteq> t \<longrightarrow> thread_fds c t \<inter> thread_fds c u = {}"
    using inv unfolding shot_inv_def placed_def one_place_def by metis+
  moreover have "m_pcs c u \<noteq> Crashed" for u using inv by (metis pc_ok.simps(5) shot_inv_def)
  ultimately show ?thesis by (simp add: F pending_fds_def)
qed

theorem core_one_handler_at_a_time_witness:
  "m_state demo_calling 5 \<noteq> None \<and> (5 :: c_int) \<notin> k_armed demo_calling"
  using core_one_handler_at_a_time [OF demo_calling_reach [of "\<lambda>_. Loop"], of 0 5]
  by (simp add: demo_calling_def event_ident_def)

text \<open>
  C27. At most one thread waits on the port or holds what it reported; while it does, the
  port counts as not pollable, and every event of the backlog has been taken, so that \<open>port::wait\<close>,
  which writes to the backlog without the mutex, overwrites nothing another thread still reads.
\<close>

theorem core_one_poller:
  assumes "core_reach md c" and "is_poller (m_pcs c t)"
  shows "\<not> m_pollable c \<and> pending c = [] \<and> (\<forall>u. u \<noteq> t \<longrightarrow> \<not> is_poller (m_pcs c u))"
  using poller_facts [OF core_reach_inv [OF assms(1), THEN conjunct1] assms(2)] by blast

theorem core_one_poller_witness: "pending demo_polling = [] \<and> \<not> is_poller (m_pcs demo_polling 1)"
proof -
  have "is_poller (m_pcs demo_polling 0)" by (simp add: demo_polling_def)
  from core_one_poller [OF demo_polling_reach [of "\<lambda>_. Loop"] this] show ?thesis by simp
qed



text \<open>
  C26. Tasks start in the order they were submitted, each once: what was submitted is what
  was started followed by the queue.
\<close>

theorem core_tasks_in_order:
  assumes "core_reach md c"
  shows "submitted c = started c @ m_tasks c"
  using core_reach_fifo [OF assms] by (simp add: fifo_def)

theorem core_tasks_in_order_witness: "submitted (submit_impl 7 demo_polling) = [7]"
proof -
  have "wakes True {} demo_polling" by (auto simp: wakes_def waiters_def demo_defs)
  from core_step.submit [OF this, of "\<lambda>_. Loop" 7]
  have "core_step (\<lambda>_. Loop) demo_polling (submit_impl 7 demo_polling)" by simp
  from core_tasks_in_order [OF core_reach.step [OF demo_polling_reach this]]
  show ?thesis by (simp add: submit_impl_def demo_defs)
qed

text \<open>
  A thread in \<open>step_next\<close> that finds nothing lets the port be polled again but signals
  nobody: a state is reachable in which a worker waits on the condition variable, the port may be
  polled, has armed descriptors, and no thread is awake to poll it.
\<close>

theorem step_next_loses_wakeup:
  "\<exists>c. core_reach (\<lambda>t. if t = 0 then Once else Loop) c \<and> \<not> fallen c \<and> m_pcs c 1 = Waiting
    \<and> m_pollable c \<and> k_armed c \<noteq> {} \<and> (\<forall>u. \<not> awake (m_pcs c u))"
proof -
  let ?c = "at_pc 0 Returned (demo_waiting\<lparr>m_pollable := True\<rparr>)"
  have "m_pcs demo_waiting 0 = Polling" by (simp add: demo_defs)
  from core_reach.step [OF demo_waiting_reach core_step.poll_none [OF this],
      of "\<lambda>t. if t = 0 then Once else Loop"]
  have "core_reach (\<lambda>t. if t = 0 then Once else Loop) ?c" by (simp add: poll_nothing_def)
  moreover have "\<not> fallen ?c \<and> m_pcs ?c 1 = Waiting \<and> m_pollable ?c \<and> k_armed ?c \<noteq> {}
      \<and> (\<forall>u. \<not> awake (m_pcs ?c u))"
    by (simp add: fallen_def demo_defs)
  ultimately show ?thesis by blast
qed

text \<open>
  A worker that waits on the port does not come back to the queue when the wait times out: a task
  submitted to a lone worker stays queued until a descriptor becomes ready.
\<close>

lemma lone_poller_starves:
  "\<exists>c. core_reach (\<lambda>_. Loop) c \<and> m_tasks c = [7] \<and> m_pcs c 0 = Polling
    \<and> (\<forall>u. u \<noteq> 0 \<longrightarrow> m_pcs c u = Absent) \<and> poll_nothing Loop 0 c = c"
proof -
  have "wakes True {} demo_polling" by (auto simp: wakes_def waiters_def demo_defs)
  from core_step.submit [OF this, of "\<lambda>_. Loop" 7]
  have "core_step (\<lambda>_. Loop) demo_polling (submit_impl 7 demo_polling)" by simp
  from core_reach.step [OF demo_polling_reach this] show ?thesis
    by (intro exI [of _ "submit_impl 7 demo_polling"])
      (simp add: submit_impl_def poll_nothing_def demo_defs)
qed

end
