(* ===== verification/Gate_Memtext.thy ===== *)
theory Gate_Memtext
  imports Memtext_Requests
begin

text \<open>
  The callbacks of the text gate: \<^verbatim>\<open>src/gate_memtext_retrieval.cc\<close>, \<^verbatim>\<open>gate_memtext_storage.cc\<close>,
  \<^verbatim>\<open>gate_memtext_delete.cc\<close>, \<^verbatim>\<open>gate_memtext_impl.cc\<close> and the table of callbacks in
  \<^verbatim>\<open>gate_memtext.cc\<close>. They have the type the parser of theory \<open>Memtext\<close> calls: they get the request
  and the receive buffer its pointers point into, and the state around the parser.

  libmemcached is the parameter \<open>cl\<close>, a record of operations on a client state \<open>'m\<close>. As its
  documentation says, a failing operation returns no value; \<open>memcached_fetch\<close> writes the key it found
  into the buffer it is given and sets its length. A value it returns is a block of memory that the
  caller frees.

  \<open>g_sent\<close> is what was handed to \<open>core::write\<close> and \<open>core::writev\<close>: the descriptor, the byte ranges in
  order, and the blocks the finalizer frees. Requests for memory, and submissions, are granted as
  \<open>g_grants\<close> says of the n-th of them. \<open>g_base\<close> is the address of the receive buffer.
\<close>

section \<open>The world of the callbacks\<close>

datatype memcached_return =
    MEMCACHED_SUCCESS | MEMCACHED_NOTSTORED | MEMCACHED_DELETED | MEMCACHED_NOTFOUND
  | MEMCACHED_CLIENT_ERROR | MEMCACHED_NO_SERVERS | MEMCACHED_SERVER_ERROR | MEMCACHED_END
  | MEMCACHED_other nat

record 'm client =
  mc_get :: "byte list \<Rightarrow> 'm \<Rightarrow> (memcached_return + (byte list option \<times> uint32_t)) \<times> 'm"
  mc_mget :: "byte list list \<Rightarrow> 'm \<Rightarrow> memcached_return \<times> 'm"
  mc_fetch :: "'m \<Rightarrow> (memcached_return + (byte list \<times> byte list option \<times> uint32_t)) \<times> 'm"
  mc_set :: "byte list \<Rightarrow> byte list \<Rightarrow> uint32_t \<Rightarrow> uint32_t \<Rightarrow> 'm \<Rightarrow> memcached_return \<times> 'm"
  mc_delete :: "byte list \<Rightarrow> uint32_t \<Rightarrow> 'm \<Rightarrow> memcached_return \<times> 'm"

record 'm gate =
  g_mc :: 'm
  g_base :: size_t
  g_sent :: "(nat \<times> byte list list \<times> nat set) list"
  g_live :: "nat set"
  g_fresh :: nat
  g_grants :: "nat \<Rightarrow> bool"
  g_tries :: nat

definition g_ask :: "'m gate \<Rightarrow> bool \<times> 'm gate" where
  "g_ask w = (g_grants w (g_tries w), w\<lparr>g_tries := g_tries w + 1\<rparr>)"

text \<open>\<open>n\<close> new blocks.\<close>

definition g_blocks :: "nat \<Rightarrow> 'm gate \<Rightarrow> nat set" where
  "g_blocks n w = {g_fresh w ..< g_fresh w + n}"

definition g_alloc :: "nat \<Rightarrow> 'm gate \<Rightarrow> 'm gate" where
  "g_alloc n w = w\<lparr>g_live := g_live w \<union> g_blocks n w, g_fresh := g_fresh w + n\<rparr>"

definition g_free :: "nat set \<Rightarrow> 'm gate \<Rightarrow> 'm gate" where
  "g_free bs w = w\<lparr>g_live := g_live w - bs\<rparr>"

definition core_send :: "nat \<Rightarrow> byte list list \<Rightarrow> nat set \<Rightarrow> 'm gate \<Rightarrow> bool \<times> 'm gate" where
  "core_send fd vec frees w =
    (case g_ask w of
       (False, w1) \<Rightarrow> (False, w1)
     | (True, w1) \<Rightarrow> (True, w1\<lparr>g_sent := g_sent w1 @ [(fd, vec, frees)]\<rparr>))"

text \<open>A submission as the last action of a callback: \<open>return 0\<close>, or the exception of \<open>core::write\<close>.\<close>

definition finish_send :: "bool \<Rightarrow> cb_result" where
  "finish_send ok = (if ok then Cb_return 0 else Cb_throw)"

definition send_static :: "nat \<Rightarrow> string \<Rightarrow> 'm gate \<Rightarrow> cb_result \<times> 'm gate" where
  "send_static fd str w = (case core_send fd [bytes_of str] {} w of (ok, w') \<Rightarrow> (finish_send ok, w'))"

definition CRLF :: string where "CRLF = [CHR 0x0D, CHR 0x0A]"

fun error_reply :: "memcached_return \<Rightarrow> string" where
  "error_reply MEMCACHED_NOTSTORED = ''NOT_STORED'' @ CRLF"
| "error_reply MEMCACHED_DELETED = ''DELETED'' @ CRLF"
| "error_reply MEMCACHED_NOTFOUND = ''NOT_FOUND'' @ CRLF"
| "error_reply MEMCACHED_CLIENT_ERROR = ''CLIENT_ERROR'' @ CRLF"
| "error_reply MEMCACHED_NO_SERVERS = ''SERVER_ERROR no server'' @ CRLF"
| "error_reply MEMCACHED_SERVER_ERROR = ''SERVER_ERROR'' @ CRLF"
| "error_reply _ = ''SERVER_ERROR unknown error'' @ CRLF"

definition send_error :: "nat \<Rightarrow> memcached_return \<Rightarrow> 'm gate \<Rightarrow> cb_result \<times> 'm gate" where
  "send_error fd err w = send_static fd (error_reply err) w"

section \<open>Retrieval\<close>

definition MEMTEXT_MULTI_MAX :: nat where "MEMTEXT_MULTI_MAX = 1024"

definition HEADER_SIZE :: "nat \<Rightarrow> nat" where
  "HEADER_SIZE keylen = 6 + keylen + 1 + 10 + 1 + 10 + 1 + 20 + 3"

definition END_LINE :: "byte list" where "END_LINE = bytes_of (CRLF @ ''END'' @ CRLF)"

text \<open>What the two \<open>sprintf\<close> and the copies of the key write after the first word.\<close>

definition header_tail :: "bool \<Rightarrow> byte list \<Rightarrow> uint32_t \<Rightarrow> nat \<Rightarrow> byte list" where
  "header_tail require_cas key flags vallen =
    key @ bytes_of '' '' @ decimal (unat flags) @ bytes_of '' '' @ decimal vallen
      @ (if require_cas then bytes_of '' 0'' else []) @ bytes_of CRLF"

definition request_get_single ::
    "'m client \<Rightarrow> bool \<Rightarrow> nat \<Rightarrow> memtext_request_retrieval \<Rightarrow> byte list \<Rightarrow> 'm gate \<Rightarrow>
      cb_result \<times> byte list \<times> 'm gate" where
  "request_get_single cl require_cas fd r buf w =
    (let key = deref (g_base w) buf (rr_key r ! 0) (rr_key_len r ! 0) in
     case mc_get cl key (g_mc w) of (res, mc') \<Rightarrow>
      let w0 = w\<lparr>g_mc := mc'\<rparr> in
      (case res of
         Inl err \<Rightarrow>
           (case (if err \<noteq> MEMCACHED_NOTFOUND then send_error fd err w0
                  else send_static fd (''END'' @ CRLF) w0) of (c, w1) \<Rightarrow> (c, buf, w1))
       | Inr (None, flags) \<Rightarrow>
           (case send_static fd (''END'' @ CRLF) w0 of (c, w1) \<Rightarrow> (c, buf, w1))
       | Inr (Some val, flags) \<Rightarrow>
           let w1 = g_alloc 1 w0 in
           (case g_ask w1 of
              (False, w2) \<Rightarrow> (Cb_throw, buf, w2)
            | (True, w2) \<Rightarrow>
                let header = g_fresh w2; w3 = g_alloc 1 w2 in
                (case core_send fd
                    [bytes_of ''VALUE '' @ header_tail require_cas key flags (length val), val, END_LINE]
                    {header} w3 of
                   (ok, w4) \<Rightarrow> (finish_send ok, buf, w4)))))"

text \<open>
  One entry of \<open>multi\<close> with the pointer and the current length of its key. The loop of fetches ends
  with \<open>Some err\<close> for an error that is sent, and leaves the entries behind \<open>MEMCACHED_END\<close> empty.
\<close>

type_synonym multi_set = "size_t \<times> size_t \<times> byte list option \<times> uint32_t"

fun multi_fetch :: "'m client \<Rightarrow> size_t \<Rightarrow> (size_t \<times> size_t) list \<Rightarrow> byte list \<Rightarrow> 'm \<Rightarrow>
    memcached_return option \<times> multi_set list \<times> byte list \<times> 'm" where
  "multi_fetch cl base [] buf mc = (None, [], buf, mc)"
| "multi_fetch cl base ((p, n) # ks) buf mc =
    (case mc_fetch cl mc of
       (Inl err, mc') \<Rightarrow>
         if err = MEMCACHED_NOTFOUND then
           (case multi_fetch cl base ks buf mc' of (e, ms, buf', mc'') \<Rightarrow> (e, (p, n, None, 0) # ms, buf', mc''))
         else if err = MEMCACHED_END then
           (None, map (\<lambda>(p, n). (p, n, None, 0)) ((p, n) # ks), buf, mc')
         else (Some err, [], buf, mc')
     | (Inr (key, val, flags), mc') \<Rightarrow>
         (case multi_fetch cl base ks (store_at buf (unat (p - base)) key) mc' of
            (e, ms, buf', mc'') \<Rightarrow> (e, (p, of_nat (length key), val, flags) # ms, buf', mc'')))"

definition multi_found :: "multi_set list \<Rightarrow> multi_set list" where
  "multi_found ms = filter (\<lambda>(p, n, val, flags). val \<noteq> None) ms"

text \<open>The pairs of ranges in \<open>vec\<close>: the first header begins without an end of line.\<close>

fun multi_vec :: "bool \<Rightarrow> size_t \<Rightarrow> byte list \<Rightarrow> bool \<Rightarrow> multi_set list \<Rightarrow> byte list list" where
  "multi_vec require_cas base buf first [] = []"
| "multi_vec require_cas base buf first ((p, n, val, flags) # ms) =
    (case val of
       None \<Rightarrow> multi_vec require_cas base buf first ms
     | Some v \<Rightarrow>
         ((if first then [] else bytes_of CRLF) @ bytes_of ''VALUE ''
            @ header_tail require_cas (deref base buf p n) flags (length v))
         # v # multi_vec require_cas base buf False ms)"

definition request_get_multi ::
    "'m client \<Rightarrow> bool \<Rightarrow> nat \<Rightarrow> memtext_request_retrieval \<Rightarrow> byte list \<Rightarrow> 'm gate \<Rightarrow>
      cb_result \<times> byte list \<times> 'm gate" where
  "request_get_multi cl require_cas fd r buf w =
    (if MEMTEXT_MULTI_MAX < unat (rr_key_num r) then
       (case send_error fd MEMCACHED_CLIENT_ERROR w of (c, w1) \<Rightarrow> (c, buf, w1))
     else
       let ks = zip (rr_key r) (rr_key_len r) in
       case mc_mget cl (map (\<lambda>(p, n). deref (g_base w) buf p n) ks) (g_mc w) of (err, mc1) \<Rightarrow>
       if err \<noteq> MEMCACHED_SUCCESS then
         (case send_error fd err (w\<lparr>g_mc := mc1\<rparr>) of (c, w1) \<Rightarrow> (c, buf, w1))
       else
         (case multi_fetch cl (g_base w) ks buf mc1 of (e, ms, buf', mc2) \<Rightarrow>
           let w0 = w\<lparr>g_mc := mc2\<rparr>; vals = length (multi_found ms) in
           (case e of
              Some err \<Rightarrow> (case send_error fd err w0 of (c, w1) \<Rightarrow> (c, buf', w1))
            | None \<Rightarrow>
                if vals = 0 then
                  (case send_static fd (''END'' @ CRLF) w0 of (c, w1) \<Rightarrow> (c, buf', w1))
                else
                  (case g_ask w0 of
                     (False, w1) \<Rightarrow> (Cb_throw, buf', w1)
                   | (True, w1) \<Rightarrow>
                       let carried = g_blocks (vals + 1) w1; w2 = g_alloc (vals + 1) w1 in
                       (case core_send fd (multi_vec require_cas (g_base w) buf' True ms @ [END_LINE])
                            carried w2 of
                          (True, w3) \<Rightarrow> (Cb_return 0, buf', w3)
                        | (False, w3) \<Rightarrow> (Cb_throw, buf', g_free carried w3))))))"

definition retrieve :: "'m client \<Rightarrow> bool \<Rightarrow> (nat, 'm gate) memtext_cb" where
  "retrieve cl require_cas fd cmd req buf w =
    (case req of
       Req_retrieval r \<Rightarrow>
         if rr_key_num r = 1 then request_get_single cl require_cas fd r buf w
         else request_get_multi cl require_cas fd r buf w
     | _ \<Rightarrow> (Cb_throw, buf, w))"

definition request_get :: "'m client \<Rightarrow> (nat, 'm gate) memtext_cb" where
  "request_get cl = retrieve cl False"

definition request_gets :: "'m client \<Rightarrow> (nat, 'm gate) memtext_cb" where
  "request_gets cl = retrieve cl True"

section \<open>Storage and deletion\<close>

definition reply_stored :: "nat \<Rightarrow> bool \<Rightarrow> string \<Rightarrow> memcached_return \<Rightarrow> 'm gate \<Rightarrow>
    cb_result \<times> 'm gate" where
  "reply_stored fd noreply ok_text err w =
    (if noreply then (Cb_return 0, w)
     else if err \<noteq> MEMCACHED_SUCCESS then send_error fd err w
     else send_static fd ok_text w)"

definition request_set :: "'m client \<Rightarrow> (nat, 'm gate) memtext_cb" where
  "request_set cl fd cmd req buf w =
    (case req of
       Req_storage r \<Rightarrow>
         (case mc_set cl (deref (g_base w) buf (rs_key r) (rs_key_len r))
              (deref (g_base w) buf (rs_data r) (rs_data_len r)) (rs_exptime r) (ucast (rs_flags r)) (g_mc w) of
            (err, mc') \<Rightarrow>
              (case reply_stored fd (rs_noreply r) (''STORED'' @ CRLF) err (w\<lparr>g_mc := mc'\<rparr>) of
                 (c, w') \<Rightarrow> (c, buf, w')))
     | _ \<Rightarrow> (Cb_throw, buf, w))"

definition request_delete :: "'m client \<Rightarrow> (nat, 'm gate) memtext_cb" where
  "request_delete cl fd cmd req buf w =
    (case req of
       Req_delete r \<Rightarrow>
         (case mc_delete cl (deref (g_base w) buf (rd_key r) (rd_key_len r)) (rd_exptime r) (g_mc w) of
            (err, mc') \<Rightarrow>
              (case reply_stored fd (rd_noreply r) (''DELETED'' @ CRLF) err (w\<lparr>g_mc := mc'\<rparr>) of
                 (c, w') \<Rightarrow> (c, buf, w')))
     | _ \<Rightarrow> (Cb_throw, buf, w))"

text \<open>The table of the constructor of \<open>memtext::handler\<close>: the other commands have no callback.\<close>

fun gate_callbacks :: "'m client \<Rightarrow> (nat, 'm gate) memtext_callback" where
  "gate_callbacks cl MEMTEXT_CMD_GET = Some (request_get cl)"
| "gate_callbacks cl MEMTEXT_CMD_GETS = Some (request_gets cl)"
| "gate_callbacks cl MEMTEXT_CMD_SET = Some (request_set cl)"
| "gate_callbacks cl MEMTEXT_CMD_DELETE = Some (request_delete cl)"
| "gate_callbacks cl _ = None"


section \<open>Headers\<close>

lemma length_decimal: "n < 10 ^ Suc d \<Longrightarrow> length (decimal n) \<le> Suc d"
proof (induction d arbitrary: n)
  case 0
  then show ?case by (simp add: decimal.simps)
next
  case (Suc d)
  then have "n div 10 < 10 ^ Suc d" by (simp add: div_less_iff_less_mult mult.commute)
  from Suc.IH [OF this] show ?case by (subst decimal.simps) simp
qed

lemma length_header_tail:
  assumes "vallen < 2 ^ 64"
  shows "length (header_tail require_cas key flags vallen) \<le> length key + 36"
proof -
  have "unat flags < 2 ^ 32" using unsigned_less [of flags] by simp
  then have "unat flags < 10 ^ Suc 9" by simp
  then have "length (decimal (unat flags)) \<le> 10" using length_decimal by fastforce
  moreover have "vallen < 10 ^ Suc 19" using assms by simp
  then have "length (decimal vallen) \<le> 20" using length_decimal by fastforce
  ultimately show ?thesis by (simp add: header_tail_def CRLF_def)
qed

section \<open>What the client is sent\<close>

text \<open>
  A value as the protocol writes it: a line of words with one blank between two of them, the block of
  data and a line end. The reply to a \<open>gets\<close> has a fifth word, the unique number of the value, for which
  this program always sends 0.
\<close>

fun blanks :: "byte list list \<Rightarrow> byte list" where
  "blanks [] = []"
| "blanks [w] = w"
| "blanks (w # v # ws) = w @ bytes_of '' '' @ blanks (v # ws)"

definition entry :: "bool \<Rightarrow> byte list \<times> byte list \<times> uint32_t \<Rightarrow> byte list" where
  "entry require_cas x = (case x of (key, val, flags) \<Rightarrow>
     blanks ([bytes_of ''VALUE'', key, decimal (unat flags), decimal (length val)]
       @ (if require_cas then [bytes_of ''0''] else []))
     @ bytes_of CRLF @ val @ bytes_of CRLF)"

lemma entry_header:
  "entry require_cas (key, val, flags) =
     bytes_of ''VALUE '' @ header_tail require_cas key flags (length val) @ val @ bytes_of CRLF"
  by (simp add: entry_def header_tail_def)

definition entries_reply :: "bool \<Rightarrow> (byte list \<times> byte list \<times> uint32_t) list \<Rightarrow> byte list" where
  "entries_reply require_cas xs = concat (map (entry require_cas) xs) @ bytes_of (''END'' @ CRLF)"

definition get_reply :: "bool \<Rightarrow> byte list \<Rightarrow> memcached_return + (byte list option \<times> uint32_t) \<Rightarrow> byte list" where
  "get_reply require_cas key res =
    (case res of
       Inl err \<Rightarrow> if err = MEMCACHED_NOTFOUND then entries_reply require_cas [] else bytes_of (error_reply err)
     | Inr (None, flags) \<Rightarrow> entries_reply require_cas []
     | Inr (Some val, flags) \<Rightarrow> entries_reply require_cas [(key, val, flags)])"

definition grants_all :: "'m gate \<Rightarrow> bool" where
  "grants_all w \<longleftrightarrow> (\<forall>i. g_grants w i)"

lemma core_send_granted:
  "grants_all w \<Longrightarrow> core_send fd vec frees w =
    (True, w\<lparr>g_tries := g_tries w + 1, g_sent := g_sent w @ [(fd, vec, frees)]\<rparr>)"
  by (simp add: core_send_def g_ask_def grants_all_def)

lemma g_ask_granted: "grants_all w \<Longrightarrow> g_ask w = (True, w\<lparr>g_tries := g_tries w + 1\<rparr>)"
  by (simp add: g_ask_def grants_all_def)

lemma grants_all_frame [simp]:
  "grants_all (w\<lparr>g_mc := m\<rparr>) = grants_all w" "grants_all (g_alloc n w) = grants_all w"
  "grants_all (w\<lparr>g_tries := n\<rparr>) = grants_all w" "grants_all (w\<lparr>g_sent := x\<rparr>) = grants_all w"
  by (simp_all add: grants_all_def g_alloc_def)

lemma g_alloc_frame [simp]:
  "g_mc (g_alloc n w) = g_mc w" "g_sent (g_alloc n w) = g_sent w" "g_tries (g_alloc n w) = g_tries w"
  "g_base (g_alloc n w) = g_base w"
  by (simp_all add: g_alloc_def)

lemma send_static_granted:
  "grants_all w \<Longrightarrow> send_static fd str w =
    (Cb_return 0, w\<lparr>g_tries := g_tries w + 1, g_sent := g_sent w @ [(fd, [bytes_of str], {})]\<rparr>)"
  by (simp add: send_static_def core_send_granted finish_send_def)

lemmas granted = core_send_granted g_ask_granted send_static_granted

text \<open>What a submission added to the world, as the client sees it.\<close>

definition replied :: "'m gate \<Rightarrow> nat \<Rightarrow> byte list \<Rightarrow> 'm gate \<Rightarrow> bool" where
  "replied w fd bs w' \<longleftrightarrow> (\<exists>vec frees. g_sent w' = g_sent w @ [(fd, vec, frees)] \<and> concat vec = bs)"

lemma replied_frame [simp]: "replied (w\<lparr>g_mc := m\<rparr>) fd bs w' = replied w fd bs w'"
  by (simp add: replied_def)

lemma request_get_single_reply:
  assumes "grants_all w" and "deref (g_base w) buf (rr_key r ! 0) (rr_key_len r ! 0) = key"
    and "mc_get cl key (g_mc w) = (res, mc')"
  shows "\<exists>w'. request_get_single cl require_cas fd r buf w = (Cb_return 0, buf, w')
    \<and> g_mc w' = mc' \<and> replied w fd (get_reply require_cas key res) w'"
proof (cases res)
  case (Inl err)
  with assms show ?thesis
    by (simp add: request_get_single_def granted replied_def get_reply_def entries_reply_def send_error_def)
next
  case (Inr x)
  obtain val flags where x: "x = (val, flags)" by (cases x)
  with Inr assms show ?thesis
    by (cases val) (auto simp: request_get_single_def granted replied_def get_reply_def
        entries_reply_def entry_header END_LINE_def finish_send_def Let_def)
qed

lemma request_keys_single:
  assumes "request_keys base buf req = [k]"
  shows "deref base buf (rr_key req ! 0) (rr_key_len req ! 0) = k"
proof -
  obtain p ps n ns where "rr_key req = p # ps" "rr_key_len req = n # ns"
    using assms by (cases "rr_key req"; cases "rr_key_len req") (auto simp: request_keys_def)
  with assms show ?thesis by (simp add: request_keys_def deref_def)
qed

text \<open>
  A get of one key, from the bytes received to the bytes sent: when the buffer holds
  \<open>get k\<close> or \<open>gets k\<close> and a line end, \<open>memtext_execute\<close> asks libmemcached for exactly that key and
  one submission to the connection carries the value with its flags and length and \<open>END\<close>, only
  \<open>END\<close> for a miss, or the line of the error; the bytes are used up and the parser is ready.
\<close>

theorem gate_get_reply:
  fixes ctx :: "(nat, 'm gate) memtext_parser"
  assumes v: "(v, cmd) \<in> set command_words" "kind_of cmd = Retrieval"
    and inv: "mt_inv off ctx" "mt_cs ctx \<in> {S_start, S_final}"
    and cb: "mt_callback ctx = gate_callbacks cl"
    and k: "key_text k" and s: "slice_at buf off (length (retrieval_text v [k])) = retrieval_text v [k]"
    and buf: "length buf < 2 ^ 32" and w: "grants_all w" and base: "g_base w = base"
    and res: "mc_get cl k (g_mc w) = (res, mc')"
  shows "\<exists>c w'. memtext_execute base (ctx, buf, w) (off + length (retrieval_text v [k])) off =
      Ok (1, off + length (retrieval_text v [k]), c, buf, w')
    \<and> g_mc w' = mc' \<and> replied w (mt_user ctx) (get_reply (cmd = MEMTEXT_CMD_GETS) k res) w'"
proof -
  have ks: "[k] \<noteq> []" "list_all key_text [k]" "length [k] \<le> 256" using k by simp_all
  from get_delivers [OF v inv ks s buf, of base w] obtain req c where
    req: "request_keys base buf req = [k]" "rr_key_num req = 1"
    and del: "delivers base off (off + length (retrieval_text v [k])) ctx buf w cmd (Req_retrieval req) c"
    by auto
  have key: "deref (g_base w) buf (rr_key req ! 0) (rr_key_len req ! 0) = k"
    using request_keys_single [OF req(1)] base by simp
  from request_get_single_reply [OF w key res] obtain w' where
    w': "request_get_single cl (cmd = MEMTEXT_CMD_GETS) (mt_user ctx) req buf w = (Cb_return 0, buf, w')"
      "g_mc w' = mc'" "replied w (mt_user ctx) (get_reply (cmd = MEMTEXT_CMD_GETS) k res) w'"
    by blast
  have "\<exists>f. gate_callbacks cl cmd = Some f
      \<and> f (mt_user ctx) cmd (Req_retrieval req) buf w = (Cb_return 0, buf, w')"
    using v(2) w'(1) req(2)
    by (cases cmd) (auto simp: request_get_def request_gets_def retrieve_def)
  with del cb w'(2,3) show ?thesis by (auto simp: delivers_def)
qed

text \<open>A client that knows one key.\<close>

definition demo_client :: "unit client" where
  "demo_client = \<lparr>mc_get = (\<lambda>k m. (if k = bytes_of ''k'' then Inr (Some (bytes_of ''vv''), 5)
       else Inl MEMCACHED_NOTFOUND, m)),
     mc_mget = (\<lambda>ks m. (MEMCACHED_SUCCESS, m)), mc_fetch = (\<lambda>m. (Inl MEMCACHED_END, m)),
     mc_set = (\<lambda>k d e f m. (MEMCACHED_SUCCESS, m)), mc_delete = (\<lambda>k e m. (MEMCACHED_NOTFOUND, m))\<rparr>"

definition demo_gate :: "unit gate" where
  "demo_gate = \<lparr>g_mc = (), g_base = 0, g_sent = [], g_live = {}, g_fresh = 0, g_grants = (\<lambda>_. True), g_tries = 0\<rparr>"

definition demo_parser :: "(nat, unit gate) memtext_parser" where
  "demo_parser = memtext_init (gate_callbacks demo_client) 3"

lemma demo_parser_ready: "mt_inv 0 demo_parser" "mt_cs demo_parser \<in> {S_start, S_final}"
    "mt_callback demo_parser = gate_callbacks demo_client" "mt_user demo_parser = 3"
  by (simp_all add: demo_parser_def memtext_init_def mt_inv_def idle_def)

theorem gate_get_reply_witness:
  "\<exists>w'. replied demo_gate 3 (bytes_of (''VALUE k 5 2'' @ CRLF @ ''vv'' @ CRLF @ ''END'' @ CRLF)) w'"
proof -
  have v: "(bytes_of ''get'', MEMTEXT_CMD_GET) \<in> set command_words" by (simp add: command_words_def)
  have key: "key_text (bytes_of ''k'')" by code_simp
  have slice: "slice_at (retrieval_text (bytes_of ''get'') [bytes_of ''k'']) 0
      (length (retrieval_text (bytes_of ''get'') [bytes_of ''k''])) =
    retrieval_text (bytes_of ''get'') [bytes_of ''k'']" by simp
  have len: "length (retrieval_text (bytes_of ''get'') [bytes_of ''k'']) < 2 ^ 32"
    by (simp add: retrieval_text_def)
  have granted: "grants_all demo_gate" "g_base demo_gate = 0" by (simp_all add: grants_all_def demo_gate_def)
  have res: "mc_get demo_client (bytes_of ''k'') (g_mc demo_gate) = (Inr (Some (bytes_of ''vv''), 5), ())"
    by (simp add: demo_client_def)
  have "get_reply (MEMTEXT_CMD_GET = MEMTEXT_CMD_GETS) (bytes_of ''k'') (Inr (Some (bytes_of ''vv''), 5))
      = bytes_of (''VALUE k 5 2'' @ CRLF @ ''vv'' @ CRLF @ ''END'' @ CRLF)"
    by code_simp
  with gate_get_reply [OF v _ demo_parser_ready(1,2,3) key slice len granted res] show ?thesis
    by (auto simp: demo_parser_ready(4))
qed


lemma reply_stored_granted:
  assumes "grants_all w"
  shows "\<exists>w'. reply_stored fd noreply ok_text err (w\<lparr>g_mc := m\<rparr>) = (Cb_return 0, w') \<and> g_mc w' = m
    \<and> (if noreply then g_sent w' = g_sent w
       else replied w fd (bytes_of (if err = MEMCACHED_SUCCESS then ok_text else error_reply err)) w')"
  using assms by (simp add: reply_stored_def send_error_def granted replied_def)

text \<open>
  A \<open>set\<close>, from the bytes received: \<open>memtext_execute\<close> hands libmemcached exactly the key and
  the data of the text, the expiration modulo 2^32 and the flags modulo 2^16, and, unless the
  client said \<open>noreply\<close>, one submission carries \<open>STORED\<close> or the line of the error.
\<close>

theorem gate_set_stores:
  fixes ctx :: "(nat, 'm gate) memtext_parser"
  assumes t: "t = storage_text (bytes_of ''set'') k f e d nr" and inv: "mt_inv off ctx" "mt_cs ctx \<in> {S_start, S_final}"
    and cb: "mt_callback ctx = gate_callbacks cl"
    and k: "key_text k" and f: "f < 2 ^ 64"
    and e: "e < 2 ^ 64" "e = 0 \<or> (of_nat e :: uint32_t) \<noteq> 0" and d: "d \<noteq> []"
    and s: "slice_at buf off (length t) = t"
    and buf: "length buf < 2 ^ 32" and w: "grants_all w" and base: "g_base w = base"
    and res: "mc_set cl k d (of_nat e) (ucast (of_nat f :: uint16_t)) (g_mc w) = (err, mc')"
  shows "\<exists>c w'. memtext_execute base (ctx, buf, w) (off + length t) off = Ok (1, off + length t, c, buf, w')
    \<and> g_mc w' = mc'
    \<and> (if nr then g_sent w' = g_sent w
       else replied w (mt_user ctx)
         (bytes_of (if err = MEMCACHED_SUCCESS then ''STORED'' @ CRLF else error_reply err)) w')"
proof -
  have v: "(bytes_of ''set'', MEMTEXT_CMD_SET) \<in> set command_words" by (simp add: command_words_def)
  from storage_delivers [OF v _ inv k f e d s [unfolded t] buf, of base w] obtain req c where
    del: "delivers base off (off + length t) ctx buf w MEMTEXT_CMD_SET (Req_storage req) c"
    and req: "deref base buf (rs_key req) (rs_key_len req) = k"
      "deref base buf (rs_data req) (rs_data_len req) = d"
      "rs_flags req = of_nat f" "rs_exptime req = of_nat e" "rs_noreply req = nr"
    unfolding t by auto
  from reply_stored_granted [OF w, of "mt_user ctx" nr "''STORED'' @ CRLF" err mc'] obtain w' where
    w': "reply_stored (mt_user ctx) nr (''STORED'' @ CRLF) err (w\<lparr>g_mc := mc'\<rparr>) = (Cb_return 0, w')"
      "g_mc w' = mc'"
      "if nr then g_sent w' = g_sent w else replied w (mt_user ctx)
         (bytes_of (if err = MEMCACHED_SUCCESS then ''STORED'' @ CRLF else error_reply err)) w'"
    by blast
  have "request_set cl (mt_user ctx) MEMTEXT_CMD_SET (Req_storage req) buf w = (Cb_return 0, buf, w')"
    using req res base w'(1) by (simp add: request_set_def)
  with del cb w'(2,3) show ?thesis by (auto simp: delivers_def)
qed

theorem gate_set_stores_witness:
  "\<exists>w'. replied demo_gate 3 (bytes_of (''STORED'' @ CRLF)) w'"
proof -
  let ?t = "storage_text (bytes_of ''set'') (bytes_of ''k'') 1 0 (bytes_of ''dd'') False"
  have key: "key_text (bytes_of ''k'')" by code_simp
  have len: "length ?t < 2 ^ 32"
    by (simp add: storage_text_def storage_head_def line_text_def decimal.simps)
  have slice: "slice_at ?t 0 (length ?t) = ?t" by simp
  have granted: "grants_all demo_gate" "g_base demo_gate = 0" by (simp_all add: grants_all_def demo_gate_def)
  have res: "mc_set demo_client (bytes_of ''k'') (bytes_of ''dd'') (of_nat 0) (ucast (of_nat 1 :: uint16_t))
      (g_mc demo_gate) = (MEMCACHED_SUCCESS, ())"
    by (simp add: demo_client_def)
  from gate_set_stores [OF refl demo_parser_ready(1,2,3) key _ _ _ _ slice len granted res]
  show ?thesis by (auto simp: demo_parser_ready(4))
qed

section \<open>Several keys\<close>

text \<open>
  \<open>keys_fit\<close>: what a fetch returns is no longer than the key that was requested in its place, whose
  length is in the list. \<open>fetched\<close> is what the fetches return, up to the end or an error, and
  \<open>fetch_error\<close> the error.
\<close>

fun keys_fit :: "'m client \<Rightarrow> nat list \<Rightarrow> 'm \<Rightarrow> bool" where
  "keys_fit cl [] mc \<longleftrightarrow> True"
| "keys_fit cl (n # ns) mc \<longleftrightarrow>
    (case mc_fetch cl mc of
       (Inl err, mc') \<Rightarrow> err = MEMCACHED_NOTFOUND \<longrightarrow> keys_fit cl ns mc'
     | (Inr (key, val, flags), mc') \<Rightarrow> length key \<le> n \<and> keys_fit cl ns mc')"

fun fetch_error :: "'m client \<Rightarrow> nat \<Rightarrow> 'm \<Rightarrow> memcached_return option" where
  "fetch_error cl 0 mc = None"
| "fetch_error cl (Suc n) mc =
    (case mc_fetch cl mc of
       (Inl err, mc') \<Rightarrow>
         if err = MEMCACHED_NOTFOUND then fetch_error cl n mc' else if err = MEMCACHED_END then None else Some err
     | (Inr x, mc') \<Rightarrow> fetch_error cl n mc')"

fun fetched :: "'m client \<Rightarrow> nat \<Rightarrow> 'm \<Rightarrow> (byte list \<times> byte list \<times> uint32_t) list \<times> 'm" where
  "fetched cl 0 mc = ([], mc)"
| "fetched cl (Suc n) mc =
    (case mc_fetch cl mc of
       (Inl err, mc') \<Rightarrow> if err = MEMCACHED_NOTFOUND then fetched cl n mc' else ([], mc')
     | (Inr (key, val, flags), mc') \<Rightarrow>
         (case fetched cl n mc' of
            (xs, mc'') \<Rightarrow> ((case val of None \<Rightarrow> xs | Some v \<Rightarrow> (key, v, flags) # xs), mc'')))"

lemma store_at_prefix: "i \<le> length m \<Longrightarrow> take i (store_at m i bs) = take i m"
  by (simp add: store_at_def min_absorb1)

lemma slice_prefix:
  assumes "take j m = take j m'" and "i + n \<le> j"
  shows "slice_at m i n = slice_at m' i n"
proof -
  have "slice_at x i n = slice_at (take j x) i n" for x :: "'a list"
    using assms(2) by (simp add: slice_at_def drop_take min_absorb1)
  with assms(1) show ?thesis by metis
qed

definition multi_reply :: "bool \<Rightarrow> 'm client \<Rightarrow> nat \<Rightarrow> 'm \<Rightarrow> byte list" where
  "multi_reply require_cas cl n mc =
    (case fetch_error cl n mc of
       Some err \<Rightarrow> bytes_of (error_reply err)
     | None \<Rightarrow> entries_reply require_cas (fst (fetched cl n mc)))"

lemma store_at_frame:
  assumes "i + length bs \<le> len" and "len \<le> length m"
  shows "length (store_at m i bs) = length m" and "drop len (store_at m i bs) = drop len m"
  using assms by (simp_all add: store_at_def)

text \<open>The fetches write between the first slot and the end of the last.\<close>

lemma multi_fetch_frame:
  assumes "slots_ok base len ks" and "len \<le> length buf" and "keys_fit cl (map (\<lambda>k. unat (snd k)) ks) mc"
    and "\<forall>(q, m) \<in> set ks. j \<le> unat (q - base)"
  shows "case multi_fetch cl base ks buf mc of (e, ms, buf', mc') \<Rightarrow>
    e = fetch_error cl (length ks) mc \<and> length buf' = length buf \<and> take j buf' = take j buf
    \<and> drop len buf' = drop len buf"
  using assms
proof (induction ks arbitrary: buf mc)
  case (Cons x ks)
  obtain p n where x: "x = (p, n)" by (cases x)
  obtain r mc' where r: "mc_fetch cl mc = (r, mc')" by (cases "mc_fetch cl mc")
  show ?case
  proof (cases r)
    case (Inl err)
    with Cons.IH [of buf mc'] Cons.prems r x show ?thesis by (auto split: prod.splits)
  next
    case (Inr y)
    obtain key val flags where y: "y = (key, val, flags)" by (cases y) auto
    let ?b = "store_at buf (unat (p - base)) key"
    have i: "unat (p - base) + length key \<le> len" "j \<le> unat (p - base)"
      using Cons.prems(1,3,4) x r Inr y by simp_all
    then have "take j ys = take j (take (unat (p - base)) ys)" for ys :: "byte list" by (simp add: min_absorb1)
    with store_at_prefix [of "unat (p - base)" buf key] i(1) Cons.prems(2)
    have "take j ?b = take j buf" by (metis add_leD1 le_trans)
    with store_at_frame [OF i(1) Cons.prems(2)] Cons.IH [of ?b mc'] Cons.prems r x Inr y
    show ?thesis by (auto split: prod.splits)
  qed
qed simp

fun vec_of :: "bool \<Rightarrow> bool \<Rightarrow> (byte list \<times> byte list \<times> uint32_t) list \<Rightarrow> byte list list" where
  "vec_of require_cas first [] = []"
| "vec_of require_cas first ((key, val, flags) # xs) =
    ((if first then [] else bytes_of CRLF) @ bytes_of ''VALUE '' @ header_tail require_cas key flags (length val))
      # val # vec_of require_cas False xs"

lemma concat_vec_of:
  "xs \<noteq> [] \<or> \<not> first \<Longrightarrow> concat (vec_of require_cas first xs) @ bytes_of CRLF =
    (if first then [] else bytes_of CRLF) @ concat (map (entry require_cas) xs)"
  by (induction require_cas first xs rule: vec_of.induct) (auto simp: entry_header)

lemma concat_vec_end:
  assumes "xs \<noteq> []"
  shows "concat (vec_of require_cas True xs @ [END_LINE]) = entries_reply require_cas xs"
proof -
  have "concat (vec_of require_cas True xs @ [END_LINE]) =
      (concat (vec_of require_cas True xs) @ bytes_of CRLF) @ bytes_of (''END'' @ CRLF)"
    by (simp add: END_LINE_def)
  then show ?thesis using concat_vec_of [of xs True require_cas] assms by (simp add: entries_reply_def)
qed

lemma length_vec_list: "length (vec_of require_cas first xs) = 2 * length xs"
  by (induction require_cas first xs rule: vec_of.induct) simp_all

lemma fetched_few: "length (fst (fetched cl n mc)) \<le> n"
  by (induction cl n mc rule: fetched.induct) (auto split: prod.split sum.split option.split intro: le_SucI)

lemma multi_vec_empty: "multi_vec require_cas base buf first (map (\<lambda>(p, n). (p, n, None, 0)) ks) = []"
  by (induction ks) auto

lemma multi_found_empty: "multi_found (map (\<lambda>(p, n). (p, n, None, 0)) ks) = []"
  by (auto simp: multi_found_def filter_empty_conv)

lemma written_key:
  assumes "slots_ok base (length buf) ((p, n) # ks)" and "length key \<le> unat n"
    and "take (unat (p - base) + unat n) buf' = take (unat (p - base) + unat n) (store_at buf (unat (p - base)) key)"
  shows "deref base buf' p (of_nat (length key)) = key"
proof -
  have "unat n < 2 ^ LENGTH(64)" by (rule unsigned_less)
  then have "length key < 2 ^ 64" using assms(2) by simp
  then have n: "unat (of_nat (length key) :: size_t) = length key" by (simp add: unat_of_nat_size)
  have "slice_at buf' (unat (p - base)) (length key) =
      slice_at (store_at buf (unat (p - base)) key) (unat (p - base)) (length key)"
    by (rule slice_prefix [OF assms(3)]) (use assms(2) in simp)
  also have "\<dots> = key" using assms(1,2) by (intro slice_store_same) simp
  finally show ?thesis by (simp add: deref_def n)
qed

lemma multi_fetch_vec:
  assumes "slots_ok base (length buf) ks" and "keys_fit cl (map (\<lambda>k. unat (snd k)) ks) mc"
  shows "case multi_fetch cl base ks buf mc of (e, ms, buf', mc') \<Rightarrow>
    multi_vec require_cas base buf' first ms = vec_of require_cas first (fst (fetched cl (length ks) mc))
    \<and> length (multi_found ms) = length (fst (fetched cl (length ks) mc))
    \<and> mc' = snd (fetched cl (length ks) mc)"
  using assms
proof (induction ks arbitrary: buf mc first)
  case Nil
  show ?case by (simp add: multi_found_def)
next
  case (Cons x ks)
  obtain p n where x: "x = (p, n)" by (cases x)
  obtain r mc' where r: "mc_fetch cl mc = (r, mc')" by (cases "mc_fetch cl mc")
  show ?case
  proof (cases r)
    case (Inl err)
    show ?thesis
    proof (cases "err = MEMCACHED_NOTFOUND")
      case False
      have "multi_vec require_cas base buf first (map (\<lambda>(p, n). (p, n, None, 0)) (x # ks)) = []"
        "multi_found (map (\<lambda>(p, n). (p, n, None, 0)) (x # ks)) = []"
        by (rule multi_vec_empty, rule multi_found_empty)
      with False Inl r x show ?thesis by (simp add: multi_found_def)
    next
      case True
      then have "keys_fit cl (map (\<lambda>k. unat (snd k)) ks) mc'" "slots_ok base (length buf) ks"
        using Cons.prems Inl r x by simp_all
      with Cons.IH [of buf mc' first] True Inl r x show ?thesis
        by (auto simp: multi_found_def split: prod.splits)
    qed
  next
    case (Inr y)
    obtain key val flags where y: "y = (key, val, flags)" by (cases y) auto
    let ?b = "store_at buf (unat (p - base)) key" and ?j = "unat (p - base) + unat n"
    have slots: "slots_ok base (length buf) ((p, n) # ks)" and fit: "length key \<le> unat n" "keys_fit cl (map (\<lambda>k. unat (snd k)) ks) mc'"
      using Cons.prems x r Inr y by simp_all
    then have len: "length ?b = length buf" and ks: "slots_ok base (length ?b) ks" by simp_all
    obtain e ms buf' mc'' where m: "multi_fetch cl base ks ?b mc' = (e, ms, buf', mc'')"
      by (metis prod_cases4)
    have "take ?j buf' = take ?j ?b"
      using multi_fetch_frame [OF ks order_refl fit(2), of ?j] slots m by simp
    from written_key [OF slots fit(1) this] have key: "deref base buf' p (of_nat (length key)) = key" .
    have IH: "multi_vec require_cas base buf' g ms = vec_of require_cas g (fst (fetched cl (length ks) mc'))"
      "length (multi_found ms) = length (fst (fetched cl (length ks) mc'))"
      "mc'' = snd (fetched cl (length ks) mc')" for g
      using Cons.IH [OF ks fit(2), of g] m by simp_all
    show ?thesis
      using IH key m x r Inr y
      by (cases val) (auto simp: multi_found_def split: prod.splits)
  qed
qed

lemma request_get_multi_reply:
  assumes w: "grants_all w" and num: "unat (rr_key_num r) \<le> MEMTEXT_MULTI_MAX"
    and ks: "ks = zip (rr_key r) (rr_key_len r)"
    and mget: "mc_mget cl (map (\<lambda>(p, n). deref (g_base w) buf p n) ks) (g_mc w) = (MEMCACHED_SUCCESS, mc1)"
    and slots: "slots_ok (g_base w) len ks" "len \<le> length buf" and fit: "keys_fit cl (map (\<lambda>k. unat (snd k)) ks) mc1"
  obtains buf' w' vec frees where "request_get_multi cl require_cas fd r buf w = (Cb_return 0, buf', w')"
    and "g_sent w' = g_sent w @ [(fd, vec, frees)]" and "concat vec = multi_reply require_cas cl (length ks) mc1"
    and "g_mc w' = snd (fetched cl (length ks) mc1)" and "grants_all w'" and "g_base w' = g_base w"
    and "length buf' = length buf" and "drop len buf' = drop len buf"
    and "length vec \<le> 2 * length ks + 1" and "frees = {} \<Longrightarrow> length vec = 1"
    and "(\<forall>b \<in> g_live w. b < g_fresh w) \<Longrightarrow> g_live (g_free frees w') = g_live w"
proof -
  obtain e ms buf' mc2 where m: "multi_fetch cl (g_base w) ks buf mc1 = (e, ms, buf', mc2)"
    by (metis prod_cases4)
  define xs where "xs = fst (fetched cl (length ks) mc1)"
  have e: "e = fetch_error cl (length ks) mc1" and buf': "length buf' = length buf" "drop len buf' = drop len buf"
    using multi_fetch_frame [OF slots fit, of 0] m by simp_all
  have v: "multi_vec require_cas (g_base w) buf' True ms = vec_of require_cas True xs"
    "length (multi_found ms) = length xs" "mc2 = snd (fetched cl (length ks) mc1)"
    using multi_fetch_vec [OF slots_ok_mono [OF slots] fit, of require_cas True] m by (simp_all add: xs_def)
  have few: "\<not> MEMTEXT_MULTI_MAX < unat (rr_key_num r)" using num by simp
  note start = request_get_multi_def [of cl require_cas fd r buf w, folded ks, unfolded Let_def mget,
      simplified few if_False prod.case m v(2)]
  show thesis
  proof (cases e)
    case (Some err)
    let ?vec = "[bytes_of (error_reply err)]"
    let ?w' = "w\<lparr>g_mc := mc2, g_tries := g_tries w + 1, g_sent := g_sent w @ [(fd, ?vec, {})]\<rparr>"
    have "request_get_multi cl require_cas fd r buf w = (Cb_return 0, buf', ?w')"
      using start w Some by (simp add: granted send_error_def)
    with that [of buf' ?w' ?vec "{}"] w Some e v(3) buf' show thesis by (simp add: multi_reply_def g_free_def)
  next
    case None
    then have reply: "multi_reply require_cas cl (length ks) mc1 = entries_reply require_cas xs"
      using e by (simp add: multi_reply_def xs_def)
    show thesis
    proof (cases "xs = []")
      case True
      let ?vec = "[bytes_of (''END'' @ CRLF)]"
      let ?w' = "w\<lparr>g_mc := mc2, g_tries := g_tries w + 1, g_sent := g_sent w @ [(fd, ?vec, {})]\<rparr>"
      have "request_get_multi cl require_cas fd r buf w = (Cb_return 0, buf', ?w')"
        using start w None True by (simp add: granted)
      with that [of buf' ?w' ?vec "{}"] w v(3) buf' reply True show thesis by (simp add: entries_reply_def g_free_def)
    next
      case False
      let ?vec = "vec_of require_cas True xs @ [END_LINE]" and ?n = "length xs + 1"
      let ?w1 = "w\<lparr>g_mc := mc2, g_tries := g_tries w + 1\<rparr>"
      let ?w' = "(g_alloc ?n ?w1)\<lparr>g_tries := g_tries w + 2, g_sent := g_sent w @ [(fd, ?vec, g_blocks ?n ?w1)]\<rparr>"
      have "request_get_multi cl require_cas fd r buf w = (Cb_return 0, buf', ?w')"
        using start None False w v(1) by (simp add: granted)
      moreover have "g_live (g_free (g_blocks ?n ?w1) ?w') = g_live w" if "\<forall>b \<in> g_live w. b < g_fresh w"
        using that by (auto simp: g_free_def g_alloc_def g_blocks_def)
      moreover have "length ?vec \<le> 2 * length ks + 1" "g_blocks ?n ?w1 \<noteq> {}"
        using fetched_few [of cl "length ks" mc1] by (simp_all add: length_vec_list xs_def g_blocks_def)
      ultimately show thesis
        using that [of buf' ?w' ?vec "g_blocks ?n ?w1"] w v(3) buf' reply concat_vec_end [OF False] by simp
    qed
  qed
qed

text \<open>
  C13. A get of several keys: when libmemcached accepts the request and no fetch returns a key
  longer than the one requested in its place, one submission answers it: the error of a fetch, or the found
  keys with their values and flags, in the order of the fetches, and \<open>END\<close>. The finalizer of the
  submission frees every block the callback took.
\<close>

theorem gate_multi_get_reply:
  assumes "grants_all w" and "unat (rr_key_num r) \<le> MEMTEXT_MULTI_MAX"
    and "ks = zip (rr_key r) (rr_key_len r)"
    and "mc_mget cl (map (\<lambda>(p, n). deref (g_base w) buf p n) ks) (g_mc w) = (MEMCACHED_SUCCESS, mc1)"
    and "slots_ok (g_base w) (length buf) ks" and "keys_fit cl (map (\<lambda>k. unat (snd k)) ks) mc1"
    and "\<forall>b \<in> g_live w. b < g_fresh w"
  shows "\<exists>buf' w' vec frees. request_get_multi cl require_cas fd r buf w = (Cb_return 0, buf', w')
    \<and> g_sent w' = g_sent w @ [(fd, vec, frees)]
    \<and> concat vec = (case fetch_error cl (length ks) mc1 of
        Some err \<Rightarrow> bytes_of (error_reply err)
      | None \<Rightarrow> entries_reply require_cas (fst (fetched cl (length ks) mc1)))
    \<and> g_mc w' = snd (fetched cl (length ks) mc1) \<and> g_live (g_free frees w') = g_live w"
  by (rule request_get_multi_reply [OF assms(1-5) order_refl assms(6), of require_cas fd])
    (use assms(7) in \<open>auto simp: multi_reply_def\<close>)

text \<open>
  A get of one key never frees the value: after the finalizer of its submission has run,
  the block that libmemcached allocated for the value is still allocated.
\<close>

theorem gate_get_leaks_value:
  assumes "grants_all w" and "deref (g_base w) buf (rr_key r ! 0) (rr_key_len r ! 0) = key"
    and "mc_get cl key (g_mc w) = (Inr (Some val, flags), mc')" and "\<forall>b \<in> g_live w. b < g_fresh w"
  shows "\<exists>w' vec frees block. request_get_single cl require_cas fd r buf w = (Cb_return 0, buf, w')
    \<and> g_sent w' = g_sent w @ [(fd, vec, frees)] \<and> block \<notin> g_live w
    \<and> g_live (g_free frees w') = insert block (g_live w)"
proof -
  define w2 where "w2 = (g_alloc 1 (w\<lparr>g_mc := mc'\<rparr>))\<lparr>g_tries := g_tries w + 1\<rparr>"
  define w4 where "w4 = (g_alloc 1 w2)\<lparr>g_tries := g_tries w + 2, g_sent := g_sent w @ [(fd,
      [bytes_of ''VALUE '' @ header_tail require_cas key flags (length val), val, END_LINE], {g_fresh w2})]\<rparr>"
  have "grants_all w2" using assms(1) by (simp add: w2_def)
  then have "request_get_single cl require_cas fd r buf w = (Cb_return 0, buf, w4)"
    using assms(1-3) by (simp add: request_get_single_def granted finish_send_def Let_def w4_def w2_def)
  moreover have "g_live (g_free {g_fresh w2} w4) = insert (g_fresh w) (g_live w)"
    using assms(4) by (auto simp: w4_def w2_def g_free_def g_alloc_def g_blocks_def)
  moreover have "g_fresh w \<notin> g_live w" using assms(4) by blast
  ultimately show ?thesis by (auto simp: w4_def)
qed


lemma length_vec_of:
  assumes "\<forall>(key, val, flags) \<in> set xs. length val < 2 ^ 64"
  shows "length (concat (vec_of require_cas first xs)) + length xs
    \<le> length xs * HEADER_SIZE 0 + sum_list (map (\<lambda>(key, val, flags). length key + length val) xs)"
  using assms
proof (induction xs arbitrary: first)
  case (Cons x xs)
  obtain key val flags where x: "x = (key, val, flags)" by (cases x) auto
  have "length (header_tail require_cas key flags (length val)) \<le> length key + 36"
    using Cons.prems x by (intro length_header_tail) simp
  with Cons.IH [of False] Cons.prems x show ?case
    by (simp add: HEADER_SIZE_def CRLF_def)
qed simp

text \<open>
  The headers fit: the header of a single get, with the NUL that \<open>sprintf\<close> writes behind it,
  is no longer than \<open>HEADER_SIZE\<close> of its key; and all headers of a get of several keys, with a byte
  to spare for each, fit the buffer of \<open>multi_set_carry\<close>, whatever the flags and lengths are.
\<close>

theorem gate_headers_fit:
  assumes "\<forall>(key, val, flags) \<in> set xs. length val < 2 ^ 64" and "vallen < 2 ^ 64"
  shows "length (bytes_of ''VALUE '' @ header_tail require_cas k f vallen) + 1 \<le> HEADER_SIZE (length k)
    \<and> length (concat (vec_of require_cas True xs)) + length xs
      \<le> length xs * HEADER_SIZE 0 + sum_list (map (\<lambda>(key, val, flags). length key) xs)
        + sum_list (map (\<lambda>(key, val, flags). length val) xs)"
proof
  show "length (bytes_of ''VALUE '' @ header_tail require_cas k f vallen) + 1 \<le> HEADER_SIZE (length k)"
    using length_header_tail [OF assms(2), of require_cas k f] by (simp add: HEADER_SIZE_def)
  have "sum_list (map (\<lambda>(key, val, flags). length key + length val) xs) =
      sum_list (map (\<lambda>(key, val, flags). length key) xs) + sum_list (map (\<lambda>(key, val, flags). length val) xs)"
    by (induction xs) auto
  with length_vec_of [OF assms(1), of require_cas True]
  show "length (concat (vec_of require_cas True xs)) + length xs
      \<le> length xs * HEADER_SIZE 0 + sum_list (map (\<lambda>(key, val, flags). length key) xs)
        + sum_list (map (\<lambda>(key, val, flags). length val) xs)"
    by simp
qed

theorem gate_headers_fit_witness:
  "length (bytes_of ''VALUE '' @ header_tail True (bytes_of ''k'') 7 12) + 1 \<le> HEADER_SIZE (length (bytes_of ''k''))"
  using gate_headers_fit [of "[]" 12 True "bytes_of ''k''" 7] by simp

text \<open>Fetches from a list of results: a client whose servers answer in an order of their own.\<close>

definition queue_client :: "(byte list \<times> byte list option \<times> uint32_t) list client" where
  "queue_client = \<lparr>mc_get = (\<lambda>k q. (Inl MEMCACHED_NOTFOUND, q)),
     mc_mget = (\<lambda>ks q. (MEMCACHED_SUCCESS, q)),
     mc_fetch = (\<lambda>q. case q of [] \<Rightarrow> (Inl MEMCACHED_END, []) | x # q' \<Rightarrow> (Inr x, q')),
     mc_set = (\<lambda>k d e f q. (MEMCACHED_SUCCESS, q)), mc_delete = (\<lambda>k e q. (MEMCACHED_NOTFOUND, q))\<rparr>"

definition queue_gate :: "(byte list \<times> byte list option \<times> uint32_t) list \<Rightarrow>
    (byte list \<times> byte list option \<times> uint32_t) list gate" where
  "queue_gate q = \<lparr>g_mc = q, g_base = 0, g_sent = [], g_live = {}, g_fresh = 0,
     g_grants = (\<lambda>_. True), g_tries = 0\<rparr>"

definition run_get :: "byte list list \<Rightarrow> (byte list \<times> byte list option \<times> uint32_t) list \<Rightarrow>
    byte list list" where
  "run_get ks q =
    (let t = retrieval_text (bytes_of ''get'') ks in
     case memtext_execute 0 (memtext_init (gate_callbacks queue_client) 3, t, queue_gate q) (length t) 0 of
       Ok (r, n, c, buf, w) \<Rightarrow> map (\<lambda>(fd, vec, frees). concat vec) (g_sent w)
     | _ \<Rightarrow> [])"

text \<open>
  Values that arrive in another order than the keys were asked for get wrong names: the gate
  lets \<open>memcached_fetch\<close> write the keys it finds over the keys of the request, so that a shorter key
  written later destroys the end of a longer one before it. Asked for \<open>a\<close>, \<open>b\<close> and \<open>ccc\<close>, with \<open>ccc\<close>
  fetched first and \<open>b\<close> second, the client is sent the value of \<open>ccc\<close> under the name \<open>ccb\<close>; fetched
  in the order of the request both names are right.
\<close>

theorem gate_multi_get_renames:
  "run_get [bytes_of ''a'', bytes_of ''b'', bytes_of ''ccc'']
      [(bytes_of ''ccc'', Some (bytes_of ''X''), 0), (bytes_of ''b'', Some (bytes_of ''Y''), 0)] =
    [bytes_of (''VALUE ccb 0 1'' @ CRLF @ ''X'' @ CRLF @ ''VALUE b 0 1'' @ CRLF @ ''Y'' @ CRLF @ ''END'' @ CRLF)]
   \<and> run_get [bytes_of ''b'', bytes_of ''ccc'']
      [(bytes_of ''b'', Some (bytes_of ''Y''), 0), (bytes_of ''ccc'', Some (bytes_of ''X''), 0)] =
    [bytes_of (''VALUE b 0 1'' @ CRLF @ ''Y'' @ CRLF @ ''VALUE ccc 0 1'' @ CRLF @ ''X'' @ CRLF @ ''END'' @ CRLF)]"
  by code_simp

definition demo_request :: memtext_request_retrieval where
  "demo_request = \<lparr>rr_key = [4, 6], rr_key_len = [1, 3], rr_key_num = 2\<rparr>"

theorem gate_multi_get_reply_witness:
  "\<exists>buf' w' vec frees. request_get_multi queue_client False 3 demo_request (bytes_of ''get b ccc'')
      (queue_gate [(bytes_of ''b'', Some (bytes_of ''Y''), 0)]) = (Cb_return 0, buf', w')
    \<and> g_sent w' = [(3, vec, frees)]
    \<and> concat vec = bytes_of (''VALUE b 0 1'' @ CRLF @ ''Y'' @ CRLF @ ''END'' @ CRLF)"
proof -
  define w where "w = queue_gate [(bytes_of ''b'', Some (bytes_of ''Y''), 0)]"
  define b where "b = bytes_of ''get b ccc''"
  define ks where "ks = zip (rr_key demo_request) (rr_key_len demo_request)"
  have 1: "grants_all w" "unat (rr_key_num demo_request) \<le> MEMTEXT_MULTI_MAX" "\<forall>b \<in> g_live w. b < g_fresh w"
    by (simp_all add: grants_all_def w_def queue_gate_def demo_request_def MEMTEXT_MULTI_MAX_def)
  have 2: "mc_mget queue_client (map (\<lambda>(p, n). deref (g_base w) b p n) ks) (g_mc w) =
      (MEMCACHED_SUCCESS, g_mc w)" by (simp add: queue_client_def)
  have 3: "slots_ok (g_base w) (length b) ks" "keys_fit queue_client (map (\<lambda>k. unat (snd k)) ks) (g_mc w)"
    by (simp_all add: demo_request_def w_def queue_gate_def queue_client_def ks_def b_def)
  have "length ks = Suc (Suc 0)" by (simp add: ks_def demo_request_def)
  then have "fst (fetched queue_client (length ks) (g_mc w)) = [(bytes_of ''b'', bytes_of ''Y'', 0)]"
    "fetch_error queue_client (length ks) (g_mc w) = None" "g_sent w = []"
    by (simp_all add: w_def queue_gate_def queue_client_def)
  moreover have "entries_reply False [(bytes_of ''b'', bytes_of ''Y'', 0)] =
      bytes_of (''VALUE b 0 1'' @ CRLF @ ''Y'' @ CRLF @ ''END'' @ CRLF)"
    by code_simp
  ultimately show ?thesis
    using gate_multi_get_reply [OF 1(1,2) ks_def 2 3 1(3), of False 3] unfolding w_def [symmetric] b_def [symmetric] by auto
qed

definition one_key :: memtext_request_retrieval where
  "one_key = \<lparr>rr_key = [4], rr_key_len = [1], rr_key_num = 1\<rparr>"

theorem gate_get_leaks_value_witness:
  "\<exists>w' frees block. request_get_single demo_client False 3 one_key (bytes_of ''get k'') demo_gate =
      (Cb_return 0, bytes_of ''get k'', w') \<and> g_live (g_free frees w') = insert block {}"
proof -
  define b where "b = bytes_of ''get k''"
  have w: "grants_all demo_gate" "\<forall>b \<in> g_live demo_gate. b < g_fresh demo_gate" "g_live demo_gate = {}"
    by (simp_all add: grants_all_def demo_gate_def)
  have key: "deref (g_base demo_gate) b (rr_key one_key ! 0) (rr_key_len one_key ! 0) = bytes_of ''k''"
    unfolding one_key_def b_def by code_simp
  have res: "mc_get demo_client (bytes_of ''k'') (g_mc demo_gate) = (Inr (Some (bytes_of ''vv''), 5), ())"
    by (simp add: demo_client_def)
  from gate_get_leaks_value [OF w(1) key res w(2), of False 3] show ?thesis
    unfolding w(3) b_def by blast
qed

end
