(* ===== verification/Gate_Loops.thy ===== *)
theory Gate_Loops
  imports Interfaces Stream_Buffer Gate_Memtext
begin

text \<open>
  The read loops of the gates: \<open>handler::read_event\<close> of \<^verbatim>\<open>src/gate_memtext.cc\<close> and of
  \<^verbatim>\<open>src/gate_control.cc\<close>, with \<open>process_body\<close> and \<open>accepted\<close>.

  The loops are written over the operations of a receive buffer, which are parameters; their
  properties are proved from the contract \<open>read_buffer\<close>, extended by what the parsers do with the
  unread bytes, and hold for \<open>mp::stream_buffer\<close>, which is shown to provide it.
\<close>

section \<open>One reception\<close>

datatype read_result = Got "byte list" | Eof | Again | Broken

text \<open>
  \<open>R_again\<close> is the return on \<open>EAGAIN\<close> and \<open>EINTR\<close>, \<open>R_throw\<close> an exception: \<open>std::bad_alloc\<close>, a
  closed or a broken connection.
\<close>

datatype 's reception = R_data 's | R_again 's | R_throw 's | R_fault

definition receive ::
    "('s \<Rightarrow> nat \<Rightarrow> 's outcome) \<Rightarrow> ('s \<Rightarrow> byte list \<Rightarrow> 's option) \<Rightarrow> nat \<Rightarrow> read_result \<Rightarrow> 's \<Rightarrow> 's reception" where
  "receive reserve absorb amount inp s =
    (case reserve s amount of
       Done s1 \<Rightarrow>
         (case inp of
            Got xs \<Rightarrow> (case absorb s1 xs of None \<Rightarrow> R_fault | Some s2 \<Rightarrow> R_data s2)
          | Again \<Rightarrow> R_again s1
          | Eof \<Rightarrow> R_throw s1
          | Broken \<Rightarrow> R_throw s1)
     | Throw s1 \<Rightarrow> R_throw s1
     | Fault \<Rightarrow> R_fault
     | Diverge \<Rightarrow> R_fault)"

definition CONTROL_RESERVE_SIZE :: nat where "CONTROL_RESERVE_SIZE = 4 * 1024"
definition CONTROL_INITIAL_ALLOCATION_SIZE :: nat where "CONTROL_INITIAL_ALLOCATION_SIZE = 32 * 1024"
definition MEMTEXT_RESERVE_SIZE :: nat where "MEMTEXT_RESERVE_SIZE = 4 * 1024"
definition MEMTEXT_INITIAL_ALLOCATION_SIZE :: nat where "MEMTEXT_INITIAL_ALLOCATION_SIZE = 32 * 1024"

text \<open>How an event ends: the handler stays, or an exception removes it.\<close>

datatype 'a event_result = Keep 'a | Closed 'a | Event_fault

section \<open>The control gate\<close>

text \<open>
  A frame is a length in network order and that many bytes. \<open>body\<close> is \<open>process_body\<close>: it returns
  false when it throws. \<open>None\<close> stands for a loop that does not end.
\<close>

partial_function (option) control_loop ::
    "('s \<Rightarrow> byte list) \<Rightarrow> ('s \<Rightarrow> nat \<Rightarrow> 's) \<Rightarrow> (byte list \<Rightarrow> 'w \<Rightarrow> bool \<times> 'w) \<Rightarrow> 's \<Rightarrow> 'w \<Rightarrow>
      (bool \<times> 's \<times> 'w) option" where
  "control_loop load consume body s w =
    (if 4 < length (load s) then
       (let sz = unat (ntohl (load32 (load s) 0)) in
        if length (load s) - 4 < sz then Some (True, s, w)
        else
          (case body (take sz (drop 4 (load s))) w of
             (ok, w') \<Rightarrow>
               if ok then control_loop load consume body (consume s (4 + sz)) w' else Some (False, s, w')))
     else Some (True, s, w))"

definition control_read_event ::
    "('s \<Rightarrow> nat \<Rightarrow> 's outcome) \<Rightarrow> ('s \<Rightarrow> byte list \<Rightarrow> 's option) \<Rightarrow> ('s \<Rightarrow> byte list) \<Rightarrow> ('s \<Rightarrow> nat \<Rightarrow> 's) \<Rightarrow>
      (byte list \<Rightarrow> 'w \<Rightarrow> bool \<times> 'w) \<Rightarrow> read_result \<Rightarrow> 's \<times> 'w \<Rightarrow> ('s \<times> 'w) event_result option" where
  "control_read_event reserve absorb load consume body inp h =
    (case h of (s, w) \<Rightarrow>
      (case receive reserve absorb CONTROL_RESERVE_SIZE inp s of
         R_data s1 \<Rightarrow>
           map_option (\<lambda>(ok, s2, w'). if ok then Keep (s2, w') else Closed (s2, w'))
             (control_loop load consume body s1 w)
       | R_again s1 \<Rightarrow> Some (Keep (s1, w))
       | R_throw s1 \<Rightarrow> Some (Closed (s1, w))
       | R_fault \<Rightarrow> Some Event_fault))"

text \<open>
  \<open>process_body\<close>: the body up to its first NUL, as the C string \<open>set_servers\<close> reads; \<open>malloc\<close> may fail.
\<close>

definition process_body ::
    "(nat \<Rightarrow> bool) \<Rightarrow> (byte list \<Rightarrow> 'w \<Rightarrow> bool \<times> 'w) \<Rightarrow> byte list \<Rightarrow> 'w \<Rightarrow> bool \<times> 'w" where
  "process_body grants set_servers body w =
    (if grants (length body + 1) then set_servers (takeWhile (\<lambda>b. b \<noteq> 0) body) w else (False, w))"

text \<open>The frames of a stream, and what is left of it.\<close>

function frames :: "byte list \<Rightarrow> byte list list \<times> byte list" where
  "frames xs =
    (if 4 < length xs then
       (let sz = unat (ntohl (load32 xs 0)) in
        if length xs - 4 < sz then ([], xs)
        else (case frames (drop (4 + sz) xs) of (fs, r) \<Rightarrow> (take sz (drop 4 xs) # fs, r)))
     else ([], xs))"
  by auto
termination by (relation "measure length") auto

declare frames.simps [simp del]

fun process_all :: "(byte list \<Rightarrow> 'w \<Rightarrow> bool \<times> 'w) \<Rightarrow> byte list list \<Rightarrow> 'w \<Rightarrow> bool \<times> 'w" where
  "process_all body [] w = (True, w)"
| "process_all body (f # fs) w =
    (case body f w of (False, w') \<Rightarrow> (False, w') | (True, w') \<Rightarrow> process_all body fs w')"

lemma process_all_append:
  "process_all body (fs @ gs) w =
    (case process_all body fs w of (False, w') \<Rightarrow> (False, w') | (True, w') \<Rightarrow> process_all body gs w')"
  by (induction fs arbitrary: w) (auto split: prod.splits bool.splits)

text \<open>Frames that are complete stay the same when more bytes arrive.\<close>

lemma frames_append:
  "frames (xs @ ys) = (case frames xs of (fs, r) \<Rightarrow> case frames (r @ ys) of (gs, r') \<Rightarrow> (fs @ gs, r'))"
proof (induction xs rule: frames.induct)
  case (1 xs)
  show ?case
  proof (cases "4 < length xs \<and> unat (ntohl (load32 xs 0)) \<le> length xs - 4")
    case False
    then have "frames xs = ([], xs)" by (subst frames.simps) (auto simp: Let_def not_le)
    then show ?thesis by (simp split: prod.splits)
  next
    case True
    define sz where "sz = unat (ntohl (load32 xs 0))"
    have l: "load32 (xs @ ys) 0 = load32 xs 0" using True by (intro load32_append(1)) simp
    have len: "\<not> length xs - 4 < sz" "4 + sz \<le> length xs" using True by (auto simp: sz_def)
    have this_frame: "take sz (drop 4 (xs @ ys)) = take sz (drop 4 xs)"
      "drop (4 + sz) (xs @ ys) = drop (4 + sz) xs @ ys" using len by simp_all
    have IH: "frames (drop (4 + sz) xs @ ys) = (case frames (drop (4 + sz) xs) of (fs, r) \<Rightarrow>
        case frames (r @ ys) of (gs, r') \<Rightarrow> (fs @ gs, r'))"
      using 1 [OF _ sz_def] True len(1) by simp
    have "\<not> length xs + length ys - 4 < sz" using len by arith
    then have "frames (xs @ ys) = (case frames (drop (4 + sz) xs @ ys) of (fs, r) \<Rightarrow> (take sz (drop 4 xs) # fs, r))"
      using True len this_frame by (subst frames.simps) (simp add: l Let_def sz_def [symmetric])
    moreover have "frames xs = (case frames (drop (4 + sz) xs) of (fs, r) \<Rightarrow> (take sz (drop 4 xs) # fs, r))"
      using True len by (subst frames.simps) (simp add: Let_def sz_def [symmetric])
    ultimately show ?thesis using IH by (auto split: prod.splits)
  qed
qed

definition frame :: "byte list \<Rightarrow> byte list" where
  "frame body = be32 (of_nat (length body)) @ body"

lemma frames_frame:
  assumes "length b < 2 ^ 32" and "b \<noteq> []"
  shows "frames (frame b @ xs) = (case frames xs of (fs, r) \<Rightarrow> (b # fs, r))"
proof -
  have l: "ntohl (load32 (frame b @ xs) 0) = of_nat (length b)"
    by (simp add: frame_def ntohl_load_be32)
  have n: "unat (of_nat (length b) :: uint32_t) = length b"
    using assms(1) by (simp add: unat_of_nat take_bit_nat_eq_self)
  show ?thesis
    using assms(2) by (subst frames.simps) (simp add: l n Let_def, simp add: frame_def)
qed

lemma frames_bodies:
  "\<forall>b \<in> set bs. b \<noteq> [] \<and> length b < 2 ^ 32 \<Longrightarrow> frames (concat (map frame bs)) = (bs, [])"
proof (induction bs)
  case Nil
  show ?case by (simp add: frames.simps)
next
  case (Cons b bs)
  then show ?case by (simp add: frames_frame)
qed


section \<open>The text gate\<close>

text \<open>
  The state of the handler: buffer, parser, \<open>m_off\<close>, and the world of the callbacks. \<open>addr\<close> is the
  address of the unread data, which the pointers of a request contain; \<open>enter\<close> tells the callbacks.
\<close>

partial_function (option) memtext_loop ::
    "('s \<Rightarrow> byte list) \<Rightarrow> ('s \<Rightarrow> byte list \<Rightarrow> 's) \<Rightarrow> ('s \<Rightarrow> nat \<Rightarrow> 's) \<Rightarrow> ('s \<Rightarrow> size_t) \<Rightarrow> (size_t \<Rightarrow> 'w \<Rightarrow> 'w) \<Rightarrow>
      's \<Rightarrow> ('u, 'w) memtext_parser \<Rightarrow> nat \<Rightarrow> 'w \<Rightarrow>
      ('s \<times> ('u, 'w) memtext_parser \<times> nat \<times> 'w) event_result option" where
  "memtext_loop load save consume addr enter s ctx off w =
    (case memtext_execute (addr s) (ctx, load s, enter (addr s) w) (length (load s)) off of
       Ok (ret, off', ctx', buf, w') \<Rightarrow>
         (let s1 = save s buf in
          if ret < 0 then Some (Closed (s1, ctx', off', w'))
          else if ret = 0 then Some (Keep (s1, ctx', off', w'))
          else
            let s2 = consume s1 off' in
            if 0 < length (load s2) then memtext_loop load save consume addr enter s2 ctx' 0 w'
            else Some (Keep (s2, ctx', 0, w')))
     | Convert_error t \<Rightarrow> Some Event_fault
     | Cb_threw (ret, off', ctx', buf, w') \<Rightarrow> Some (Closed (save s buf, ctx', off', w'))
     | Memory_fault \<Rightarrow> Some Event_fault)"

definition memtext_read_event ::
    "('s \<Rightarrow> nat \<Rightarrow> 's outcome) \<Rightarrow> ('s \<Rightarrow> byte list \<Rightarrow> 's option) \<Rightarrow> ('s \<Rightarrow> byte list) \<Rightarrow> ('s \<Rightarrow> byte list \<Rightarrow> 's) \<Rightarrow>
      ('s \<Rightarrow> nat \<Rightarrow> 's) \<Rightarrow> ('s \<Rightarrow> size_t) \<Rightarrow> (size_t \<Rightarrow> 'w \<Rightarrow> 'w) \<Rightarrow> read_result \<Rightarrow>
      's \<times> ('u, 'w) memtext_parser \<times> nat \<times> 'w \<Rightarrow>
      ('s \<times> ('u, 'w) memtext_parser \<times> nat \<times> 'w) event_result option" where
  "memtext_read_event reserve absorb load save consume addr enter inp h =
    (case h of (s, ctx, off, w) \<Rightarrow>
      (case receive reserve absorb MEMTEXT_RESERVE_SIZE inp s of
         R_data s1 \<Rightarrow> memtext_loop load save consume addr enter s1 ctx off w
       | R_again s1 \<Rightarrow> Some (Keep (s1, ctx, off, w))
       | R_throw s1 \<Rightarrow> Some (Closed (s1, ctx, off, w))
       | R_fault \<Rightarrow> Some Event_fault))"

section \<open>The buffer as the parsers use it\<close>

text \<open>
  \<open>load\<close> reads the unread bytes, \<open>save\<close> is what a parser or a callback writes into them in place.
\<close>

locale parse_buffer = read_buffer +
  fixes load :: "'a \<Rightarrow> byte list" and save :: "'a \<Rightarrow> byte list \<Rightarrow> 'a"
  assumes load_holds: "holds s xs \<Longrightarrow> load s = xs"
    and save_holds: "holds s xs \<Longrightarrow> length ys = length xs \<Longrightarrow> holds (save s ys) ys"
begin

text \<open>\<open>read(2)\<close> returns no more than it was asked for. What can come of one reception.\<close>

definition read_ok :: "'a \<Rightarrow> nat \<Rightarrow> read_result \<Rightarrow> bool" where
  "read_ok s n inp \<longleftrightarrow> (\<forall>s1 ys. reserve s n = Done s1 \<longrightarrow> inp = Got ys \<longrightarrow> length ys \<le> room s1)"

lemma receive_cases:
  assumes "holds s xs" and "fits s n" and "read_ok s n inp"
  shows "case receive reserve fill n inp s of
      R_data s2 \<Rightarrow> (\<exists>ys. inp = Got ys \<and> holds s2 (xs @ ys))
    | R_again s1 \<Rightarrow> inp = Again \<and> holds s1 xs
    | R_throw s1 \<Rightarrow> holds s1 xs
    | R_fault \<Rightarrow> False"
  using reserve_holds [OF assms(1,2)]
proof
  assume "\<exists>s'. reserve s n = Done s' \<and> holds s' xs \<and> n \<le> room s'"
  then obtain s1 where s1: "reserve s n = Done s1" "holds s1 xs" by blast
  show ?thesis
  proof (cases inp)
    case (Got ys)
    with fill_holds [OF s1(2), of ys] assms(3) s1 show ?thesis by (auto simp: receive_def read_ok_def)
  qed (use s1 in \<open>simp_all add: receive_def\<close>)
qed (auto simp: receive_def)

lemma control_loop_frames:
  "holds s xs \<Longrightarrow> case process_all body (fst (frames xs)) w of
      (ok, w') \<Rightarrow> \<exists>s'. control_loop load take_off body s w = Some (ok, s', w')
        \<and> (ok \<longrightarrow> holds s' (snd (frames xs)))"
proof (induction xs arbitrary: s w rule: frames.induct)
  case (1 xs)
  have load: "load s = xs" by (rule load_holds [OF 1(2)])
  show ?case
  proof (cases "4 < length xs \<and> unat (ntohl (load32 xs 0)) \<le> length xs - 4")
    case False
    then have "frames xs = ([], xs)" by (subst frames.simps) (auto simp: Let_def not_le)
    moreover have "control_loop load take_off body s w = Some (True, s, w)"
      using False load by (subst control_loop.simps) (auto simp: Let_def not_le)
    ultimately show ?thesis using 1(2) by simp
  next
    case True
    define sz where "sz = unat (ntohl (load32 xs 0))"
    have len: "\<not> length xs - 4 < sz" "4 + sz \<le> length xs" using True by (auto simp: sz_def)
    have next_s: "holds (take_off s (4 + sz)) (drop (4 + sz) xs)"
      by (rule take_off_holds [OF 1(2) len(2)])
    have IH: "case process_all body (fst (frames (drop (4 + sz) xs))) w' of
        (ok, w'') \<Rightarrow> \<exists>s'. control_loop load take_off body (take_off s (4 + sz)) w' = Some (ok, s', w'')
          \<and> (ok \<longrightarrow> holds s' (snd (frames (drop (4 + sz) xs))))" for w'
      using 1(1) [OF _ sz_def len(1) next_s] True by simp
    have fr: "frames xs = (case frames (drop (4 + sz) xs) of (fs, r) \<Rightarrow> (take sz (drop 4 xs) # fs, r))"
      using True len by (subst frames.simps) (simp add: Let_def sz_def [symmetric])
    have loop: "control_loop load take_off body s w =
        (case body (take sz (drop 4 xs)) w of
           (ok, w') \<Rightarrow>
             if ok then control_loop load take_off body (take_off s (4 + sz)) w' else Some (False, s, w'))"
      using True len by (subst control_loop.simps) (simp add: load Let_def sz_def [symmetric])
    obtain ok w' where b: "body (take sz (drop 4 xs)) w = (ok, w')" by (cases "body (take sz (drop 4 xs)) w")
    obtain fs r where r: "frames (drop (4 + sz) xs) = (fs, r)" by (cases "frames (drop (4 + sz) xs)")
    show ?thesis using IH [of w'] by (cases ok) (simp_all add: fr loop b r)
  qed
qed

lemma control_event:
  assumes "holds s xs" and "fits s CONTROL_RESERVE_SIZE" and "read_ok s CONTROL_RESERVE_SIZE inp"
    and "control_read_event reserve fill load take_off body inp (s, w) = Some r"
  shows "case r of
      Keep (s', w') \<Rightarrow> (case inp of
          Got ys \<Rightarrow> process_all body (fst (frames (xs @ ys))) w = (True, w') \<and> holds s' (snd (frames (xs @ ys)))
        | _ \<Rightarrow> w' = w \<and> holds s' xs)
    | Closed (s', w') \<Rightarrow> (case inp of
          Got ys \<Rightarrow> w' = w \<or> process_all body (fst (frames (xs @ ys))) w = (False, w')
        | _ \<Rightarrow> w' = w)
    | Event_fault \<Rightarrow> False"
proof (cases "receive reserve fill CONTROL_RESERVE_SIZE inp s")
  case (R_data s1)
  with receive_cases [OF assms(1-3)] obtain ys where ys: "inp = Got ys" "holds s1 (xs @ ys)" by auto
  with control_loop_frames [OF ys(2), of body w] R_data assms(4) show ?thesis
    by (auto simp: control_read_event_def split: prod.splits if_splits)
qed (use receive_cases [OF assms(1-3)] assms(4) in
  \<open>auto simp: control_read_event_def split: read_result.splits\<close>)

lemma control_event_returns:
  assumes "holds s xs" and "fits s CONTROL_RESERVE_SIZE" and "read_ok s CONTROL_RESERVE_SIZE inp"
  shows "\<exists>r. control_read_event reserve fill load take_off body inp (s, w) = Some r"
proof (cases "receive reserve fill CONTROL_RESERVE_SIZE inp s")
  case (R_data s1)
  with receive_cases [OF assms] obtain ys where ys: "inp = Got ys" "holds s1 (xs @ ys)" by auto
  with control_loop_frames [OF ys(2), of body w] R_data show ?thesis
    by (auto simp: control_read_event_def split: prod.splits)
qed (simp_all add: control_read_event_def)

text \<open>
  The text gate: an event that keeps the connection has parsed every byte in the buffer, and the
  loop goes round once.
\<close>

definition handler_ok :: "'a \<times> ('u, 'w) memtext_parser \<times> nat \<times> 'w \<Rightarrow> bool" where
  "handler_ok h \<longleftrightarrow> (case h of (s, ctx, off, w) \<Rightarrow>
     \<exists>xs. holds s xs \<and> mt_inv off ctx \<and> off = length xs \<and> keeps_length (mt_callback ctx))"

lemma memtext_loop_once:
  fixes ctx :: "('u, 'w) memtext_parser"
  assumes "holds s xs" and "mt_inv off ctx" and "off < length xs" and "length xs < 2 ^ 32"
    and "keeps_length (mt_callback ctx)"
  shows "\<exists>r. memtext_loop load save take_off addr enter s ctx off w = Some r \<and>
    (case r of Keep h \<Rightarrow> handler_ok h | Closed h \<Rightarrow> True
     | Event_fault \<Rightarrow> \<exists>q c b w'. exec_loop (addr s) q off (ctx, xs, enter (addr s) w) = Ok (q, c, b, w')
         \<and> q < length xs \<and> key_overflow c (b ! q))"
proof -
  have load: "load s = xs" by (rule load_holds [OF assms(1)])
  let ?r = "memtext_execute (addr s) (ctx, xs, enter (addr s) w) (length xs) off"
  note safe = execute_safe [OF assms(2,3) order_refl assms(4,5), of "addr s" "enter (addr s) w"]
  have eq: "memtext_loop load save take_off addr enter s ctx off w =
    (case ?r of
       Ok (ret, off', ctx', buf, w') \<Rightarrow>
         (let s1 = save s buf in
          if ret < 0 then Some (Closed (s1, ctx', off', w'))
          else if ret = 0 then Some (Keep (s1, ctx', off', w'))
          else
            let s2 = take_off s1 off' in
            if 0 < length (load s2) then memtext_loop load save take_off addr enter s2 ctx' 0 w'
            else Some (Keep (s2, ctx', 0, w')))
     | Convert_error t \<Rightarrow> Some Event_fault
     | Cb_threw (ret, off', ctx', buf, w') \<Rightarrow> Some (Closed (save s buf, ctx', off', w'))
     | Memory_fault \<Rightarrow> Some Event_fault)"
    by (subst memtext_loop.simps) (simp add: load)
  show ?thesis
  proof (cases ?r)
    case (Ok t)
    obtain ret off' c b w' where t: "t = (ret, off', c, b, w')" by (cases t) auto
    have ok: "mt_inv off' c" "length b = length xs" "ret \<in> {-1, 0, 1}" "ret \<noteq> -1 \<Longrightarrow> off' = length xs"
      using safe Ok t by simp_all
    have cb: "mt_callback c = mt_callback ctx" using safe Ok t by simp
    have s1: "holds (save s b) b" by (rule save_holds [OF assms(1) ok(2)])
    consider "ret = -1" | "ret = 0" | "ret = 1" using ok(3) by blast
    then show ?thesis
    proof cases
      case 2
      then show ?thesis using eq Ok t s1 ok cb assms(5) by (auto simp: handler_ok_def)
    next
      case 3
      have "mt_cs c = S_final" using safe Ok t 3 by simp
      then have inv: "mt_inv 0 c" using ok(1) by (simp add: mt_inv_def)
      have "holds (take_off (save s b) off') []"
        using take_off_holds [OF s1, of off'] ok(2,4) 3 by simp
      then show ?thesis using eq Ok t 3 inv cb assms(5) load_holds [of _ "[]"]
        by (auto simp: handler_ok_def)
    qed (use eq Ok t in simp)
  qed (use eq safe in \<open>auto split: prod.splits\<close>)
qed

lemma memtext_event:
  fixes ctx :: "('u, 'w) memtext_parser"
  assumes "handler_ok (s, ctx, off, w)" and "fits s MEMTEXT_RESERVE_SIZE" and "read_ok s MEMTEXT_RESERVE_SIZE inp"
    and "inp \<noteq> Got []" and "length (load s) + length (case inp of Got ys \<Rightarrow> ys | _ \<Rightarrow> []) < 2 ^ 32"
  shows "\<exists>r. memtext_read_event reserve fill load save take_off addr enter inp (s, ctx, off, w) = Some r \<and>
    (case r of Keep h \<Rightarrow> handler_ok h | Closed h \<Rightarrow> True
     | Event_fault \<Rightarrow> \<exists>base w0 ys q c b w'. inp = Got ys
         \<and> exec_loop base q off (ctx, load s @ ys, w0) = Ok (q, c, b, w') \<and> key_overflow c (b ! q))"
proof -
  obtain xs where xs: "holds s xs" "mt_inv off ctx" "off = length xs" "keeps_length (mt_callback ctx)"
    using assms(1) by (auto simp: handler_ok_def)
  note rc = receive_cases [OF xs(1) assms(2,3)]
  have load: "load s = xs" by (rule load_holds [OF xs(1)])
  show ?thesis
  proof (cases "receive reserve fill MEMTEXT_RESERVE_SIZE inp s")
    case (R_data s1)
    with rc obtain ys where ys: "inp = Got ys" "holds s1 (xs @ ys)" by auto
    have "off < length (xs @ ys)" "length (xs @ ys) < 2 ^ 32"
      using xs(3) ys(1) assms(4,5) load by simp_all
    from memtext_loop_once [OF ys(2) xs(2) this xs(4), of addr enter w] R_data
    obtain r where r: "memtext_read_event reserve fill load save take_off addr enter inp (s, ctx, off, w) = Some r"
      "case r of Keep h \<Rightarrow> handler_ok h | Closed h \<Rightarrow> True
       | Event_fault \<Rightarrow> \<exists>q c b w'. exec_loop (addr s1) q off (ctx, xs @ ys, enter (addr s1) w) = Ok (q, c, b, w')
         \<and> q < length (xs @ ys) \<and> key_overflow c (b ! q)"
      by (auto simp: memtext_read_event_def)
    show ?thesis
    proof (rule exI [of _ r], rule conjI)
      show "memtext_read_event reserve fill load save take_off addr enter inp (s, ctx, off, w) = Some r" by (rule r(1))
      show "case r of Keep h \<Rightarrow> handler_ok h | Closed h \<Rightarrow> True
         | Event_fault \<Rightarrow> \<exists>base w0 ys q c b w'. inp = Got ys
           \<and> exec_loop base q off (ctx, load s @ ys, w0) = Ok (q, c, b, w') \<and> key_overflow c (b ! q)"
        using r(2) ys(1) load by (cases r) (simp_all, blast)
    qed
  next
    case (R_again s1)
    with rc have "holds s1 xs" by simp
    with xs R_again show ?thesis by (auto simp: memtext_read_event_def handler_ok_def)
  qed (use rc in \<open>simp_all add: memtext_read_event_def\<close>)
qed

end

text \<open>\<open>mp::stream_buffer\<close> as such a buffer.\<close>

definition sb_load :: "sb_state \<Rightarrow> byte list" where
  "sb_load s = (case data s of None \<Rightarrow> [] | Some ds \<Rightarrow> map the ds)"

definition sb_save :: "sb_state \<Rightarrow> byte list \<Rightarrow> sb_state" where
  "sb_save s ys = (case s of (h, sb) \<Rightarrow>
     (case heap_write h (sb_buffer sb) (sb_off sb) (map Some ys) of None \<Rightarrow> s | Some h' \<Rightarrow> (h', sb)))"

lemma sb_load_holds: "sb_holds s xs \<Longrightarrow> sb_load s = xs"
  by (simp add: sb_holds_def sb_load_def o_def)

lemma sb_save_holds:
  assumes "sb_holds s xs" and "length ys = length xs"
  shows "sb_holds (sb_save s ys) ys"
proof -
  obtain h sb where s: "s = (h, sb)" by (cases s)
  have inv: "sb_inv (h, sb)" and d: "data (h, sb) = Some (map Some xs)"
    using assms(1) s by (simp_all add: sb_holds_def)
  from inv obtain b where b: "heap_ok h" "live h (sb_buffer sb) = Some b"
    "length (bytes b) = sb_used sb + sb_free sb" "4 \<le> sb_off sb"
    "sb_off sb \<le> sb_used sb" "sb_used sb + sb_free sb < 2 ^ 63"
    "sb_buffer sb \<notin> set (sb_ref sb)" "\<And>d. d \<in> set (sb_ref sb) \<Longrightarrow> live h d \<noteq> None"
    by (auto elim!: sb_invE)
  have "sb_used sb - sb_off sb = length xs"
    using sb_holds_size [of h sb xs] assms(1) s b by (simp add: data_size_def)
  then have n: "sb_off sb + length ys \<le> length (bytes b)" "length ys = sb_used sb - sb_off sb"
    using b assms(2) by simp_all
  define b' where "b' = b\<lparr>bytes := store_at (bytes b) (sb_off sb) (map Some ys)\<rparr>"
  define h' where "h' = h\<lparr>live := (live h)(sb_buffer sb \<mapsto> b')\<rparr>"
  have f: "sb_save s ys = (h', sb)"
    using b n by (simp add: sb_save_def s heap_write_def h'_def b'_def)
  have i: "sb_inv (h', sb)"
  proof (rule sb_invI)
    show "live h' (sb_buffer sb) = Some b'" by (simp add: h'_def)
    show "length (bytes b') = sb_used sb + sb_free sb" using b n by (simp add: b'_def)
    show "heap_ok h'" using b(1) heap_ok_live [OF b(1,2)] by (auto simp: heap_ok_def h'_def)
  qed (use b n in \<open>auto simp: h'_def\<close>)
  have "slice_at (bytes b') (sb_off sb) (sb_used sb - sb_off sb) = map Some ys"
    using n slice_store_same [of "sb_off sb" "map Some ys" "bytes b"] by (simp add: b'_def)
  then have "data (h', sb) = Some (map Some ys)"
    using data_eq [OF i, of b'] by (simp add: h'_def)
  with f i show ?thesis by (simp add: sb_holds_def)
qed

interpretation sbp: parse_buffer sb_holds sb_room "sb_fits grants" "sb_reserve grants vec_ok" fill take_off
    sb_load sb_save
  for grants vec_ok
  by unfold_locales (auto intro: sb_load_holds sb_save_holds)

section \<open>The control gate over any stream\<close>

definition sb_control_event where
  "sb_control_event grants vec_ok body =
    control_read_event (sb_reserve grants vec_ok) fill sb_load take_off body"

fun bytes_in :: "read_result \<Rightarrow> byte list" where
  "bytes_in (Got xs) = xs"
| "bytes_in _ = []"

text \<open>The handler of a connection that has received \<open>str\<close> and is still open.\<close>

inductive control_reach :: "(nat \<Rightarrow> bool) \<Rightarrow> bool \<Rightarrow> (byte list \<Rightarrow> 'w \<Rightarrow> bool \<times> 'w) \<Rightarrow> 'w \<Rightarrow> byte list \<Rightarrow>
    sb_state \<times> 'w \<Rightarrow> bool" for grants vec_ok body w0 where
  accept: "heap_ok h \<Longrightarrow> stream_buffer_init grants h CONTROL_INITIAL_ALLOCATION_SIZE = Some s \<Longrightarrow>
    control_reach grants vec_ok body w0 [] (s, w0)"
| event: "control_reach grants vec_ok body w0 str (s, w) \<Longrightarrow> sb_fits grants s CONTROL_RESERVE_SIZE \<Longrightarrow>
    sbp.read_ok grants vec_ok s CONTROL_RESERVE_SIZE inp \<Longrightarrow>
    sb_control_event grants vec_ok body inp (s, w) = Some (Keep h') \<Longrightarrow>
    control_reach grants vec_ok body w0 (str @ bytes_in inp) h'"

lemma control_reach_frames:
  assumes "allocator_ok grants"
  shows "control_reach grants vec_ok body w0 str h \<Longrightarrow>
    process_all body (fst (frames str)) w0 = (True, snd h) \<and> sb_holds (fst h) (snd (frames str))"
proof (induction rule: control_reach.induct)
  case (accept h s)
  from stream_buffer_init_holds(1) [OF accept(1) assms accept(2)] show ?case by (simp add: frames.simps)
next
  case (event str s w inp h')
  obtain fs r where fr: "frames str = (fs, r)" by (cases "frames str")
  obtain s' w' where h': "h' = (s', w')" by (cases h')
  have holds: "sb_holds s r" and sofar: "process_all body fs w0 = (True, w)"
    using event.IH fr by simp_all
  have run: "control_read_event (sb_reserve grants vec_ok) fill sb_load take_off body inp (s, w) = Some (Keep (s', w'))"
    using event.hyps(4) h' by (simp add: sb_control_event_def)
  from sbp.control_event [OF holds event.hyps(2,3) run]
  show ?case
  proof (cases inp)
    case (Got ys)
    obtain gs r' where gr: "frames (r @ ys) = (gs, r')" by (cases "frames (r @ ys)")
    from frames_append [of str ys] fr gr have "frames (str @ ys) = (fs @ gs, r')" by simp
    with sbp.control_event [OF holds event.hyps(2,3) run] Got sofar gr h' show ?thesis
      by (simp add: process_all_append)
  qed (use sofar fr h' sbp.control_event [OF holds event.hyps(2,3) run] in auto)
qed



text \<open>A connection that was just accepted.\<close>

definition no_heap :: heap where "no_heap = \<lparr>live = (\<lambda>_. None), fresh = 1\<rparr>"

lemma stream_buffer_init_some: "grants (max n 4) \<Longrightarrow> \<exists>s. stream_buffer_init grants h n = Some s"
  by (simp add: stream_buffer_init_def Let_def heap_malloc_def init_count_def)

lemma new_buffer:
  assumes "n \<le> 2 ^ 32" and "m \<le> 2 ^ 32"
  obtains s where "stream_buffer_init Stream_Buffer.granting no_heap n = Some s" "sb_holds s []"
    "sb_fits Stream_Buffer.granting s m"
    "\<And>ys. length ys \<le> m \<Longrightarrow> sbp.read_ok Stream_Buffer.granting True s m (Got ys)"
proof -
  have h: "heap_ok no_heap" by (simp add: no_heap_def heap_ok_def)
  have "Stream_Buffer.granting (max n 4)" using assms(1) by (simp add: Stream_Buffer.granting_def)
  then obtain s where s: "stream_buffer_init Stream_Buffer.granting no_heap n = Some s"
    using stream_buffer_init_some by blast
  note init = stream_buffer_init_holds [OF h granting_ok s]
  have "sb_used (snd s) \<le> max n 4" using init(2) by simp
  then have "m + sb_used (snd s) \<le> 2 ^ 63" using assms by auto
  then have fits: "sb_fits Stream_Buffer.granting s m" by (simp add: sb_fits_def)
  have "sbp.read_ok Stream_Buffer.granting True s m (Got ys)" if "length ys \<le> m" for ys
    using sb.reserve_holds [OF init(1) fits, of True] that by (auto simp: sbp.read_ok_def)
  with s init(1) fits show thesis by (rule that)
qed

text \<open>A new buffer has room for the first read.\<close>

lemma new_buffer_reserves:
  assumes "stream_buffer_init Stream_Buffer.granting no_heap n = Some s" and "4 + m \<le> n" and "n < 2 ^ 63"
  shows "\<exists>s1. sb_reserve Stream_Buffer.granting True s m = Done s1"
proof -
  have "max n 4 = n" "sz_sub n 4 = n - 4" using assms(2,3) by (simp_all add: sz_sub_id)
  then have s: "s = (\<lparr>live = [1 \<mapsto> \<lparr>count = 1, bytes = replicate n None\<rparr>], fresh = 2\<rparr>,
      \<lparr>sb_buffer = 1, sb_used = 4, sb_free = n - 4, sb_off = 4, sb_ref = []\<rparr>)"
    using assms(1) by (auto simp: stream_buffer_init_def Let_def heap_malloc_def init_count_def no_heap_def
        split: if_splits)
  have "sz_add (n - 4) 0 = n - 4" "\<not> n - 4 < m" using assms(2,3) by (simp_all add: sz_add_id)
  then show ?thesis by (simp add: s sb_reserve_def reserve_buffer_def get_count_def Let_def sz_sub_id)
qed


text \<open>
  The framing is a code for lists of non-empty bodies: when the buffer holds their frames, one
  after the other, the loop processes exactly these bodies in their order and leaves nothing; when
  one of them fails, it stops there.
\<close>

theorem control_frames_roundtrip:
  assumes "\<forall>b \<in> set bs. b \<noteq> [] \<and> length b < 2 ^ 32" and "sb_holds s (concat (map frame bs))"
    and "process_all body bs w = (ok, w')"
  shows "\<exists>s'. control_loop sb_load take_off body s w = Some (ok, s', w') \<and> (ok \<longrightarrow> sb_holds s' [])"
  using sbp.control_loop_frames [OF assms(2), of body w] frames_bodies [OF assms(1)] assms(3) by simp

definition two_frames :: sb_state where
  "two_frames =
    (\<lparr>live = [0 \<mapsto> \<lparr>count = 1,
        bytes = replicate 4 None @ map Some (concat (map frame [bytes_of ''a'', bytes_of ''bc'']))\<rparr>], fresh = 1\<rparr>,
     \<lparr>sb_buffer = 0, sb_used = 15, sb_free = 0, sb_off = 4, sb_ref = []\<rparr>)"

lemma two_frames_holds: "sb_holds two_frames (concat (map frame [bytes_of ''a'', bytes_of ''bc'']))"
  by (auto simp: sb_holds_def two_frames_def data_def heap_read_def heap_ok_def frame_def data_size_def
      slice_at_def intro!: sb_invI)

theorem control_frames_roundtrip_witness:
  "\<exists>s'. control_loop sb_load take_off (\<lambda>b log. (True, log @ [b])) two_frames []
    = Some (True, s', [bytes_of ''a'', bytes_of ''bc''])"
  using control_frames_roundtrip [OF _ two_frames_holds, of "\<lambda>b log. (True, log @ [b])" "[]" True
      "[bytes_of ''a'', bytes_of ''bc'']"] by auto

text \<open>An empty body is not processed before another byte has arrived.\<close>

lemma empty_frame_waits:
  "frames (frame []) = ([], frame [])"
  "frames (frame [] @ [x]) = ([[]], [x])"
  by (simp_all add: frames.simps frame_def ntohl_load_be32 Let_def)

section \<open>The text gate over any stream\<close>

text \<open>\<open>place\<close> is where the blocks of the allocator lie.\<close>

definition sb_addr :: "(addr \<Rightarrow> size_t) \<Rightarrow> sb_state \<Rightarrow> size_t" where
  "sb_addr place s = place (sb_buffer (snd s)) + of_nat (sb_off (snd s))"

definition sb_memtext_event where
  "sb_memtext_event grants vec_ok place =
    memtext_read_event (sb_reserve grants vec_ok) fill sb_load sb_save take_off (sb_addr place)
      (\<lambda>base w. w\<lparr>g_base := base\<rparr>)"

definition memtext_handler :: "'m client \<Rightarrow> nat \<Rightarrow> sb_state \<Rightarrow> 'm gate \<Rightarrow>
    sb_state \<times> (nat, 'm gate) memtext_parser \<times> nat \<times> 'm gate" where
  "memtext_handler cl fd s w = (s, memtext_init (gate_callbacks cl) fd, 0, w)"

inductive memtext_reach :: "(nat \<Rightarrow> bool) \<Rightarrow> bool \<Rightarrow> (addr \<Rightarrow> size_t) \<Rightarrow> 'm client \<Rightarrow>
    sb_state \<times> (nat, 'm gate) memtext_parser \<times> nat \<times> 'm gate \<Rightarrow> bool" for grants vec_ok place cl where
  accept: "heap_ok h \<Longrightarrow> stream_buffer_init grants h MEMTEXT_INITIAL_ALLOCATION_SIZE = Some s \<Longrightarrow>
    memtext_reach grants vec_ok place cl (memtext_handler cl fd s w)"
| event: "memtext_reach grants vec_ok place cl h \<Longrightarrow> sb_fits grants (fst h) MEMTEXT_RESERVE_SIZE \<Longrightarrow>
    sbp.read_ok grants vec_ok (fst h) MEMTEXT_RESERVE_SIZE inp \<Longrightarrow> inp \<noteq> Got [] \<Longrightarrow>
    length (sb_load (fst h)) + length (bytes_in inp) < 2 ^ 32 \<Longrightarrow>
    sb_memtext_event grants vec_ok place inp h = Some (Keep h') \<Longrightarrow>
    memtext_reach grants vec_ok place cl h'"

lemma length_store_at_any [simp]: "length (store_at m i bs) = length m"
  by (auto simp: store_at_def)

lemma multi_fetch_length: "length (fst (snd (snd (multi_fetch cl base ks buf mc)))) = length buf"
  by (induction cl base ks buf mc rule: multi_fetch.induct)
    (auto split: prod.splits sum.splits)

lemma case_buf [simp]: "fst (snd (case f of (c, w1) \<Rightarrow> (c, buf, w1))) = buf"
  by (cases f) simp

lemma request_get_single_buf: "fst (snd (request_get_single cl require_cas fd r buf w)) = buf"
  by (auto simp: request_get_single_def Let_def split: prod.split sum.split option.split bool.split)

lemma request_get_multi_buf: "length (fst (snd (request_get_multi cl require_cas fd r buf w))) = length buf"
proof -
  obtain err mc1 where m: "mc_mget cl (map (\<lambda>(p, n). deref (g_base w) buf p n) (zip (rr_key r) (rr_key_len r)))
      (g_mc w) = (err, mc1)" by fastforce
  obtain e ms buf' mc2 where f: "multi_fetch cl (g_base w) (zip (rr_key r) (rr_key_len r)) buf mc1 = (e, ms, buf', mc2)"
    by (metis prod_cases4)
  then have "length buf' = length buf" by (metis fst_conv multi_fetch_length snd_conv)
  with m f show ?thesis
    by (auto simp: request_get_multi_def Let_def split: prod.split option.split bool.split)
qed

lemma gate_keeps_length: "keeps_length (gate_callbacks cl)"
proof -
  have "length (fst (snd (cb u cmd req buf w))) = length buf" if "gate_callbacks cl c = Some cb" for c cb u cmd req buf w
    using that by (cases c) (auto simp: request_get_def request_gets_def retrieve_def request_set_def
        request_delete_def request_get_single_buf request_get_multi_buf split: memtext_request.split prod.split)
  then show ?thesis by (simp add: keeps_length_def)
qed

lemma init_callback [simp]: "mt_callback (memtext_init cb u) = cb"
  by (simp add: memtext_init_def)

lemma memtext_reach_ok:
  assumes "allocator_ok grants"
  shows "memtext_reach grants vec_ok place cl h \<Longrightarrow> sbp.handler_ok h"
proof (induction rule: memtext_reach.induct)
  case (accept h s fd w)
  from stream_buffer_init_holds(1) [OF accept(1) assms accept(2)] show ?case
    by (auto simp: sbp.handler_ok_def memtext_handler_def mt_inv_init gate_keeps_length
        intro!: exI [of _ "[]"])
next
  case (event h inp h')
  obtain s ctx off w where h: "h = (s, ctx, off, w)" by (cases h)
  have "length (sb_load s) + length (case inp of Got ys \<Rightarrow> ys | _ \<Rightarrow> []) < 2 ^ 32"
    using event.hyps(5) h by (cases inp) simp_all
  from sbp.memtext_event [OF event.IH [unfolded h] _ _ event.hyps(4) this, of grants vec_ok "sb_addr place"
      "\<lambda>base w. w\<lparr>g_base := base\<rparr>"] event.hyps h
  show ?case by (auto simp: sb_memtext_event_def)
qed



end
