(* ===== verification/Memtext_Session.thy ===== *)
theory Memtext_Session
  imports Memtext_Requests
begin

text \<open>
  Further facts on the parser of \<^verbatim>\<open>src/memproto/memtext.rl\<close> that a connection needs: what a deletion
  delivers, and what the parser has done with a part of a command when the bytes received so far end
  in the middle of it.
\<close>

section \<open>Deletion\<close>

text \<open>A key and the character behind it.\<close>

lemma steps_key_end:
  assumes "mt_cs ctx = S_key0 kd" and "key_text k" and "mt_keys ctx = 0"
    and "length (mt_key_pos ctx) = 256" and "length (mt_key_len ctx) = 256"
    and "\<not> key_char x" and "trans (S_key kd) x = Some (t, [A_key])"
  shows "steps buf p (k @ [x]) ctx = Some (ctx\<lparr>mt_cs := t,
      mt_key_pos := (mt_key_pos ctx)[0 := of_nat p],
      mt_key_len := (mt_key_len ctx)[0 := of_nat (length k)]\<rparr>)"
proof -
  obtain y ys where k: "k = y # ys" "key_char y" "list_all key_char ys"
    using assms(2) by (cases k) (auto simp: key_text_def)
  define c where "c = ctx\<lparr>mt_cs := S_key kd, mt_key_pos := (mt_key_pos ctx)[0 := of_nat p]\<rparr>"
  have "steps buf p k ctx = steps buf (p + 1) ys c"
    using assms(1,3,4) k by (simp add: c_def is_do_def)
  also have "\<dots> = Some c"
    by (rule steps_key_chars [of _ kd]) (simp_all add: c_def k)
  finally have "steps buf p k ctx = Some c" .
  note first = steps_then [OF this, of "[x]"]
  have cs: "mt_cs c = S_key kd" by (simp add: c_def)
  show ?thesis
    unfolding first steps.simps cs assms(7)
    using assms(3-5) by (simp add: c_def is_do_def MARK_LEN_def)
qed

definition delete_text :: "byte list \<Rightarrow> nat option \<Rightarrow> bool \<Rightarrow> byte list" where
  "delete_text k e nr = bytes_of ''delete'' @ [SP] @ k
     @ (case e of None \<Rightarrow> [] | Some n \<Rightarrow> SP # decimal n) @ line_text nr @ [LF]"

definition exptime_of :: "nat option \<Rightarrow> nat" where
  "exptime_of e = (case e of None \<Rightarrow> 0 | Some n \<Rightarrow> n)"

text \<open>The line of a deletion behind the word, which ends in the state \<open>S_cr Delete\<close>.\<close>

lemma steps_noreply_first:
  assumes "mt_cs ctx = S_exp0 Delete"
  shows "steps buf p (bytes_of ''noreply'' @ [CR]) ctx = Some (ctx\<lparr>mt_cs := S_cr Delete, mt_noreply := True\<rparr>)"
  using assms by (cases ctx) (simp add: is_do_def CR_def)

lemma steps_delete_short:
  assumes cs: "mt_cs ctx = S_key0 Delete" and k: "key_text k" and ctx: "mt_keys ctx = 0" "\<not> mt_noreply ctx" "mt_exptime ctx = 0"
    and len: "length (mt_key_pos ctx) = 256" "length (mt_key_len ctx) = 256"
  shows "steps buf p (k @ line_text nr) ctx =
    Some (ctx\<lparr>mt_cs := S_cr Delete,
      mt_key_pos := (mt_key_pos ctx)[0 := of_nat p], mt_key_len := (mt_key_len ctx)[0 := of_nat (length k)],
      mt_exptime := 0, mt_noreply := nr\<rparr>)"
proof (cases nr)
  case True
  let ?c = "ctx\<lparr>mt_cs := S_exp0 Delete, mt_key_pos := (mt_key_pos ctx)[0 := of_nat p],
    mt_key_len := (mt_key_len ctx)[0 := of_nat (length k)]\<rparr>"
  have "steps buf p ((k @ [SP]) @ bytes_of ''noreply'' @ [CR]) ctx =
      steps buf (p + length (k @ [SP])) (bytes_of ''noreply'' @ [CR]) ?c"
    by (rule steps_then [OF steps_key_end [OF cs k ctx(1) len]]) simp_all
  also have "\<dots> = Some (?c\<lparr>mt_cs := S_cr Delete, mt_noreply := True\<rparr>)" by (rule steps_noreply_first) simp
  also have "?c\<lparr>mt_cs := S_cr Delete, mt_noreply := True\<rparr> = ctx\<lparr>mt_cs := S_cr Delete,
      mt_key_pos := (mt_key_pos ctx)[0 := of_nat p], mt_key_len := (mt_key_len ctx)[0 := of_nat (length k)],
      mt_exptime := 0, mt_noreply := nr\<rparr>"
    using True ctx(3) by (cases ctx) simp
  finally show ?thesis using True by (simp add: line_text_def)
next
  case False
  have "steps buf p (k @ [CR]) ctx = Some (ctx\<lparr>mt_cs := S_cr Delete,
      mt_key_pos := (mt_key_pos ctx)[0 := of_nat p], mt_key_len := (mt_key_len ctx)[0 := of_nat (length k)]\<rparr>)"
    by (rule steps_key_end [OF cs k ctx(1) len]) simp_all
  then show ?thesis using False ctx(2,3) by (cases ctx) (simp add: line_text_def)
qed

lemma steps_delete_line:
  assumes cs: "mt_cs ctx = S_key0 Delete" and k: "key_text k" and ctx: "mt_keys ctx = 0" "\<not> mt_noreply ctx" "mt_exptime ctx = 0"
    and len: "length (mt_key_pos ctx) = 256" "length (mt_key_len ctx) = 256"
    and e: "\<And>n. e = Some n \<Longrightarrow> n < 2 ^ 64 \<and> (n = 0 \<or> (of_nat n :: uint32_t) \<noteq> 0)"
    and s: "slice_at buf p (length (k @ (case e of None \<Rightarrow> [] | Some n \<Rightarrow> SP # decimal n) @ line_text nr))
      = k @ (case e of None \<Rightarrow> [] | Some n \<Rightarrow> SP # decimal n) @ line_text nr"
    and p: "p + length (k @ (case e of None \<Rightarrow> [] | Some n \<Rightarrow> SP # decimal n) @ line_text nr) < 2 ^ 32"
  shows "steps buf p (k @ (case e of None \<Rightarrow> [] | Some n \<Rightarrow> SP # decimal n) @ line_text nr) ctx =
    Some (ctx\<lparr>mt_cs := S_cr Delete,
      mt_key_pos := (mt_key_pos ctx)[0 := of_nat p], mt_key_len := (mt_key_len ctx)[0 := of_nat (length k)],
      mt_exptime := of_nat (exptime_of e), mt_noreply := nr\<rparr>)"
proof (cases e)
  case None
  with steps_delete_short [OF cs k ctx len] show ?thesis by (simp add: exptime_of_def)
next
  case (Some n)
  let ?kp = "(mt_key_pos ctx)[0 := of_nat p]" and ?kl = "(mt_key_len ctx)[0 := of_nat (length k)]"
  let ?c = "ctx\<lparr>mt_cs := S_exp0 Delete, mt_key_pos := ?kp, mt_key_len := ?kl\<rparr>"
  let ?q = "p + length (k @ [SP])"
  have key: "steps buf p ((k @ [SP]) @ xs) ctx = steps buf ?q xs ?c" for xs
    by (rule steps_then [OF steps_key_end [OF cs k ctx(1) len]]) simp_all
  have n: "slice_at buf ?q (length (decimal n)) = decimal n" "?q + length (decimal n) < 2 ^ 32"
    using slice_sub [OF s, of "k @ [SP]" "decimal n"] p by (simp_all add: Some)
  have num: "steps buf ?q (decimal n @ [x]) ?c = Some (?c\<lparr>mt_exptime := of_nat n\<rparr>\<lparr>mt_cs := t\<rparr>)"
    if "trans (S_exp_z Delete) x = Some (t, [A_exptime]) \<and> trans (S_exp_n Delete) x = Some (t, [A_exptime])"
    for x t
    using steps_exptime [of ?c Delete n buf ?q x t] e [OF Some] n that by (cases ctx) simp
  have "steps buf p ((k @ [SP]) @ decimal n @ line_text nr) ctx =
      Some (?c\<lparr>mt_exptime := of_nat n\<rparr>\<lparr>mt_cs := line_end Delete,
        mt_noreply := nr \<or> mt_noreply (?c\<lparr>mt_exptime := of_nat n\<rparr>)\<rparr>)"
    unfolding key by (intro steps_number_line num) (simp_all add: trans_number_def)
  moreover have "?c\<lparr>mt_exptime := of_nat n\<rparr>\<lparr>mt_cs := line_end Delete,
        mt_noreply := nr \<or> mt_noreply (?c\<lparr>mt_exptime := of_nat n\<rparr>)\<rparr> =
      ctx\<lparr>mt_cs := S_cr Delete, mt_key_pos := ?kp, mt_key_len := ?kl,
        mt_exptime := of_nat (exptime_of e), mt_noreply := nr\<rparr>"
    using Some ctx(2) by (cases ctx) (simp add: exptime_of_def)
  ultimately show ?thesis using Some by simp
qed

lemma delete_completes:
  fixes ctx :: "('u, 'w) memtext_parser"
  assumes inv: "mt_inv off ctx" "mt_cs ctx \<in> {S_start, S_final}" and k: "key_text k"
    and e: "\<And>n. e = Some n \<Longrightarrow> n < 2 ^ 64 \<and> (n = 0 \<or> (of_nat n :: uint32_t) \<noteq> 0)"
    and s: "slice_at buf off (length (delete_text k e nr)) = delete_text k e nr" and buf: "length buf < 2 ^ 32"
  shows "completes buf off (delete_text k e nr) ctx MEMTEXT_CMD_DELETE (\<lambda>base req. \<exists>r. req = Req_delete r
     \<and> deref base buf (rd_key r) (rd_key_len r) = k \<and> rd_exptime r = of_nat (exptime_of e) \<and> rd_noreply r = nr)"
proof -
  let ?v = "bytes_of ''delete''" and ?l = "k @ (case e of None \<Rightarrow> [] | Some n \<Rightarrow> SP # decimal n) @ line_text nr"
  let ?p = "off + length (?v @ [SP])"
  have t: "delete_text k e nr = ((?v @ [SP]) @ ?l) @ [LF]" by (simp add: delete_text_def)
  have sl: "slice_at buf ?p (length ?l) = ?l" "slice_at buf ?p (length k) = k"
    using slice_sub [OF s, of "?v @ [SP]" ?l] slice_sub [OF s, of "?v @ [SP]" k] by (simp_all add: t)
  have fits: "off + length (delete_text k e nr) < 2 ^ 32" using slice_fits [OF s] buf by (simp add: t)
  then have p: "?p + length ?l < 2 ^ 32" "?p < 2 ^ 64" "length k < 2 ^ 64" by (simp_all add: t)
  have v: "(?v, MEMTEXT_CMD_DELETE) \<in> set command_words" by (simp add: command_words_def)
  let ?c0 = "started MEMTEXT_CMD_DELETE ctx"
  have c0: "mt_cs ?c0 = S_key0 Delete" "mt_keys ?c0 = 0" "\<not> mt_noreply ?c0" "mt_exptime ?c0 = 0"
    "length (mt_key_pos ?c0) = 256" "length (mt_key_len ?c0) = 256"
    using inv(1) by (simp_all add: started_def mt_inv_def)
  define c where "c = ?c0\<lparr>mt_cs := S_cr Delete,
      mt_key_pos := (mt_key_pos ?c0)[0 := of_nat ?p], mt_key_len := (mt_key_len ?c0)[0 := of_nat (length k)],
      mt_exptime := of_nat (exptime_of e), mt_noreply := nr\<rparr>"
  have "steps buf off ((?v @ [SP]) @ ?l) ctx = Some c"
    unfolding c_def steps_then [OF steps_word [OF v inv(2)]]
    by (rule steps_delete_line [OF c0(1) k c0(2-6) e sl(1) p(1)])
  moreover have "line_feed buf q Delete c ctx MEMTEXT_CMD_DELETE base (c\<lparr>mt_cs := S_final\<rparr>)" for q base
    by (simp add: line_feed_def do_action_def is_do_def c_def started_def)
  moreover have "deref base buf (base + of_nat ?p) (of_nat (length k)) = k" for base
    by (rule deref_slice [OF sl(2) p(2,3)])
  then have "\<exists>r. request_of base (do_command Delete) (c\<lparr>mt_cs := S_final\<rparr>) = Req_delete r
      \<and> deref base buf (rd_key r) (rd_key_len r) = k \<and> rd_exptime r = of_nat (exptime_of e) \<and> rd_noreply r = nr" for base
    using c0(5,6) by (simp add: c_def)
  moreover have "mt_cs c = S_cr Delete" by (simp add: c_def)
  ultimately show ?thesis
    unfolding completes_def t
    by (intro exI [of _ "(?v @ [SP]) @ ?l"] exI [of _ c] exI [of _ Delete]) metis
qed

section \<open>A part of a command\<close>

text \<open>The steps read the buffer only up to where they are.\<close>

lemma set_integer_prefix:
  assumes "take p buf = take p buf'" and "p \<le> length buf" and "p \<le> length buf'" and "unat m < p" and "p < 2 ^ 64"
  shows "SET_INTEGER put m p buf ctx = SET_INTEGER put m p buf' ctx"
proof -
  have "buf ! unat m = buf' ! unat m" using assms(1,4) by (metis nth_take)
  moreover have "of_nat p - m = (of_nat (p - unat m) :: size_t)"
    using assms(4) by (simp add: of_nat_diff)
  moreover have "unat (of_nat (p - unat m) :: size_t) = p - unat m"
    using assms(5) by (intro unat_of_nat_size) simp
  moreover have "slice_at buf (unat m) (p - unat m) = slice_at buf' (unat m) (p - unat m)"
    using assms(1) unfolding slice_at_def by (metis take_drop le_add_diff_inverse2 less_imp_le assms(4))
  ultimately show ?thesis using assms by (simp add: SET_INTEGER_def MARK_LEN_def Let_def)
qed

lemma do_command_not_number:
  "do_command k \<noteq> A_flags" "do_command k \<noteq> A_exptime" "do_command k \<noteq> A_bytes" "do_command k \<noteq> A_cas_unique"
  "do_command k \<noteq> A_data"
  by (cases k; simp)+

lemmas action_simps = trans_number0_def trans_number_def keyword_actions_def
  do_command_not_number do_command_not_number [symmetric]

lemma number_action:
  assumes "trans cs x = Some (t, as)"
  shows "A_flags \<in> set as \<Longrightarrow> as = [A_flags] \<and> (\<exists>k. cs = S_flags_z k \<or> cs = S_flags_n k)"
    and "A_exptime \<in> set as \<Longrightarrow> as = [A_exptime] \<and> (\<exists>k. cs = S_exp_z k \<or> cs = S_exp_n k)"
    and "A_bytes \<in> set as \<Longrightarrow> as = [A_bytes] \<and> (\<exists>k. cs = S_bytes_n k)"
    and "A_cas_unique \<in> set as \<Longrightarrow> as = [A_cas_unique] \<and> (\<exists>k. cs = S_uniq_z k \<or> cs = S_uniq_n k)"
proof -
  show "A_flags \<in> set as \<Longrightarrow> as = [A_flags] \<and> (\<exists>k. cs = S_flags_z k \<or> cs = S_flags_n k)"
    using assms by (cases cs) (auto simp: action_simps split: if_splits option.splits)
  show "A_exptime \<in> set as \<Longrightarrow> as = [A_exptime] \<and> (\<exists>k. cs = S_exp_z k \<or> cs = S_exp_n k)"
    using assms by (cases cs) (auto simp: action_simps split: if_splits option.splits)
  show "A_bytes \<in> set as \<Longrightarrow> as = [A_bytes] \<and> (\<exists>k. cs = S_bytes_n k)"
    using assms by (cases cs) (auto simp: action_simps split: if_splits option.splits)
  show "A_cas_unique \<in> set as \<Longrightarrow> as = [A_cas_unique] \<and> (\<exists>k. cs = S_uniq_z k \<or> cs = S_uniq_n k)"
    using assms by (cases cs) (auto simp: action_simps split: if_splits option.splits)
qed

lemma parse_actions_no_number:
  "set as \<inter> {A_flags, A_exptime, A_bytes, A_cas_unique} = {} \<Longrightarrow>
    parse_actions buf p as ctx = parse_actions buf' p as ctx"
proof (induction as arbitrary: ctx)
  case (Cons a as)
  then have "parse_action buf p a ctx = parse_action buf' p a ctx" by (cases a) simp_all
  with Cons show ?case by (auto split: act.split)
qed simp

lemma parse_actions_single: "parse_actions buf p [a] ctx = parse_action buf p a ctx"
  by (simp split: act.split)

lemma parse_actions_prefix:
  assumes inv: "mt_inv p ctx" and tr: "trans (mt_cs ctx) x = Some (t, as)"
    and bufs: "take p buf = take p buf'" "p \<le> length buf" "p \<le> length buf'" "p < 2 ^ 64"
  shows "parse_actions buf p as (ctx\<lparr>mt_cs := t\<rparr>) = parse_actions buf' p as (ctx\<lparr>mt_cs := t\<rparr>)"
proof -
  note same = set_integer_prefix [OF bufs(1-3) _ bufs(4)]
  have marks: "marks_ok (mt_cs ctx) p ctx" using inv by (simp add: mt_inv_def)
  consider "A_flags \<in> set as" | "A_exptime \<in> set as" | "A_bytes \<in> set as" | "A_cas_unique \<in> set as"
    | "set as \<inter> {A_flags, A_exptime, A_bytes, A_cas_unique} = {}" by blast
  then show ?thesis
  proof cases
    case 1
    with number_action(1) [OF tr] marks have "as = [A_flags]" "unat (mt_flags ctx) < p" by auto
    then show ?thesis using same [of "mt_flags ctx"] by (simp add: parse_actions_single del: parse_actions.simps)
  next
    case 2
    with number_action(2) [OF tr] marks have "as = [A_exptime]" "unat (ucast (mt_exptime ctx) :: size_t) < p"
      by (auto simp: unat_ucast_size)
    then show ?thesis using same [of "ucast (mt_exptime ctx)"] by (simp add: parse_actions_single del: parse_actions.simps)
  next
    case 3
    with number_action(3) [OF tr] marks have "as = [A_bytes]" "unat (mt_bytes ctx) < p" by auto
    then show ?thesis using same [of "mt_bytes ctx"] by (simp add: parse_actions_single del: parse_actions.simps)
  next
    case 4
    with number_action(4) [OF tr] marks have "as = [A_cas_unique]" "unat (mt_cas_unique ctx) < p" by auto
    then show ?thesis using same [of "mt_cas_unique ctx"] by (simp add: parse_actions_single del: parse_actions.simps)
  next
    case 5
    then show ?thesis by (rule parse_actions_no_number)
  qed
qed

text \<open>What a part of a command leaves: the invariant, and a state in the middle of a command.\<close>

lemma steps_inv:
  assumes inv: "mt_inv p ctx" and st: "steps buf p xs ctx = Some c" and s: "slice_at buf p (length xs) = xs"
    and buf: "p + length xs \<le> length buf" "length buf < 2 ^ 32" and cb: "keeps_length (mt_callback ctx)"
  shows "mt_inv (p + length xs) c \<and> mt_callback c = mt_callback ctx"
proof -
  have "exec_loop 0 (p + length xs) p (ctx, buf, w) = Ok (p + length xs, c, buf, w)" for w
    using exec_loop_steps [OF st s order_refl, of 0 w] by simp
  with exec_loop_safe [OF inv buf cb, of 0] show ?thesis by simp
qed

lemma steps_prefix:
  assumes inv: "mt_inv p ctx" and st: "steps buf p xs ctx = Some c" and s: "slice_at buf p (length xs) = xs"
    and bufs: "take (p + length xs) buf = take (p + length xs) buf'" "p + length xs \<le> length buf"
      "p + length xs \<le> length buf'" "length buf < 2 ^ 32" and cb: "keeps_length (mt_callback ctx)"
  shows "steps buf' p xs ctx = Some c"
  using inv st s bufs(1-3) cb
proof (induction xs arbitrary: p ctx)
  case (Cons x xs)
  from Cons.prems(2) obtain t as c' where
    t: "trans (mt_cs ctx) x = Some (t, as)" "\<not> list_ex is_do as"
      "parse_actions buf p as (ctx\<lparr>mt_cs := t\<rparr>) = Ok c'" "steps buf (p + 1) xs c' = Some c"
    by (auto split: option.splits act.splits if_splits)
  have sl: "slice_at buf p (length [x]) = [x]" "slice_at buf (p + 1) (length xs) = xs"
    using Cons.prems(3) by (auto simp: slice_at_Cons)
  have "take p buf = take p buf'"
    using Cons.prems(4) by (metis min.absorb1 le_add1 take_take)
  moreover have "p < 2 ^ 64" using Cons.prems(5) bufs(4) by simp
  ultimately have same: "parse_actions buf' p as (ctx\<lparr>mt_cs := t\<rparr>) = Ok c'"
    using parse_actions_prefix [OF Cons.prems(1) t(1), of buf buf'] t(3) Cons.prems(5,6) by simp
  have "steps buf p [x] ctx = Some c'" using t by simp
  from steps_inv [OF Cons.prems(1) this sl(1) _ bufs(4) Cons.prems(7)] Cons.prems(5)
  have "mt_inv (p + 1) c'" "keeps_length (mt_callback c')" using Cons.prems(7) by simp_all
  with Cons.IH [OF _ t(4) sl(2)] Cons.prems(4-6) have "steps buf' (p + 1) xs c' = Some c" by simp
  with t same show ?case by simp
qed simp

lemma do_command_is_do: "is_do (do_command k)"
  by (cases k) (simp_all add: is_do_def)

lemma target_not_idle:
  assumes "trans cs x = Some (t, as)" and "\<not> list_ex is_do as"
  shows "\<not> idle t"
  using assms
  by (cases cs; auto simp: action_simps do_command_is_do split: if_splits option.splits; simp add: idle_def)

lemma parse_action_cs:
  assumes "parse_action buf p a ctx = Ok c" and "a \<noteq> A_data"
  shows "mt_cs c = mt_cs ctx \<or> mt_cs c = S_data"
  using assms by (cases a) (auto simp: SET_INTEGER_def Let_def split: if_splits)

lemma data_action:
  assumes "trans cs x = Some (t, as)" and "A_data \<in> set as"
  shows "cs = S_data \<and> as = [A_data]"
  using assms by (cases cs) (auto simp: action_simps split: if_splits option.splits)

lemma parse_actions_cs:
  assumes "parse_actions buf p as ctx = Ok c" and "A_data \<notin> set as"
  shows "mt_cs c = mt_cs ctx \<or> mt_cs c = S_data"
  using assms
proof (induction as arbitrary: ctx)
  case (Cons a as)
  then obtain c' where "parse_action buf p a ctx = Ok c'" "parse_actions buf p as c' = Ok c"
    by (auto split: act.splits)
  with Cons.IH [of c'] parse_action_cs [of buf p a ctx c'] Cons.prems(2) show ?case by auto
qed simp

lemma steps_one_busy:
  assumes inv: "mt_inv p ctx" and tr: "trans (mt_cs ctx) x = Some (t, as)" "\<not> list_ex is_do as"
    and act: "parse_actions buf p as (ctx\<lparr>mt_cs := t\<rparr>) = Ok c"
  shows "\<not> idle (mt_cs c)"
proof (cases "A_data \<in> set as")
  case True
  with data_action [OF tr(1)] have d: "mt_cs ctx = S_data" "as = [A_data]" by simp_all
  with inv obtain k where "mt_stack ctx = [S_body k]" "mt_top ctx = 1" by (auto simp: mt_inv_def)
  with act d tr(1) show ?thesis by (auto simp: Let_def idle_def split: if_splits)
next
  case False
  from parse_actions_cs [OF act this] target_not_idle [OF tr] show ?thesis by (auto simp: idle_def)
qed

lemma steps_busy:
  assumes inv: "mt_inv p ctx" and st: "steps buf p xs ctx = Some c" and s: "slice_at buf p (length xs) = xs"
    and buf: "p + length xs \<le> length buf" "length buf < 2 ^ 32" and cb: "keeps_length (mt_callback ctx)"
    and xs: "xs \<noteq> []"
  shows "\<not> idle (mt_cs c)"
  using inv st s buf(1) cb xs
proof (induction xs arbitrary: p ctx)
  case (Cons x xs)
  from Cons.prems(2) obtain t as c' where
    t: "trans (mt_cs ctx) x = Some (t, as)" "\<not> list_ex is_do as"
      "parse_actions buf p as (ctx\<lparr>mt_cs := t\<rparr>) = Ok c'" "steps buf (p + 1) xs c' = Some c"
    by (auto split: option.splits act.splits if_splits)
  note busy = steps_one_busy [OF Cons.prems(1) t(1-3)]
  have sl: "slice_at buf p (length [x]) = [x]" "slice_at buf (p + 1) (length xs) = xs"
    using Cons.prems(3) by (auto simp: slice_at_Cons)
  have "steps buf p [x] ctx = Some c'" using t by simp
  from steps_inv [OF Cons.prems(1) this sl(1) _ buf(2) Cons.prems(5)] Cons.prems(4,5)
  have "mt_inv (p + 1) c'" "keeps_length (mt_callback c')" by simp_all
  with Cons.IH [OF _ t(4) sl(2)] Cons.prems(4) busy t(4) show ?case by (cases xs) simp_all
qed simp

lemma parse_action_user: "parse_action buf p a ctx = Ok c \<Longrightarrow> mt_user c = mt_user ctx"
  by (cases a) (auto simp: SET_INTEGER_def Let_def split: if_splits)

lemma parse_actions_user: "parse_actions buf p as ctx = Ok c \<Longrightarrow> mt_user c = mt_user ctx"
  by (induction as arbitrary: ctx) (auto dest: parse_action_user split: act.splits)

lemma steps_user: "steps buf p xs ctx = Some c \<Longrightarrow> mt_user c = mt_user ctx"
  by (induction xs arbitrary: p ctx) (auto dest!: parse_actions_user split: option.splits act.splits if_splits)

lemma steps_some_prefix: "steps buf p (xs @ ys) ctx = Some c \<Longrightarrow> \<exists>c'. steps buf p xs ctx = Some c'"
  by (cases "steps buf p xs ctx") (simp_all add: steps_append)

end
