(* ===== verification/Gate_Session.thy ===== *)
theory Gate_Session
  imports Gate_Loops Memtext_Session
begin

text \<open>
  A connection of the text gate from its first byte on: what a client that sends \<open>get\<close>, \<open>gets\<close>,
  \<open>set\<close> and \<open>delete\<close> one behind the other is answered, however the bytes are cut into reads. The parts
  are \<open>memtext::handler::read_event\<close> (theory \<open>Gate_Loops\<close>), the parser (\<open>Memtext_Session\<close>) and the
  callbacks (\<open>Gate_Memtext\<close>).
\<close>

section \<open>What a client sends and what it may expect\<close>

datatype request =
    Get_req bool "byte list list"
  | Set_req "byte list" nat nat "byte list" bool
  | Delete_req "byte list" "nat option" bool
  | Other_req memtext_command "byte list" nat nat "byte list" bool
  | Cas_req "byte list" nat nat "byte list" nat bool

fun other_word :: "memtext_command \<Rightarrow> byte list" where
  "other_word MEMTEXT_CMD_ADD = bytes_of ''add''"
| "other_word MEMTEXT_CMD_REPLACE = bytes_of ''replace''"
| "other_word MEMTEXT_CMD_APPEND = bytes_of ''append''"
| "other_word MEMTEXT_CMD_PREPEND = bytes_of ''prepend''"
| "other_word _ = []"

lemma other_words: "other_word c \<noteq> [] \<Longrightarrow> (other_word c, c) \<in> set command_words \<and> kind_of c = Storage"
  by (cases c) (simp_all add: command_words_def)

lemma other_no_callback: "other_word c \<noteq> [] \<Longrightarrow> gate_callbacks cl c = None"
  by (cases c) simp_all

fun request_text :: "request \<Rightarrow> byte list" where
  "request_text (Get_req cas ks) = retrieval_text (bytes_of (if cas then ''gets'' else ''get'')) ks"
| "request_text (Set_req k f e d nr) = storage_text (bytes_of ''set'') k f e d nr"
| "request_text (Delete_req k e nr) = delete_text k e nr"
| "request_text (Other_req c k f e d nr) = storage_text (other_word c) k f e d nr"
| "request_text (Cas_req k f e d u nr) = cas_text k f e d u nr"

definition exptime_ok :: "nat \<Rightarrow> bool" where
  "exptime_ok e \<longleftrightarrow> e < 2 ^ 64 \<and> (e = 0 \<or> (of_nat e :: uint32_t) \<noteq> 0)"

fun request_ok :: "request \<Rightarrow> bool" where
  "request_ok (Get_req cas ks) \<longleftrightarrow> ks \<noteq> [] \<and> list_all key_text ks \<and> length ks \<le> 256"
| "request_ok (Set_req k f e d nr) \<longleftrightarrow> key_text k \<and> f < 2 ^ 64 \<and> exptime_ok e \<and> d \<noteq> []"
| "request_ok (Delete_req k e nr) \<longleftrightarrow> key_text k \<and> pred_option exptime_ok e"
| "request_ok (Other_req c k f e d nr) \<longleftrightarrow> False"
| "request_ok (Cas_req k f e d u nr) \<longleftrightarrow> False"

text \<open>
  The storage commands that the parser knows and the gate has no callback for. They are well formed, but
  not among the requests that are served.
\<close>

fun well_formed :: "request \<Rightarrow> bool" where
  "well_formed (Other_req c k f e d nr) \<longleftrightarrow> other_word c \<noteq> [] \<and> key_text k \<and> f < 2 ^ 64 \<and> exptime_ok e \<and> d \<noteq> []"
| "well_formed (Cas_req k f e d u nr) \<longleftrightarrow> key_text k \<and> f < 2 ^ 64 \<and> exptime_ok e \<and> d \<noteq> [] \<and> u < 2 ^ 64"
| "well_formed r \<longleftrightarrow> request_ok r"

lemma request_ok_well_formed: "request_ok r \<Longrightarrow> well_formed r"
  by (cases r) simp_all

lemma requests_ok_well_formed: "list_all request_ok rs \<Longrightarrow> list_all well_formed rs"
  by (auto simp: list_all_iff request_ok_well_formed)

text \<open>One request answered: the bytes sent, and libmemcached afterwards.\<close>

definition stored_reply :: "bool \<Rightarrow> string \<Rightarrow> memcached_return \<Rightarrow> byte list" where
  "stored_reply nr ok_text err =
    (if nr then [] else bytes_of (if err = MEMCACHED_SUCCESS then ok_text else error_reply err))"

fun serve :: "'m client \<Rightarrow> request \<Rightarrow> 'm \<Rightarrow> byte list \<times> 'm" where
  "serve cl (Get_req cas ks) m =
    (if length ks = 1 then
       (case mc_get cl (ks ! 0) m of (res, m') \<Rightarrow> (get_reply cas (ks ! 0) res, m'))
     else
       (case mc_mget cl ks m of
          (err, m1) \<Rightarrow>
            if err \<noteq> MEMCACHED_SUCCESS then (bytes_of (error_reply err), m1)
            else (multi_reply cas cl (length ks) m1, snd (fetched cl (length ks) m1))))"
| "serve cl (Set_req k f e d nr) m =
    (case mc_set cl k d (of_nat e) (ucast (of_nat f :: uint16_t)) m of
       (err, m') \<Rightarrow> (stored_reply nr (''STORED'' @ CRLF) err, m'))"
| "serve cl (Delete_req k e nr) m =
    (case mc_delete cl k (of_nat (exptime_of e)) m of
       (err, m') \<Rightarrow> (stored_reply nr (''DELETED'' @ CRLF) err, m'))"
| "serve cl (Other_req c k f e d nr) m = ([], m)"
| "serve cl (Cas_req k f e d u nr) m = ([], m)"

fun serve_all :: "'m client \<Rightarrow> request list \<Rightarrow> 'm \<Rightarrow> byte list \<times> 'm" where
  "serve_all cl [] m = ([], m)"
| "serve_all cl (r # rs) m =
    (case serve cl r m of (bs, m1) \<Rightarrow> (case serve_all cl rs m1 of (bs', m2) \<Rightarrow> (bs @ bs', m2)))"

lemma serve_all_append:
  "serve_all cl (rs @ rs') m = (fst (serve_all cl rs m) @ fst (serve_all cl rs' (snd (serve_all cl rs m))),
    snd (serve_all cl rs' (snd (serve_all cl rs m))))"
  by (induction rs arbitrary: m) (auto split: prod.split)

text \<open>
  The fetches for the requests that are served return no key that is longer than the one requested in its
  place: true when there is one key, when all keys have one length, or when the servers answer in order.
\<close>

fun in_place :: "'m client \<Rightarrow> request \<Rightarrow> 'm \<Rightarrow> bool" where
  "in_place cl (Get_req cas ks) m \<longleftrightarrow> length ks = 1 \<or>
    (case mc_mget cl ks m of (err, m1) \<Rightarrow> err = MEMCACHED_SUCCESS \<longrightarrow> keys_fit cl (map length ks) m1)"
| "in_place cl _ m \<longleftrightarrow> True"

fun all_in_place :: "'m client \<Rightarrow> request list \<Rightarrow> 'm \<Rightarrow> bool" where
  "all_in_place cl [] m \<longleftrightarrow> True"
| "all_in_place cl (r # rs) m \<longleftrightarrow>
    (request_ok r \<longrightarrow> in_place cl r m \<and> all_in_place cl rs (snd (serve cl r m)))"

lemma all_in_place_append:
  "list_all request_ok rs \<Longrightarrow> all_in_place cl (rs @ rs') m \<longleftrightarrow>
    all_in_place cl rs m \<and> all_in_place cl rs' (snd (serve_all cl rs m))"
  by (induction rs arbitrary: m) (auto split: prod.split)

lemma all_in_place_single:
  "\<forall>cas ks. Get_req cas ks \<in> set rs \<longrightarrow> length ks = 1 \<Longrightarrow> all_in_place cl rs m"
proof (induction rs arbitrary: m)
  case (Cons r rs)
  then show ?case by (cases r) auto
qed simp

text \<open>What was sent to a descriptor, and a world that has answered some requests of it.\<close>

definition sent_to :: "nat \<Rightarrow> 'm gate \<Rightarrow> byte list" where
  "sent_to fd w = concat (map (\<lambda>(x, vec, frees). if x = fd then concat vec else []) (g_sent w))"

text \<open>An entry of what was sent: some bytes, and one vector when nothing is to be freed after it.\<close>

fun entry_ok :: "nat \<times> byte list list \<times> nat set \<Rightarrow> bool" where
  "entry_ok (fd, vec, frees) \<longleftrightarrow> concat vec \<noteq> [] \<and> length vec \<le> 513 \<and> (frees = {} \<longrightarrow> length vec = 1)"

definition entries_ok :: "'m gate \<Rightarrow> bool" where
  "entries_ok w \<longleftrightarrow> (\<forall>e \<in> set (g_sent w). entry_ok e)"

definition answered :: "'m client \<Rightarrow> nat \<Rightarrow> request list \<Rightarrow> 'm gate \<Rightarrow> 'm gate \<Rightarrow> bool" where
  "answered cl fd rs w w' \<longleftrightarrow> grants_all w' \<and> g_mc w' = snd (serve_all cl rs (g_mc w))
    \<and> sent_to fd w' = sent_to fd w @ fst (serve_all cl rs (g_mc w))
    \<and> (\<forall>x. x \<noteq> fd \<longrightarrow> sent_to x w' = sent_to x w) \<and> (entries_ok w \<longrightarrow> entries_ok w')"

lemma answered_Nil: "grants_all w \<Longrightarrow> answered cl fd [] w w"
  by (simp add: answered_def)

lemma answered_append:
  "answered cl fd rs w w1 \<Longrightarrow> answered cl fd rs' w1 w2 \<Longrightarrow> answered cl fd (rs @ rs') w w2"
  by (simp add: answered_def serve_all_append)

lemma sent_to_base [simp]: "sent_to fd (w\<lparr>g_base := b\<rparr>) = sent_to fd w"
  by (simp add: sent_to_def)

lemma entries_ok_base [simp]: "entries_ok (w\<lparr>g_base := b\<rparr>) = entries_ok w"
  by (simp add: entries_ok_def)

lemma answered_base: "answered cl fd rs w w' \<Longrightarrow> answered cl fd rs w (w'\<lparr>g_base := b\<rparr>)"
  by (simp add: answered_def grants_all_def)

lemma answered_rebase: "answered cl fd rs (w\<lparr>g_base := b\<rparr>) w' = answered cl fd rs w w'"
  by (simp add: answered_def)

lemma sent_to_replied:
  "replied w fd bs w' \<Longrightarrow> sent_to x w' = sent_to x w @ (if x = fd then bs else [])"
  by (auto simp: replied_def sent_to_def)

section \<open>One request through the parser\<close>

fun command_of :: "request \<Rightarrow> memtext_command" where
  "command_of (Get_req cas ks) = (if cas then MEMTEXT_CMD_GETS else MEMTEXT_CMD_GET)"
| "command_of (Set_req k f e d nr) = MEMTEXT_CMD_SET"
| "command_of (Delete_req k e nr) = MEMTEXT_CMD_DELETE"
| "command_of (Other_req c k f e d nr) = c"
| "command_of (Cas_req k f e d u nr) = MEMTEXT_CMD_CAS"

fun request_for :: "size_t \<Rightarrow> nat \<Rightarrow> byte list \<Rightarrow> request \<Rightarrow> memtext_request \<Rightarrow> bool" where
  "request_for base len buf (Get_req cas ks) req \<longleftrightarrow> (\<exists>r. req = Req_retrieval r
     \<and> request_keys base buf r = ks \<and> rr_key_num r = of_nat (length ks)
     \<and> length (rr_key r) = length ks \<and> map unat (rr_key_len r) = map length ks
     \<and> slots_ok base len (zip (rr_key r) (rr_key_len r)))"
| "request_for base len buf (Set_req k f e d nr) req \<longleftrightarrow> (\<exists>r. req = Req_storage r
     \<and> deref base buf (rs_key r) (rs_key_len r) = k \<and> deref base buf (rs_data r) (rs_data_len r) = d
     \<and> rs_flags r = of_nat f \<and> rs_exptime r = of_nat e \<and> rs_noreply r = nr)"
| "request_for base len buf (Delete_req k e nr) req \<longleftrightarrow> (\<exists>r. req = Req_delete r
     \<and> deref base buf (rd_key r) (rd_key_len r) = k \<and> rd_exptime r = of_nat (exptime_of e) \<and> rd_noreply r = nr)"
| "request_for base len buf (Other_req c k f e d nr) req \<longleftrightarrow> True"
| "request_for base len buf (Cas_req k f e d u nr) req \<longleftrightarrow> True"

lemma request_completes:
  fixes ctx :: "('u, 'w) memtext_parser"
  assumes ok: "well_formed r" and inv: "mt_inv off ctx" "mt_cs ctx \<in> {S_start, S_final}"
    and s: "slice_at buf off (length (request_text r)) = request_text r" and buf: "length buf < 2 ^ 32"
  shows "completes buf off (request_text r) ctx (command_of r)
    (\<lambda>base req. request_for base (off + length (request_text r)) buf r req)"
proof (cases r)
  case (Get_req cas ks)
  let ?v = "bytes_of (if cas then ''gets'' else ''get'')"
  have v: "(?v, command_of r) \<in> set command_words" "kind_of (command_of r) = Retrieval"
    by (simp_all add: Get_req command_words_def)
  have ks: "ks \<noteq> []" "list_all key_text ks" "length ks \<le> 256" using ok by (simp_all add: Get_req)
  from get_completes [OF v inv ks s [unfolded Get_req request_text.simps] buf] show ?thesis
    unfolding Get_req request_text.simps request_for.simps .
next
  case (Set_req k f e d nr)
  have v: "(bytes_of ''set'', MEMTEXT_CMD_SET) \<in> set command_words" "kind_of MEMTEXT_CMD_SET = Storage"
    by (simp_all add: command_words_def)
  from ok have "key_text k" "f < 2 ^ 64" "e < 2 ^ 64" "e = 0 \<or> (of_nat e :: uint32_t) \<noteq> 0" "d \<noteq> []"
    by (auto simp: Set_req exptime_ok_def)
  from storage_completes [OF v inv this s [unfolded Set_req request_text.simps] buf] show ?thesis
    by (simp add: Set_req)
next
  case (Delete_req k e nr)
  from ok have "key_text k" "\<And>n. e = Some n \<Longrightarrow> n < 2 ^ 64 \<and> (n = 0 \<or> (of_nat n :: uint32_t) \<noteq> 0)"
    by (auto simp: Delete_req exptime_ok_def)
  from delete_completes [OF inv this s [unfolded Delete_req request_text.simps] buf] show ?thesis
    by (simp add: Delete_req)
next
  case (Other_req c k f e d nr)
  with ok have "other_word c \<noteq> []" "key_text k" "f < 2 ^ 64" "e < 2 ^ 64" "e = 0 \<or> (of_nat e :: uint32_t) \<noteq> 0" "d \<noteq> []"
    by (auto simp: exptime_ok_def)
  from storage_completes [OF other_words [OF this(1), THEN conjunct1] other_words [OF this(1), THEN conjunct2] inv
      this(2-6) s [unfolded Other_req request_text.simps] buf]
  show ?thesis unfolding Other_req request_text.simps command_of.simps by (rule completes_weaken) simp
next
  case (Cas_req k f e d u nr)
  with ok have "key_text k" "f < 2 ^ 64" "u < 2 ^ 64" "e < 2 ^ 64" "e = 0 \<or> (of_nat e :: uint32_t) \<noteq> 0" "d \<noteq> []"
    by (auto simp: exptime_ok_def)
  from cas_completes [OF inv this s [unfolded Cas_req request_text.simps] buf]
  show ?thesis unfolding Cas_req request_text.simps command_of.simps by (rule completes_weaken) simp
qed

lemma error_reply_some: "error_reply err \<noteq> []"
  by (cases err) simp_all

lemma reply_stored_answers:
  assumes "grants_all w"
  shows "\<exists>w'. reply_stored fd nr ok_text err (w\<lparr>g_mc := m\<rparr>) = (Cb_return 0, w') \<and> g_mc w' = m
    \<and> grants_all w' \<and> g_base w' = g_base w
    \<and> (\<forall>x. sent_to x w' = sent_to x w @ (if x = fd then stored_reply nr ok_text err else []))
    \<and> (ok_text \<noteq> [] \<longrightarrow> entries_ok w \<longrightarrow> entries_ok w')"
  using assms error_reply_some [of err] by (simp add: reply_stored_def send_error_def granted stored_reply_def sent_to_def entries_ok_def bytes_of_def)

lemma request_get_single_entries:
  "entries_ok w \<Longrightarrow> entries_ok (snd (snd (request_get_single cl cas fd q buf w)))"
  by (auto simp: request_get_single_def Let_def send_error_def send_static_def core_send_def g_ask_def g_alloc_def
      entries_ok_def bytes_of_def error_reply_some CRLF_def split: prod.split sum.split option.split bool.split)

lemma request_get_single_frame:
  "g_grants (snd (snd (request_get_single cl cas fd q buf w))) = g_grants w"
  "g_base (snd (snd (request_get_single cl cas fd q buf w))) = g_base w"
  by (auto simp: request_get_single_def Let_def send_error_def send_static_def core_send_def g_ask_def g_alloc_def
      split: prod.split sum.split option.split bool.split)

lemma request_get_single_answers:
  assumes "grants_all w" and "deref (g_base w) buf (rr_key q ! 0) (rr_key_len q ! 0) = k"
    and "mc_get cl k (g_mc w) = (res, mc')"
  shows "\<exists>w'. request_get_single cl cas fd q buf w = (Cb_return 0, buf, w') \<and> g_mc w' = mc'
    \<and> grants_all w' \<and> g_base w' = g_base w
    \<and> (\<forall>x. sent_to x w' = sent_to x w @ (if x = fd then get_reply cas k res else []))
    \<and> (entries_ok w \<longrightarrow> entries_ok w')"
proof -
  from request_get_single_reply [OF assms, of cas fd] obtain w' where
    w': "request_get_single cl cas fd q buf w = (Cb_return 0, buf, w')" "g_mc w' = mc'"
      "replied w fd (get_reply cas k res) w'" by blast
  have "grants_all w'" "g_base w' = g_base w"
    using request_get_single_frame [of cl cas fd q buf w] w'(1) assms(1) by (simp_all add: grants_all_def)
  moreover have "entries_ok w \<longrightarrow> entries_ok w'" using request_get_single_entries [of w cl cas fd q buf] w'(1) by simp
  ultimately show ?thesis using w' sent_to_replied [OF w'(3)] by blast
qed

lemma multi_reply_some: "multi_reply cas cl n m \<noteq> []"
  by (auto simp: multi_reply_def entries_reply_def bytes_of_def error_reply_some split: option.split)

text \<open>A get of several keys: the receive buffer may change up to the end of the request.\<close>

lemma request_get_multi_answers:
  assumes r: "request_ok (Get_req cas ks)" "length ks \<noteq> 1" and req: "request_for (g_base w) len buf (Get_req cas ks) (Req_retrieval q)"
    and w: "grants_all w" and len: "len \<le> length buf" and place: "in_place cl (Get_req cas ks) (g_mc w)"
  obtains buf' w' where "request_get_multi cl cas fd q buf w = (Cb_return 0, buf', w')"
    and "answered cl fd [Get_req cas ks] w w'" and "g_base w' = g_base w"
    and "length buf' = length buf" and "drop len buf' = drop len buf"
proof -
  have q: "request_keys (g_base w) buf q = ks" "rr_key_num q = of_nat (length ks)" "length (rr_key q) = length ks"
    "map unat (rr_key_len q) = map length ks" "slots_ok (g_base w) len (zip (rr_key q) (rr_key_len q))"
    using req by simp_all
  have lens: "length (rr_key_len q) = length ks" using arg_cong [OF q(4), of length] by simp
  let ?ks = "zip (rr_key q) (rr_key_len q)"
  have keys: "map (\<lambda>(p, n). deref (g_base w) buf p n) ?ks = ks"
    using q(1) by (simp add: request_keys_def deref_def)
  have num: "unat (rr_key_num q) \<le> MEMTEXT_MULTI_MAX"
    using r(1) q(2) by (simp add: MEMTEXT_MULTI_MAX_def unat_of_nat_keys)
  have places: "map (\<lambda>k. unat (snd k)) ?ks = map length ks"
    using q(4) q(3) lens by (simp add: map_snd_zip flip: map_map [of unat snd, unfolded comp_def])
  have n: "length ?ks = length ks" using q(3) lens by simp
  obtain err m1 where mget: "mc_mget cl ks (g_mc w) = (err, m1)" by fastforce
  show thesis
  proof (cases "err = MEMCACHED_SUCCESS")
    case True
    then have mget': "mc_mget cl (map (\<lambda>(p, n). deref (g_base w) buf p n) ?ks) (g_mc w) = (MEMCACHED_SUCCESS, m1)"
      unfolding keys using mget by simp
    have fit: "keys_fit cl (map (\<lambda>k. unat (snd k)) ?ks) m1" unfolding places using place mget True r(2) by simp
    show thesis
    proof (rule request_get_multi_reply [OF w num refl mget' q(5) len fit, of cas fd])
      fix buf' w' vec frees
      assume run: "request_get_multi cl cas fd q buf w = (Cb_return 0, buf', w')" "g_base w' = g_base w"
        "length buf' = length buf" "drop len buf' = drop len buf"
        and w': "g_sent w' = g_sent w @ [(fd, vec, frees)]" "concat vec = multi_reply cas cl (length ?ks) m1"
        "g_mc w' = snd (fetched cl (length ?ks) m1)" "grants_all w'"
        and vec: "length vec \<le> 2 * length ?ks + 1" "frees = {} \<Longrightarrow> length vec = 1"
      have "serve cl (Get_req cas ks) (g_mc w) = (multi_reply cas cl (length ks) m1, snd (fetched cl (length ks) m1))"
        using mget True r(2) by simp
      moreover have "length vec \<le> 513" using vec(1) n r(1) by simp
      ultimately have "answered cl fd [Get_req cas ks] w w'"
        using w' vec(2) r(2) multi_reply_some [of cas cl "length ks" m1] unfolding n
        by (simp add: answered_def sent_to_def entries_ok_def del: serve.simps)
      from that [OF run(1) this run(2-4)] show thesis .
    qed
  next
    case False
    let ?w' = "w\<lparr>g_mc := m1, g_tries := g_tries w + 1, g_sent := g_sent w @ [(fd, [bytes_of (error_reply err)], {})]\<rparr>"
    have "request_get_multi cl cas fd q buf w = (Cb_return 0, buf, ?w')"
      using num mget False w by (simp add: request_get_multi_def Let_def keys send_error_def granted)
    moreover have "answered cl fd [Get_req cas ks] w ?w'"
      using w mget False r(2) error_reply_some [of err]
      by (simp add: answered_def sent_to_def entries_ok_def bytes_of_def)
    ultimately show thesis using that [of buf ?w'] by simp
  qed
qed

lemma callback_answers:
  assumes ok: "request_ok r" and req: "request_for (g_base w) len buf r req" and w: "grants_all w"
    and len: "len \<le> length buf" and place: "in_place cl r (g_mc w)"
  obtains cb buf' w' where "gate_callbacks cl (command_of r) = Some cb"
    and "cb fd (command_of r) req buf w = (Cb_return 0, buf', w')" and "answered cl fd [r] w w'" and "g_base w' = g_base w"
    and "length buf' = length buf" and "drop len buf' = drop len buf"
proof (cases r)
  case (Get_req cas ks)
  let ?cb = "if cas then request_gets cl else request_get cl"
  have cb: "gate_callbacks cl (command_of r) = Some ?cb" by (simp add: Get_req)
  from req obtain q where q: "req = Req_retrieval q" unfolding Get_req by auto
  show thesis
  proof (cases "length ks = 1")
    case True
    then obtain k where k: "ks = [k]" by (auto simp: length_Suc_conv)
    with q req have keys: "request_keys (g_base w) buf q = [k]" "rr_key_num q = 1" by (auto simp: Get_req)
    obtain res mc' where res: "mc_get cl k (g_mc w) = (res, mc')" by fastforce
    from request_get_single_answers [OF w request_keys_single [OF keys(1)] res, of cas fd] obtain w' where
      "request_get_single cl cas fd q buf w = (Cb_return 0, buf, w')" "g_mc w' = mc'" "grants_all w'"
      "g_base w' = g_base w" "\<forall>x. sent_to x w' = sent_to x w @ (if x = fd then get_reply cas k res else [])"
      "entries_ok w \<longrightarrow> entries_ok w'" by blast
    with q keys(2) res k that [OF cb, of buf w'] show thesis
      by (cases cas) (auto simp: Get_req request_get_def request_gets_def retrieve_def answered_def)
  next
    case False
    obtain buf' w' where multi: "request_get_multi cl cas fd q buf w = (Cb_return 0, buf', w')"
      "answered cl fd [r] w w'" "g_base w' = g_base w" "length buf' = length buf" "drop len buf' = drop len buf"
      using request_get_multi_answers [OF ok [unfolded Get_req] False req [unfolded Get_req q] w len place [unfolded Get_req], of fd]
      unfolding Get_req by metis
    have "rr_key_num q = of_nat (length ks)" "length ks \<le> 256" using req ok q by (auto simp: Get_req)
    then have "rr_key_num q \<noteq> 1" using False unat_of_nat_keys [of "length ks"] by auto
    then have "?cb fd (command_of r) req buf w = (Cb_return 0, buf', w')"
      using multi(1) q by (cases cas) (simp_all add: request_get_def request_gets_def retrieve_def)
    from that [OF cb this multi(2-5)] show thesis .
  qed
next
  case (Set_req k f e d nr)
  with req obtain q where q: "req = Req_storage q" "deref (g_base w) buf (rs_key q) (rs_key_len q) = k"
    "deref (g_base w) buf (rs_data q) (rs_data_len q) = d" "rs_flags q = of_nat f" "rs_exptime q = of_nat e"
    "rs_noreply q = nr" by auto
  obtain err mc' where res: "mc_set cl k d (of_nat e) (ucast (of_nat f :: uint16_t)) (g_mc w) = (err, mc')" by fastforce
  from reply_stored_answers [OF w, of fd nr "''STORED'' @ CRLF" err mc'] q that res
  show thesis by (auto simp: Set_req request_set_def answered_def)
next
  case (Delete_req k e nr)
  with req obtain q where q: "req = Req_delete q" "deref (g_base w) buf (rd_key q) (rd_key_len q) = k"
    "rd_exptime q = of_nat (exptime_of e)" "rd_noreply q = nr" by auto
  obtain err mc' where res: "mc_delete cl k (of_nat (exptime_of e)) (g_mc w) = (err, mc')" by fastforce
  from reply_stored_answers [OF w, of fd nr "''DELETED'' @ CRLF" err mc'] q that res
  show thesis by (auto simp: Delete_req request_delete_def answered_def)
qed (use ok in simp_all)

section \<open>Many requests in one buffer\<close>

definition texts :: "request list \<Rightarrow> byte list" where
  "texts rs = concat (map request_text rs)"

lemma texts_simps [simp]:
  "texts [] = []" "texts (r # rs) = request_text r @ texts rs" "texts (rs @ rs') = texts rs @ texts rs'"
  by (simp_all add: texts_def)

text \<open>A parser of the connection \<open>fd\<close> between two commands.\<close>

definition ready :: "'m client \<Rightarrow> nat \<Rightarrow> nat \<Rightarrow> (nat, 'm gate) memtext_parser \<Rightarrow> bool" where
  "ready cl fd off ctx \<longleftrightarrow> mt_inv off ctx \<and> mt_cs ctx \<in> {S_start, S_final}
     \<and> mt_callback ctx = gate_callbacks cl \<and> mt_user ctx = fd"

lemma run_request:
  assumes ctx: "ready cl fd off ctx" and r: "request_ok r"
    and s: "slice_at buf off (length (request_text r)) = request_text r" and buf: "length buf < 2 ^ 32"
    and w: "grants_all w" "g_base w = base" "in_place cl r (g_mc w)"
    and pe: "off + length (request_text r) \<le> pe" "pe \<le> length buf"
  obtains c buf' w' where "exec_loop base pe off (ctx, buf, w) = exec_loop base pe (off + length (request_text r)) (c, buf', w')"
    and "ready cl fd (off + length (request_text r)) c" and "mt_cs c = S_final"
    and "answered cl fd [r] w w'" and "g_base w' = base"
    and "length buf' = length buf" and "drop (off + length (request_text r)) buf' = drop (off + length (request_text r)) buf"
proof -
  from request_completes [OF request_ok_well_formed [OF r] _ _ s buf, of ctx] ctx obtain h c0 k c where
    t: "request_text r = h @ [LF]" and h: "steps buf off h ctx = Some c0" and cs: "mt_cs c0 = S_cr k \<or> mt_cs c0 = S_body_cr k"
    and lf: "line_feed buf (off + length h) k c0 ctx (command_of r) base c"
    and req: "request_for base (off + length (request_text r)) buf r (request_of base (do_command k) c)"
    unfolding completes_def ready_def by blast
  have sl: "slice_at buf off (length h) = h" "slice_at buf (off + length h) 1 = [LF]"
    using s slice_at_parts [of buf off h "[LF]"] by (simp_all add: t)
  have c: "mt_callback c = gate_callbacks cl" "mt_user c = fd" "mt_command c = command_of r" "mt_cs c = S_final"
    using lf ctx by (simp_all add: line_feed_def ready_def)
  have len: "off + length (request_text r) \<le> length buf" using pe by simp
  from callback_answers [OF r req [folded w(2)] w(1) len w(3), of fd] obtain cb buf' w' where
    cb: "gate_callbacks cl (command_of r) = Some cb"
      "cb fd (command_of r) (request_of base (do_command k) c) buf w = (Cb_return 0, buf', w')"
      "answered cl fd [r] w w'" "g_base w' = base"
      "length buf' = length buf" "drop (off + length (request_text r)) buf' = drop (off + length (request_text r)) buf"
    unfolding w(2) by blast
  have "call_back base (do_command k) (c, buf, w) = Ok (c, buf', w')" using cb c by (simp add: call_back_def)
  with lf have act: "do_action base (off + length h) (do_command k) (c0\<lparr>mt_cs := S_final\<rparr>, buf, w) = Ok (c, buf', w')"
    by (simp add: line_feed_def)
  have run: "exec_loop base q off (ctx, buf, w) = exec_loop base q (off + length (request_text r)) (c, buf', w')"
    if q: "off + length (request_text r) \<le> q" "q \<le> length buf" for q
  proof -
    have "exec_loop base q off (ctx, buf, w) = exec_loop base q (off + length h) (c0, buf, w)"
      by (rule exec_loop_steps [OF h sl(1)]) (use q t in simp)
    also have "\<dots> = exec_loop base q (off + length h + 1) (c, buf', w')"
      using cs sl(2) act q t by (subst exec_loop.simps) (auto simp: slice_at_Cons)
    finally show ?thesis by (simp add: t)
  qed
  have "exec_loop base (off + length (request_text r)) off (ctx, buf, w) =
      Ok (off + length (request_text r), c, buf', w')"
    using run [OF order_refl] pe by simp
  moreover have inv: "mt_inv off ctx" and keeps: "keeps_length (mt_callback ctx)"
    using ctx by (simp_all add: ready_def gate_keeps_length)
  ultimately have "mt_inv (off + length (request_text r)) c"
    using exec_loop_safe [OF inv _ buf keeps, of "off + length (request_text r)" base w] len by simp
  with c have "ready cl fd (off + length (request_text r)) c" by (simp add: ready_def)
  with that run [OF pe] c(4) cb(3-6) show thesis by blast
qed

text \<open>A command without a callback: the loop stops at its end, in the error state.\<close>

lemma run_refused:
  assumes ctx: "ready cl fd off ctx" and r: "well_formed r" "\<not> request_ok r"
    and s: "slice_at buf off (length (request_text r)) = request_text r" and buf: "length buf < 2 ^ 32"
    and pe: "off + length (request_text r) \<le> pe" "pe \<le> length buf"
  obtains c q where "\<And>w. exec_loop base pe off (ctx, buf, w) = Ok (q, c, buf, w)" and "mt_cs c = S_error"
proof -
  from request_completes [OF r(1) _ _ s buf, of ctx] ctx obtain h c0 k c where
    t: "request_text r = h @ [LF]" and h: "steps buf off h ctx = Some c0" and cs: "mt_cs c0 = S_cr k \<or> mt_cs c0 = S_body_cr k"
    and lf: "line_feed buf (off + length h) k c0 ctx (command_of r) base c"
    unfolding completes_def ready_def by blast
  have sl: "slice_at buf off (length h) = h" "slice_at buf (off + length h) 1 = [LF]"
    using s slice_at_parts [of buf off h "[LF]"] by (simp_all add: t)
  have "gate_callbacks cl (command_of r) = None" using r by (cases r) (simp_all add: other_no_callback)
  with lf ctx have act: "do_action base (off + length h) (do_command k) (c0\<lparr>mt_cs := S_final\<rparr>, buf, w) = Convert_error (c, buf, w)" for w
    by (simp add: line_feed_def ready_def call_back_def)
  have run: "exec_loop base pe off (ctx, buf, w) = Ok (off + length h, c\<lparr>mt_cs := S_error\<rparr>, buf, w)" for w
  proof -
    have "exec_loop base pe off (ctx, buf, w) = exec_loop base pe (off + length h) (c0, buf, w)"
      by (rule exec_loop_steps [OF h sl(1)]) (use pe t in simp)
    also have "\<dots> = Ok (off + length h, c\<lparr>mt_cs := S_error\<rparr>, buf, w)"
      using cs sl(2) act pe t by (subst exec_loop.simps) (auto simp: slice_at_Cons)
    finally show ?thesis .
  qed
  from that [OF run] show thesis by simp
qed

lemma run_requests:
  assumes "ready cl fd off ctx" and "list_all request_ok rs"
    and "slice_at buf off (length (texts rs)) = texts rs" and "length buf < 2 ^ 32"
    and "grants_all w" and "g_base w = base" and "all_in_place cl rs (g_mc w)"
    and "off + length (texts rs) \<le> pe" and "pe \<le> length buf"
  shows "\<exists>c buf' w'. exec_loop base pe off (ctx, buf, w) = exec_loop base pe (off + length (texts rs)) (c, buf', w')
    \<and> ready cl fd (off + length (texts rs)) c \<and> (rs = [] \<and> c = ctx \<or> mt_cs c = S_final)
    \<and> answered cl fd rs w w' \<and> g_base w' = base
    \<and> length buf' = length buf \<and> drop (off + length (texts rs)) buf' = drop (off + length (texts rs)) buf"
  using assms
proof (induction rs arbitrary: off ctx buf w)
  case Nil
  then show ?case by (intro exI [of _ ctx] exI [of _ buf] exI [of _ w]) (simp add: answered_Nil)
next
  case (Cons r rs)
  let ?o = "off + length (request_text r)"
  have sl: "slice_at buf off (length (request_text r)) = request_text r" "slice_at buf ?o (length (texts rs)) = texts rs"
    using slice_at_parts [of buf off "request_text r" "texts rs"] Cons.prems(3) by simp_all
  have len: "?o \<le> pe" "?o + length (texts rs) \<le> pe" using Cons.prems(8) by simp_all
  have ok: "request_ok r" "list_all request_ok rs" "in_place cl r (g_mc w)" "all_in_place cl rs (snd (serve cl r (g_mc w)))"
    using Cons.prems(2,7) by simp_all
  from run_request [OF Cons.prems(1) ok(1) sl(1) Cons.prems(4-6) ok(3) len(1) Cons.prems(9)] obtain c1 b1 w1 where
    1: "exec_loop base pe off (ctx, buf, w) = exec_loop base pe ?o (c1, b1, w1)"
      "ready cl fd ?o c1" "mt_cs c1 = S_final" "answered cl fd [r] w w1" "g_base w1 = base"
      "length b1 = length buf" "drop ?o b1 = drop ?o buf" .
  have w1: "grants_all w1" "all_in_place cl rs (g_mc w1)" using 1(4) ok(4) by (auto simp: answered_def split: prod.splits)
  have "slice_at b1 ?o (length (texts rs)) = texts rs" using sl(2) 1(7) by (simp add: slice_at_def)
  from Cons.IH [OF 1(2) ok(2) this _ w1(1) 1(5) w1(2) len(2)] Cons.prems(4,9) 1(6) obtain c b' w' where
    2: "exec_loop base pe ?o (c1, b1, w1) = exec_loop base pe (?o + length (texts rs)) (c, b', w')"
      "ready cl fd (?o + length (texts rs)) c" "rs = [] \<and> c = c1 \<or> mt_cs c = S_final"
      "answered cl fd rs w1 w'" "g_base w' = base" "length b' = length buf"
      "drop (?o + length (texts rs)) b' = drop (?o + length (texts rs)) b1" by auto
  have "answered cl fd (r # rs) w w'" using answered_append [OF 1(4) 2(4)] by simp
  moreover have "drop (?o + length (texts rs)) b1 = drop (?o + length (texts rs)) buf"
    using arg_cong [OF 1(7), of "drop (length (texts rs))"] by (simp only: drop_drop add.commute)
  ultimately show ?case using 1 2 by (intro exI [of _ c] exI [of _ b'] exI [of _ w']) (auto simp: add.assoc)
qed

text \<open>The unread bytes of the buffer begin with the requests \<open>rs\<close>.\<close>

lemma run_complete_requests:
  assumes ctx: "ready cl fd q ctx" and bytes: "drop q buf = texts rs @ rest" and rs: "list_all request_ok rs"
    and buf: "length buf < 2 ^ 32" and w: "grants_all w" "g_base w = base" and place: "all_in_place cl rs (g_mc w)"
    and q: "q \<le> length buf"
  shows "\<exists>c b w'. exec_loop base (length buf) q (ctx, buf, w) = exec_loop base (length buf) (q + length (texts rs)) (c, b, w')
    \<and> ready cl fd (q + length (texts rs)) c \<and> (rs = [] \<and> c = ctx \<or> mt_cs c = S_final) \<and> answered cl fd rs w w'
    \<and> length b = length buf \<and> drop (q + length (texts rs)) b = rest"
proof -
  have s: "slice_at buf q (length (texts rs)) = texts rs" unfolding slice_at_def bytes by simp
  have len: "q + length (texts rs) \<le> length buf" using q arg_cong [OF bytes, of length] by simp
  have "drop (q + length (texts rs)) buf = drop (length (texts rs)) (drop q buf)" by (simp only: drop_drop add.commute)
  then have "drop (q + length (texts rs)) buf = rest" unfolding bytes by simp
  with run_requests [OF ctx rs s buf w place len order_refl] show ?thesis by auto
qed

section \<open>Bytes that end in the middle of a request\<close>

definition begun :: "byte list \<Rightarrow> request list \<Rightarrow> bool" where
  "begun p rs \<longleftrightarrow> p = [] \<or> (\<exists>r rs' z. rs = r # rs' \<and> request_text r = p @ z \<and> z \<noteq> [])"

lemma texts_split:
  assumes "texts rs = xs @ zs"
  obtains rs1 rs2 p where "rs = rs1 @ rs2" and "xs = texts rs1 @ p" and "begun p rs2"
  using assms
proof (induction rs arbitrary: xs thesis)
  case Nil
  then show ?case by (simp add: begun_def)
next
  case (Cons r rs)
  show ?case
  proof (cases "length xs < length (request_text r)")
    case True
    let ?z = "drop (length xs) (request_text r)"
    have "take (length xs) (request_text r) = xs"
      using arg_cong [OF Cons.prems(2), of "take (length xs)"] True by simp
    then have "request_text r = xs @ ?z" "?z \<noteq> []" using True append_take_drop_id [of "length xs" "request_text r"] by simp_all
    then have "begun xs (r # rs)" unfolding begun_def by blast
    then show ?thesis using Cons.prems(1) [of "[]" "r # rs" xs] by simp
  next
    case False
    with Cons.prems(2) obtain xs' where xs: "xs = request_text r @ xs'" "texts rs = xs' @ zs"
      by (auto simp: append_eq_append_conv_if) (metis append_take_drop_id)
    from Cons.IH [OF _ xs(2)] obtain rs1 rs2 p where "rs = rs1 @ rs2" "xs' = texts rs1 @ p" "begun p rs2" by blast
    with xs(1) Cons.prems(1) [of "r # rs1" rs2 p] show ?thesis by simp
  qed
qed

lemma run_begun:
  assumes ctx: "ready cl fd q ctx" and p: "begun p rs" "list_all well_formed rs"
    and buf: "q + length p = length buf" "drop q buf = p" "q + length (texts rs) < 2 ^ 32"
  shows "\<exists>c. steps buf q p ctx = Some c"
proof (cases "p = []")
  case False
  with p obtain r rs' z where r: "rs = r # rs'" "request_text r = p @ z" "z \<noteq> []" "well_formed r"
    by (auto simp: begun_def)
  let ?B = "buf @ z"
  have B: "drop q ?B = p @ z" "length ?B < 2 ^ 32" "q + length (p @ z) = length ?B"
    using buf r by simp_all
  have s: "slice_at ?B q (length (request_text r)) = request_text r"
    using B by (simp add: slice_at_def r(2))
  from request_completes [OF r(4) _ _ s B(2), of ctx] ctx obtain h c0 where
    h: "request_text r = h @ [LF]" "steps ?B q h ctx = Some c0"
    unfolding completes_def ready_def by blast
  obtain z' where "h = p @ z'"
    using h(1) r(2,3) by (cases z rule: rev_cases) auto
  with h(2) steps_some_prefix obtain c where c: "steps ?B q p ctx = Some c" by blast
  have "steps buf q p ctx = Some c"
    using ctx buf(1) B
    by (intro steps_prefix [OF _ c]) (auto simp: ready_def gate_keeps_length slice_at_def)
  then show ?thesis ..
qed simp

text \<open>The parser after the bytes \<open>xs\<close> of the buffer, of which \<open>p\<close> is the unfinished command.\<close>

definition parsing :: "'m client \<Rightarrow> nat \<Rightarrow> byte list \<Rightarrow> byte list \<Rightarrow> (nat, 'm gate) memtext_parser \<Rightarrow> bool" where
  "parsing cl fd xs p ctx \<longleftrightarrow> (\<exists>q ctx0. q + length p = length xs \<and> drop q xs = p
     \<and> ready cl fd q ctx0 \<and> steps xs q p ctx0 = Some ctx)"

lemma parsing_done: "ready cl fd (length xs) ctx \<Longrightarrow> parsing cl fd xs [] ctx"
  unfolding parsing_def by (intro exI [of _ "length xs"] exI [of _ ctx]) simp

text \<open>The loop from the end of \<open>xs\<close> is the loop from the beginning of the unfinished command.\<close>

lemma parsing_rewound:
  fixes ctx :: "(nat, 'm gate) memtext_parser"
  assumes "parsing cl fd xs p ctx" and len: "length (xs @ ys) < 2 ^ 32"
  obtains q ctx0 where "q + length p = length xs" and "ready cl fd q ctx0" and "drop q (xs @ ys) = p @ ys"
    and "\<And>w. exec_loop base (length (xs @ ys)) (length xs) (ctx, xs @ ys, w) = exec_loop base (length (xs @ ys)) q (ctx0, xs @ ys, w)"
proof -
  obtain q ctx0 where q: "q + length p = length xs" "drop q xs = p" "ready cl fd q ctx0" "steps xs q p ctx0 = Some ctx"
    using assms(1) by (auto simp: parsing_def)
  then have sl: "slice_at (xs @ ys) q (length p) = p" "slice_at xs q (length p) = p" by (simp_all add: slice_at_def)
  have "steps (xs @ ys) q p ctx0 = Some ctx"
    using q sl len by (intro steps_prefix [OF _ q(4) sl(2)]) (auto simp: ready_def gate_keeps_length)
  from exec_loop_steps [OF this sl(1), of "length (xs @ ys)" base] q that show thesis by simp
qed

text \<open>
  The loop over the new bytes \<open>ys\<close>: it serves requests up to the first that is not complete, or up to
  one that is refused.
\<close>

lemma memtext_execute_feeds:
  fixes ctx :: "(nat, 'm gate) memtext_parser"
  assumes parsing: "parsing cl fd xs p ctx" and ys: "ys \<noteq> []" and rs: "texts rs = (p @ ys) @ zs" "list_all well_formed rs"
    and len: "length (xs @ ys @ zs) < 2 ^ 32" and w: "grants_all w" "g_base w = base" "all_in_place cl rs (g_mc w)"
  obtains (open_) rs1 rs2 p' c b w' where "rs = rs1 @ rs2" and "p @ ys = texts rs1 @ p'" and "begun p' rs2"
    and "list_all request_ok rs1"
    and "memtext_execute base (ctx, xs @ ys, w) (length (xs @ ys)) (length xs) =
      Ok (if p' = [] then 1 else 0, length (xs @ ys), c, b, w')"
    and "length b = length (xs @ ys)" and "parsing cl fd b p' c" and "p' = [] \<longrightarrow> mt_cs c = S_final"
    and "answered cl fd rs1 w w'"
  | (refused) good bad more tail q c b w' where "rs = good @ bad # more" and "p @ ys = texts good @ request_text bad @ tail"
    and "list_all request_ok good" and "\<not> request_ok bad"
    and "memtext_execute base (ctx, xs @ ys, w) (length (xs @ ys)) (length xs) = Ok (-1, q, c, b, w')"
    and "answered cl fd good w w'"
proof -
  let ?buf = "xs @ ys" and ?n = "length (xs @ ys)"
  have n: "?n < 2 ^ 32" using len by simp
  obtain q ctx0 where q: "q + length p = length xs" "ready cl fd q ctx0" "drop q ?buf = p @ ys"
    and rewound: "\<And>w. exec_loop base ?n (length xs) (ctx, ?buf, w) = exec_loop base ?n q (ctx0, ?buf, w)"
    using parsing_rewound [OF parsing n] by blast
  have served: "\<exists>c b w'. exec_loop base ?n q (ctx0, ?buf, w) = exec_loop base ?n (q + length (texts gs)) (c, b, w')
      \<and> ready cl fd (q + length (texts gs)) c \<and> (gs = [] \<and> c = ctx0 \<or> mt_cs c = S_final) \<and> answered cl fd gs w w'
      \<and> length b = ?n \<and> drop (q + length (texts gs)) b = rest"
    if gs: "p @ ys = texts gs @ rest" "list_all request_ok gs" "rs = gs @ others" for gs rest others
    by (rule run_complete_requests [OF q(2) _ gs(2) n w(1,2)])
      (use q(1,3) gs w(3) in \<open>simp_all add: all_in_place_append\<close>)
  obtain rs1 rs2 p' where split: "rs = rs1 @ rs2" "p @ ys = texts rs1 @ p'" "begun p' rs2"
    using texts_split [OF rs(1)] .
  show thesis
  proof (cases "list_all request_ok rs1")
    case True
    have "texts rs2 = p' @ zs" using rs(1) split(1,2) by simp
    then have lens: "q + length (texts rs1) + length p' = ?n" "q + length (texts rs1) + length (texts rs2) < 2 ^ 32"
      using len q(1) arg_cong [OF split(2), of length] by simp_all
    from served [OF split(2) True split(1)] obtain c1 b w' where
      c1: "exec_loop base ?n q (ctx0, ?buf, w) = exec_loop base ?n (q + length (texts rs1)) (c1, b, w')"
        "ready cl fd (q + length (texts rs1)) c1" "rs1 = [] \<and> c1 = ctx0 \<or> mt_cs c1 = S_final"
        "answered cl fd rs1 w w'" and b: "length b = ?n" "drop (q + length (texts rs1)) b = p'" by blast
    have "list_all well_formed rs2" using rs(2) split(1) by simp
    from run_begun [OF c1(2) split(3) this lens(1) [folded b(1)] b(2) lens(2)] obtain c where
      c: "steps b (q + length (texts rs1)) p' c1 = Some c" by blast
    have slp: "slice_at b (q + length (texts rs1)) (length p') = p'" using b(2) by (simp add: slice_at_def)
    have "exec_loop base ?n (length xs) (ctx, ?buf, w) = Ok (?n, c, b, w')"
      using exec_loop_steps [OF c slp, of ?n base w'] rewound c1(1) lens(1) by simp
    moreover have "\<not> idle (mt_cs c)" if "p' \<noteq> []"
      using c1(2) n that lens(1) b(1) by (intro steps_busy [OF _ c slp]) (auto simp: ready_def gate_keeps_length)
    then have "return_code (mt_cs c) = (if p' = [] then 1 else 0) \<and> (p' = [] \<longrightarrow> mt_cs c = S_final)"
      using c1(3) c split(2) ys by (auto simp: return_code_def idle_def)
    moreover have "parsing cl fd b p' c"
      unfolding parsing_def b(1) using lens(1) b(2) c1(2) c by blast
    ultimately show thesis
      using open_ [OF split True, of c b w'] c1(4) b(1) ys by (simp add: memtext_execute_def)
  next
    case False
    then obtain good bad more where bad: "rs1 = good @ bad # more" "\<not> request_ok bad" "list_all request_ok good"
      using split_list_first_prop [of rs1 "\<lambda>r. \<not> request_ok r"] by (auto simp: list_all_iff)
    let ?o = "q + length (texts good)" and ?tail = "texts more @ p'"
    have gs: "p @ ys = texts good @ request_text bad @ ?tail" and good: "rs = good @ bad # more @ rs2"
      using split(1,2) bad(1) by simp_all
    from served [OF gs bad(3) good] obtain c1 b w' where
      c1: "exec_loop base ?n q (ctx0, ?buf, w) = exec_loop base ?n ?o (c1, b, w')"
        "ready cl fd ?o c1" "answered cl fd good w w'" and b: "length b = ?n" "drop ?o b = request_text bad @ ?tail"
      by blast
    have wf: "well_formed bad" using rs(2) good by simp
    have "slice_at b ?o (length (request_text bad)) = request_text bad"
      unfolding slice_at_def b(2) by simp
    moreover have "?o + length (request_text bad) \<le> ?n" using q(1) arg_cong [OF gs, of length] by simp
    ultimately obtain c o' where c: "\<And>w. exec_loop base ?n ?o (c1, b, w) = Ok (o', c, b, w)" "mt_cs c = S_error"
      using run_refused [OF c1(2) wf bad(2) _ _ _ , of b ?n] b(1) n by (metis order_refl)
    have "exec_loop base ?n (length xs) (ctx, ?buf, w) = Ok (o', c, b, w')" using rewound c1(1) c(1) by simp
    then have "memtext_execute base (ctx, ?buf, w) ?n (length xs) = Ok (-1, o', c, b, w')"
      using ys c(2) by (simp add: memtext_execute_def return_code_def)
    from refused [OF good gs bad(3,2) this c1(3)] show thesis .
  qed
qed

section \<open>The handler\<close>

text \<open>A round of the loop whose parser stops at the end of the data: it is the last one.\<close>

context parse_buffer begin

lemma memtext_loop_last_round:
  assumes s: "holds s xs" and b: "length b = length xs"
    and run: "memtext_execute (addr s) (ctx, xs, enter (addr s) w) (length xs) off = Ok (ret, length xs, c, b, w')"
  shows "ret = 0 \<Longrightarrow> memtext_loop load save take_off addr enter s ctx off w = Some (Keep (save s b, c, length xs, w'))"
    and "ret = 1 \<Longrightarrow> memtext_loop load save take_off addr enter s ctx off w
      = Some (Keep (take_off (save s b) (length xs), c, 0, w'))"
    and "holds (save s b) b" and "holds (take_off (save s b) (length xs)) []"
proof -
  show saved: "holds (save s b) b" by (rule save_holds [OF s b])
  show off: "holds (take_off (save s b) (length xs)) []" using take_off_holds [OF saved, of "length xs"] b by simp
  show "ret = 0 \<Longrightarrow> memtext_loop load save take_off addr enter s ctx off w = Some (Keep (save s b, c, length xs, w'))"
    using run load_holds [OF s] by (subst memtext_loop.simps) simp
  show "ret = 1 \<Longrightarrow> memtext_loop load save take_off addr enter s ctx off w
      = Some (Keep (take_off (save s b) (length xs), c, 0, w'))"
    using run load_holds [OF s] load_holds [OF off] by (subst memtext_loop.simps) (simp add: Let_def)
qed

text \<open>A round in which the parser fails is the last one as well.\<close>

lemma memtext_loop_fails:
  assumes "holds s xs"
    and "memtext_execute (addr s) (ctx, xs, enter (addr s) w) (length xs) off = Ok (-1, q, c, b, w')"
  shows "memtext_loop load save take_off addr enter s ctx off w = Some (Closed (save s b, c, q, w'))"
  using assms(2) load_holds [OF assms(1)] by (subst memtext_loop.simps) simp

end

text \<open>The handler of a connection that has received the stream \<open>str\<close> and is still open.\<close>

inductive memtext_stream :: "(nat \<Rightarrow> bool) \<Rightarrow> bool \<Rightarrow> (addr \<Rightarrow> size_t) \<Rightarrow> 'm client \<Rightarrow> nat \<Rightarrow> 'm gate \<Rightarrow> byte list \<Rightarrow>
    sb_state \<times> (nat, 'm gate) memtext_parser \<times> nat \<times> 'm gate \<Rightarrow> bool" for grants vec_ok place cl fd w0 where
  accept: "heap_ok h \<Longrightarrow> stream_buffer_init grants h MEMTEXT_INITIAL_ALLOCATION_SIZE = Some s \<Longrightarrow>
    memtext_stream grants vec_ok place cl fd w0 [] (memtext_handler cl fd s w0)"
| event: "memtext_stream grants vec_ok place cl fd w0 str h \<Longrightarrow> sb_fits grants (fst h) MEMTEXT_RESERVE_SIZE \<Longrightarrow>
    sbp.read_ok grants vec_ok (fst h) MEMTEXT_RESERVE_SIZE inp \<Longrightarrow> inp \<noteq> Got [] \<Longrightarrow>
    sb_memtext_event grants vec_ok place inp h = Some (Keep h') \<Longrightarrow>
    memtext_stream grants vec_ok place cl fd w0 (str @ bytes_in inp) h'"

text \<open>The handler when the stream is the beginning of the requests \<open>rs\<close>.\<close>

definition in_session :: "'m client \<Rightarrow> nat \<Rightarrow> 'm gate \<Rightarrow> request list \<Rightarrow> byte list \<Rightarrow>
    sb_state \<times> (nat, 'm gate) memtext_parser \<times> nat \<times> 'm gate \<Rightarrow> bool" where
  "in_session cl fd w0 rs str hl \<longleftrightarrow> (case hl of (s, ctx, off, w) \<Rightarrow>
     \<exists>rs1 rs2 xs p. rs = rs1 @ rs2 \<and> str = texts rs1 @ p \<and> begun p rs2 \<and> list_all request_ok rs1
       \<and> sb_holds s xs \<and> off = length xs \<and> length xs \<le> length str \<and> parsing cl fd xs p ctx \<and> answered cl fd rs1 w0 w)"

text \<open>The handler when it has refused one of the requests \<open>rs\<close>.\<close>

definition refusing :: "'m client \<Rightarrow> nat \<Rightarrow> 'm gate \<Rightarrow> request list \<Rightarrow> byte list \<Rightarrow>
    sb_state \<times> (nat, 'm gate) memtext_parser \<times> nat \<times> 'm gate \<Rightarrow> bool" where
  "refusing cl fd w0 rs str hl \<longleftrightarrow> (case hl of (s, ctx, off, w) \<Rightarrow>
     \<exists>good bad more tail. rs = good @ bad # more \<and> str = texts good @ request_text bad @ tail
       \<and> list_all request_ok good \<and> \<not> request_ok bad \<and> answered cl fd good w0 w)"

lemma parsing_finished:
  "parsing cl fd xs [] c \<Longrightarrow> mt_cs c = S_final \<Longrightarrow> parsing cl fd [] [] c"
  by (auto simp: parsing_def ready_def mt_inv_def)

lemma in_sessionI:
  assumes "rs = rs1 @ rs2" and "str = texts rs1 @ p" and "begun p rs2" and "list_all request_ok rs1"
    and "sb_holds s xs" and "off = length xs"
    and "length xs \<le> length str" and "parsing cl fd xs p ctx" and "answered cl fd rs1 w0 w"
  shows "in_session cl fd w0 rs str (s, ctx, off, w)"
  unfolding in_session_def prod.case using assms by blast

lemma in_session_reserved:
  assumes "in_session cl fd w0 rs str (s, ctx, off, w)" and "sb_fits grants s n" and "sb_reserve grants vec_ok s n = Done s1"
  shows "in_session cl fd w0 rs str (s1, ctx, off, w)"
proof -
  obtain rs1 rs2 xs p where in1: "rs = rs1 @ rs2" "str = texts rs1 @ p" "begun p rs2" "list_all request_ok rs1"
    "sb_holds s xs" "off = length xs" "length xs \<le> length str" "parsing cl fd xs p ctx" "answered cl fd rs1 w0 w"
    using assms(1) by (auto simp: in_session_def)
  have "sb_holds s1 xs" using sb.reserve_holds [OF in1(5) assms(2), of vec_ok] assms(3) by simp
  from in_sessionI [OF in1(1-4) this in1(6-9)] show ?thesis .
qed

text \<open>The loop on the bytes \<open>ys\<close> that were received behind \<open>xs\<close>.\<close>

lemma in_session_loop:
  assumes split: "rs = rs1 @ rs2" "str = texts rs1 @ p" "list_all request_ok rs1"
    and xs: "length xs \<le> length str" "parsing cl fd xs p ctx" and ans: "answered cl fd rs1 w0 w"
    and rs: "texts rs = str @ ys @ zs" "list_all well_formed rs" "length (texts rs) < 2 ^ 32"
      "all_in_place cl rs (g_mc w0)" and ys: "ys \<noteq> []"
    and s: "sb_holds s (xs @ ys)"
  shows "\<exists>r. memtext_loop sb_load sb_save take_off (sb_addr place) (\<lambda>base w. w\<lparr>g_base := base\<rparr>) s ctx (length xs) w
      = Some r \<and> (case r of Keep h' \<Rightarrow> in_session cl fd w0 rs (str @ ys) h'
        | Closed h' \<Rightarrow> refusing cl fd w0 rs (str @ ys) h' | Event_fault \<Rightarrow> False)"
proof -
  let ?w = "w\<lparr>g_base := sb_addr place s\<rparr>"
  have next_rs: "texts rs2 = (p @ ys) @ zs" "list_all well_formed rs2" using rs(1,2) split by simp_all
  have len: "length (xs @ ys @ zs) < 2 ^ 32" using rs(1,3) xs(1) by simp
  have w: "grants_all ?w" "g_base ?w = sb_addr place s" "all_in_place cl rs2 (g_mc ?w)"
    using ans rs(4) split(1,3) by (simp_all add: answered_def grants_all_def all_in_place_append)
  have later: "answered cl fd (rs1 @ gs) w0 w'" if "answered cl fd gs ?w w'" for gs w'
    by (rule answered_append [OF ans]) (use that in \<open>simp add: answered_rebase\<close>)
  show ?thesis
  proof (cases rule: memtext_execute_feeds [OF xs(2) ys next_rs len w])
    case feed: (1 rs3 rs4 p' c b w')
    note ans' = later [OF feed(9)]
    note last = sbp.memtext_loop_last_round [where addr = "sb_addr place" and enter = "\<lambda>base w. w\<lparr>g_base := base\<rparr>"
        and w = w, OF s feed(6,5)]
    have eqs: "rs = (rs1 @ rs3) @ rs4" "str @ ys = texts (rs1 @ rs3) @ p'" using split feed(1,2) by simp_all
    have ok: "list_all request_ok (rs1 @ rs3)" using split(3) feed(4) by simp
    have longer: "length b \<le> length (str @ ys)" "length (xs @ ys) = length b" using xs(1) feed(6) by simp_all
    show ?thesis
    proof (cases "p' = []")
      case True
      have "parsing cl fd [] [] c" using parsing_finished feed(7,8) True by simp
      from in_sessionI [OF eqs feed(3) ok last(4) _ _ _ ans'] this True last(2) show ?thesis by simp
    next
      case False
      with in_sessionI [OF eqs feed(3) ok last(3) longer(2,1) feed(7) ans'] last(1) show ?thesis by simp
    qed
  next
    case bad: (2 good bad more tail q c b w')
    have "refusing cl fd w0 rs (str @ ys) (sb_save s b, c, q, w')"
      unfolding refusing_def prod.case
      by (rule exI [of _ "rs1 @ good"], rule exI [of _ bad], rule exI [of _ more], rule exI [of _ tail])
        (use split bad(1-4) later [OF bad(6)] in simp)
    with sbp.memtext_loop_fails [where addr = "sb_addr place" and enter = "\<lambda>base w. w\<lparr>g_base := base\<rparr>"
        and w = w, OF s bad(5)] show ?thesis by simp
  qed
qed

lemma in_session_event:
  assumes "in_session cl fd w0 rs str (s, ctx, off, w)"
    and rs: "texts rs = str @ ys @ zs" "list_all well_formed rs" "length (texts rs) < 2 ^ 32"
      "all_in_place cl rs (g_mc w0)"
    and ev: "sb_fits grants s MEMTEXT_RESERVE_SIZE" "sbp.read_ok grants vec_ok s MEMTEXT_RESERVE_SIZE (Got ys)" "ys \<noteq> []"
  shows "(\<exists>r. sb_memtext_event grants vec_ok place (Got ys) (s, ctx, off, w) = Some r
      \<and> (case r of Keep h' \<Rightarrow> in_session cl fd w0 rs (str @ ys) h'
         | Closed h' \<Rightarrow> refusing cl fd w0 rs (str @ ys) h' | Event_fault \<Rightarrow> False))
    \<or> (\<exists>s1. sb_reserve grants vec_ok s MEMTEXT_RESERVE_SIZE = Throw s1)"
proof -
  obtain rs1 rs2 xs p where in1: "rs = rs1 @ rs2" "str = texts rs1 @ p" "begun p rs2" "list_all request_ok rs1"
    "sb_holds s xs" "off = length xs" "length xs \<le> length str" "parsing cl fd xs p ctx" "answered cl fd rs1 w0 w"
    using assms(1) by (auto simp: in_session_def)
  from sb.reserve_holds [OF in1(5) ev(1), of vec_ok] show ?thesis
  proof
    assume "\<exists>s'. sb_reserve grants vec_ok s MEMTEXT_RESERVE_SIZE = Done s' \<and> sb_holds s' xs
      \<and> MEMTEXT_RESERVE_SIZE \<le> sb_room s'"
    then obtain s1 where s1: "sb_reserve grants vec_ok s MEMTEXT_RESERVE_SIZE = Done s1" "sb_holds s1 xs" by blast
    have "length ys \<le> sb_room s1" using ev(2) s1(1) by (simp add: sbp.read_ok_def)
    with sb.fill_holds [OF s1(2), of ys] obtain s2 where s2: "fill s1 ys = Some s2" "sb_holds s2 (xs @ ys)" by blast
    have "sb_memtext_event grants vec_ok place (Got ys) (s, ctx, off, w)
      = memtext_loop sb_load sb_save take_off (sb_addr place) (\<lambda>base w. w\<lparr>g_base := base\<rparr>) s2 ctx (length xs) w"
      using s1 s2 in1(6) by (simp add: sb_memtext_event_def memtext_read_event_def receive_def)
    with in_session_loop [OF in1(1,2,4,7-9) rs ev(3) s2(2), of place] show ?thesis by simp
  qed blast
qed

text \<open>When all requests are served, the connection stays open.\<close>

lemma in_session_serves:
  assumes "in_session cl fd w0 rs str (s, ctx, off, w)"
    and rs: "texts rs = str @ ys @ zs" "list_all request_ok rs" "length (texts rs) < 2 ^ 32"
      "all_in_place cl rs (g_mc w0)"
    and ev: "sb_fits grants s MEMTEXT_RESERVE_SIZE" "sbp.read_ok grants vec_ok s MEMTEXT_RESERVE_SIZE (Got ys)" "ys \<noteq> []"
  shows "(\<exists>h'. sb_memtext_event grants vec_ok place (Got ys) (s, ctx, off, w) = Some (Keep h')
      \<and> in_session cl fd w0 rs (str @ ys) h')
    \<or> (\<exists>s1. sb_reserve grants vec_ok s MEMTEXT_RESERVE_SIZE = Throw s1)"
proof -
  have never: "\<not> refusing cl fd w0 rs (str @ ys) h'" for h' using rs(2) by (auto simp: refusing_def)
  have "\<exists>h'. r = Keep h' \<and> in_session cl fd w0 rs (str @ ys) h'"
    if "case r of Keep h' \<Rightarrow> in_session cl fd w0 rs (str @ ys) h'
      | Closed h' \<Rightarrow> refusing cl fd w0 rs (str @ ys) h' | Event_fault \<Rightarrow> False" for r
    using that never by (cases r) auto
  with in_session_event [OF assms(1) rs(1) requests_ok_well_formed [OF rs(2)] rs(3,4) ev, of place]
  show ?thesis by blast
qed

lemma memtext_stream_session:
  assumes "allocator_ok grants" and w0: "grants_all w0"
    and rs: "list_all well_formed rs" "length (texts rs) < 2 ^ 32" "all_in_place cl rs (g_mc w0)"
  shows "memtext_stream grants vec_ok place cl fd w0 str hl \<Longrightarrow> texts rs = str @ zs \<Longrightarrow> in_session cl fd w0 rs str hl"
proof (induction arbitrary: zs rule: memtext_stream.induct)
  case (accept h s)
  have "ready cl fd 0 (memtext_init (gate_callbacks cl) fd)"
    by (simp add: ready_def mt_inv_init) (simp add: memtext_init_def)
  then have "parsing cl fd [] [] (memtext_init (gate_callbacks cl) fd)" using parsing_done [of cl fd "[]"] by simp
  with stream_buffer_init_holds(1) [OF accept(1) assms(1) accept(2)] answered_Nil [OF w0]
  show ?case unfolding memtext_handler_def by (intro in_sessionI [of rs "[]" rs]) (simp_all add: begun_def)
next
  case (event str h inp h')
  obtain s ctx off w where h: "h = (s, ctx, off, w)" by (cases h)
  have sofar: "in_session cl fd w0 rs str (s, ctx, off, w)"
    using event.IH [of "bytes_in inp @ zs"] event.prems h by simp
  show ?case
  proof (cases inp)
    case (Got ys)
    from event.prems Got have "texts rs = str @ ys @ zs" by simp
    from in_session_event [OF sofar this rs, of grants vec_ok place] event.hyps Got h show ?thesis
      by (auto simp: sb_memtext_event_def memtext_read_event_def receive_def)
  next
    case Again
    with event.hyps h obtain s1 where "sb_reserve grants vec_ok s MEMTEXT_RESERVE_SIZE = Done s1" "h' = (s1, ctx, off, w)"
      by (auto simp: sb_memtext_event_def memtext_read_event_def receive_def split: outcome.splits)
    with in_session_reserved [OF sofar] event.hyps(2) h Again show ?thesis by simp
  qed (use event.hyps h in \<open>auto simp: sb_memtext_event_def memtext_read_event_def receive_def split: outcome.splits\<close>)
qed

text \<open>
  C1. Sessions of the text gate. A client sends \<open>get\<close> and \<open>gets\<close> of up to 256 keys, \<open>set\<close> and \<open>delete\<close>
  commands one behind the other, and the bytes arrive in pieces cut anywhere. When libmemcached returns for a
  get of several keys none that is longer than the one requested in its place, then, after the event that takes \<open>ys\<close>, the
  connection is still open; the requests that are complete by then have been served by libmemcached
  once each and in order, and the client has been sent their replies, one after the other, and
  nothing else; the unfinished rest of the stream waits for the next event. The only other outcome
  is that the buffer has no memory for the read.
\<close>

theorem gate_session:
  assumes "allocator_ok grants" and "grants_all w0" and "memtext_stream grants vec_ok place cl fd w0 str (s, ctx, off, w)"
    and "list_all request_ok rs" and "texts rs = str @ ys @ zs" and "length (texts rs) < 2 ^ 32" and "ys \<noteq> []"
    and "all_in_place cl rs (g_mc w0)"
    and "sb_fits grants s MEMTEXT_RESERVE_SIZE" and "sbp.read_ok grants vec_ok s MEMTEXT_RESERVE_SIZE (Got ys)"
  shows "(\<exists>s' ctx' off' w' served rest p.
      sb_memtext_event grants vec_ok place (Got ys) (s, ctx, off, w) = Some (Keep (s', ctx', off', w'))
      \<and> rs = served @ rest \<and> str @ ys = texts served @ p \<and> begun p rest
      \<and> g_mc w' = snd (serve_all cl served (g_mc w0))
      \<and> sent_to fd w' = sent_to fd w0 @ fst (serve_all cl served (g_mc w0))
      \<and> (\<forall>x. x \<noteq> fd \<longrightarrow> sent_to x w' = sent_to x w0))
    \<or> (\<exists>s1. sb_reserve grants vec_ok s MEMTEXT_RESERVE_SIZE = Throw s1)"
proof -
  have t: "texts rs = str @ (ys @ zs)" using assms(5) by simp
  note sofar = memtext_stream_session [OF assms(1,2) requests_ok_well_formed [OF assms(4)] assms(6,8,3) t]
  from in_session_serves [OF sofar assms(5,4,6,8-10,7), of place] show ?thesis
    by (auto simp: in_session_def answered_def) (metis (no_types, lifting))+
qed

text \<open>The first request that is not served is where an open connection has to stop, and a closed one stopped.\<close>

lemma first_refused:
  assumes "good @ bad # others = good' @ bad' # others'" and "list_all P good" and "\<not> P bad"
    and "list_all P good'" and "\<not> P bad'"
  shows "good' = good \<and> bad' = bad"
  using assms(1,2,4)
proof (induction good arbitrary: good')
  case Nil
  with assms(3) show ?case by (cases good') auto
next
  case (Cons g good)
  with assms(5) show ?case by (cases good') auto
qed

lemma prefix_served:
  assumes "good @ bad # others = rs1 @ rs2" and "list_all P rs1" and "\<not> P bad"
  obtains rest where "good = rs1 @ rest" and "rs2 = rest @ bad # others"
  using assms by (auto simp: append_eq_append_conv2 Cons_eq_append_conv)

lemma in_session_short:
  assumes "\<not> request_ok bad" and "in_session cl fd w0 (good @ bad # others) str hl"
  shows "length str < length (texts (good @ [bad]))"
proof -
  obtain rs1 rs2 p where rs: "good @ bad # others = rs1 @ rs2" "str = texts rs1 @ p" "begun p rs2" "list_all request_ok rs1"
    using assms(2) by (cases hl) (auto simp: in_session_def)
  from prefix_served [OF rs(1,4) assms(1)] obtain rest where r: "good = rs1 @ rest" "rs2 = rest @ bad # others" .
  have "request_text bad \<noteq> []" using assms(1) by (cases bad) (auto simp: storage_text_def cas_text_def retrieval_text_def delete_text_def)
  then have "length p < length (texts (rest @ [bad]))"
    using rs(3) r(2) by (cases rest) (auto simp: begun_def)
  then show ?thesis using rs(2) r(1) by simp
qed

lemma refusing_first:
  assumes "list_all request_ok good" and "\<not> request_ok bad" and "refusing cl fd w0 (good @ bad # others) str (s, ctx, off, w)"
  shows "answered cl fd good w0 w"
proof -
  obtain good' bad' others' where "good @ bad # others = good' @ bad' # others'" "list_all request_ok good'" "\<not> request_ok bad'"
    "answered cl fd good' w0 w" using assms(3) by (auto simp: refusing_def)
  with first_refused [of good bad others good' bad' others' request_ok] assms(1,2) show ?thesis by auto
qed


definition demo_requests :: "request list" where
  "demo_requests = [Set_req (bytes_of ''k'') 0 0 (bytes_of ''vv'') False, Get_req False [bytes_of ''k'', bytes_of ''m''],
     Delete_req (bytes_of ''x'') None False]"

definition demo_piece :: "byte list" where
  "demo_piece = bytes_of (''set k 0 0 2'' @ CRLF @ ''vv'' @ CRLF @ ''get k m'' @ CRLF @ ''delet'')"

lemma demo_whole:
  "list_all request_ok demo_requests" "length (texts demo_requests) < 2 ^ 32"
  "texts demo_requests = demo_piece @ bytes_of (''e x'' @ CRLF)" "length demo_piece = 31" "demo_piece \<noteq> []"
  "all_in_place demo_client demo_requests m"
proof -
  have "key_text (bytes_of ''k'')" "key_text (bytes_of ''m'')" "key_text (bytes_of ''x'')" by code_simp+
  then show "list_all request_ok demo_requests" by (simp add: demo_requests_def exptime_ok_def)
  have "length (texts demo_requests) = 36" by code_simp
  then show "length (texts demo_requests) < 2 ^ 32" by simp
  show "texts demo_requests = demo_piece @ bytes_of (''e x'' @ CRLF)" by code_simp
  show "length demo_piece = 31" "demo_piece \<noteq> []" by code_simp+
  show "all_in_place demo_client demo_requests m" by (simp add: demo_requests_def demo_client_def)
qed

theorem gate_session_witness:
  "\<exists>s h'. sb_memtext_event Stream_Buffer.granting True (\<lambda>_. 4096) (Got demo_piece)
     (memtext_handler demo_client 3 s demo_gate) = Some (Keep h')
   \<and> (\<exists>served p. demo_piece = texts served @ p \<and>
       sent_to 3 (snd (snd (snd h'))) = fst (serve_all demo_client served ()))"
proof -
  obtain s where s: "stream_buffer_init Stream_Buffer.granting no_heap MEMTEXT_INITIAL_ALLOCATION_SIZE = Some s"
    "sb_holds s []" "sb_fits Stream_Buffer.granting s MEMTEXT_RESERVE_SIZE"
    "\<And>ys. length ys \<le> MEMTEXT_RESERVE_SIZE \<Longrightarrow>
      sbp.read_ok Stream_Buffer.granting True s MEMTEXT_RESERVE_SIZE (Got ys)"
    by (rule new_buffer [of MEMTEXT_INITIAL_ALLOCATION_SIZE MEMTEXT_RESERVE_SIZE])
      (auto simp: MEMTEXT_INITIAL_ALLOCATION_SIZE_def MEMTEXT_RESERVE_SIZE_def)
  have "heap_ok no_heap" by (simp add: no_heap_def heap_ok_def)
  note reach = memtext_stream.accept [OF this s(1), of True "\<lambda>_. 4096" demo_client 3 demo_gate,
      unfolded memtext_handler_def]
  have "\<exists>s1. sb_reserve Stream_Buffer.granting True s MEMTEXT_RESERVE_SIZE = Done s1"
    by (rule new_buffer_reserves [OF s(1)]) (simp_all add: MEMTEXT_INITIAL_ALLOCATION_SIZE_def MEMTEXT_RESERVE_SIZE_def)
  then have room: "\<nexists>s1. sb_reserve Stream_Buffer.granting True s MEMTEXT_RESERVE_SIZE = Throw s1" by auto
  have granted: "grants_all demo_gate" "g_mc demo_gate = ()" "sent_to 3 demo_gate = []"
    by (simp_all add: grants_all_def demo_gate_def sent_to_def)
  have whole: "texts demo_requests = [] @ demo_piece @ bytes_of (''e x'' @ CRLF)" by (simp add: demo_whole)
  have "sbp.read_ok Stream_Buffer.granting True s MEMTEXT_RESERVE_SIZE (Got demo_piece)"
    by (rule s(4)) (simp add: demo_whole MEMTEXT_RESERVE_SIZE_def)
  from gate_session [OF granting_ok granted(1) reach demo_whole(1) whole demo_whole(2,5,6) s(3) this] room granted(2,3)
  obtain s' ctx' off' w' served p where
    "sb_memtext_event Stream_Buffer.granting True (\<lambda>_. 4096) (Got demo_piece)
       (s, memtext_init (gate_callbacks demo_client) 3, 0, demo_gate) = Some (Keep (s', ctx', off', w'))"
    "demo_piece = texts served @ p" "sent_to 3 w' = fst (serve_all demo_client served ())" by auto
  then show ?thesis unfolding memtext_handler_def
    by (intro exI [of _ s] exI [of _ "(s', ctx', off', w')"]) auto
qed

text \<open>A deletion, an \<open>add\<close>, which is refused, and a \<open>get\<close> behind it.\<close>

definition demo_refused_text :: "byte list" where
  "demo_refused_text = bytes_of (''delete x'' @ CRLF @ ''add k 0 0 2'' @ CRLF @ ''vv'' @ CRLF @ ''get k'' @ CRLF)"


end
