(* ===== verification/Wavy_Out.thy ===== *)
theory Wavy_Out
  imports Wavy_Port Interfaces
begin

text \<open>
  \<^verbatim>\<open>src/mpsrc/wavy_out.cc\<close> and \<open>core::xfer\<close> of \<^verbatim>\<open>src/mp/wavy/core.pre.h\<close>: the output queues of
  the event loop. A transfer buffer is a packed sequence of items: vectors of memory ranges,
  ranges of a file, and finalizers. \<open>execute\<close> hands items to the kernel until one is not taken
  whole; what is left is kept per descriptor in \<open>out\<close>, whose port watches the descriptor for
  writability.

  The packed buffer is the list of its items with their sizes in bytes. A byte of output is known
  by its origin, an address or a file offset, so that a trace says which bytes were sent in which
  order and between which finalizers. The kernel is the parameter \<open>io\<close>. A buffer is guarded by the
  mutex of its descriptor in every operation; an operation is one transition.
\<close>

section \<open>Items\<close>

type_synonym iovec = "nat \<times> nat"

datatype xf_item =
    XF_IOVEC "iovec list"
  | XF_SENDFILE nat nat nat
  | XF_FINALIZE nat nat

datatype io_event = Mem_byte nat | File_byte nat nat | Finalized nat nat

fun iov_bytes :: "iovec list \<Rightarrow> io_event list" where
  "iov_bytes [] = []"
| "iov_bytes ((b, l) # vs) = map Mem_byte [b..<b + l] @ iov_bytes vs"

fun item_flat :: "xf_item \<Rightarrow> io_event list" where
  "item_flat (XF_IOVEC vec) = iov_bytes vec"
| "item_flat (XF_SENDFILE infd off len) = map (File_byte infd) [off..<off + len]"
| "item_flat (XF_FINALIZE fin user) = (if fin \<noteq> 0 then [Finalized fin user] else [])"

definition xf_flat :: "xf_item list \<Rightarrow> io_event list" where
  "xf_flat is = concat (map item_flat is)"

lemma xf_flat_simps [simp]:
  "xf_flat [] = []" "xf_flat (i # is) = item_flat i @ xf_flat is"
  "xf_flat (is @ js) = xf_flat is @ xf_flat js"
  by (simp_all add: xf_flat_def)

text \<open>Sizes: a 4-byte type before each item, \<open>struct iovec\<close> has 16 bytes.\<close>

definition sizeof_mem :: nat where "sizeof_mem = 4 + 16 * 1"
definition sizeof_iovec :: "nat \<Rightarrow> nat" where "sizeof_iovec veclen = 4 + 16 * veclen"
definition sizeof_sendfile :: nat where "sizeof_sendfile = 4 + 24"
definition sizeof_finalize :: nat where "sizeof_finalize = 4 + 16"

fun sizeof_item :: "xf_item \<Rightarrow> nat" where
  "sizeof_item (XF_IOVEC vec) = sizeof_iovec (length vec)"
| "sizeof_item (XF_SENDFILE _ _ _) = sizeof_sendfile"
| "sizeof_item (XF_FINALIZE _ _) = sizeof_finalize"

definition xf_size :: "xf_item list \<Rightarrow> nat" where
  "xf_size is = sum_list (map sizeof_item is)"

lemma xf_size_simps [simp]:
  "xf_size [] = 0" "xf_size (i # is) = sizeof_item i + xf_size is"
  "xf_size (is @ js) = xf_size is + xf_size js"
  by (simp_all add: xf_size_def)

lemma sizeof_item_pos [simp]: "0 < sizeof_item i"
  by (cases i) (simp_all add: sizeof_iovec_def sizeof_sendfile_def sizeof_finalize_def)

lemma xf_size_0 [simp]: "xf_size is = 0 \<longleftrightarrow> is = []"
  by (cases "is") (simp_all add: less_imp_neq [OF sizeof_item_pos, symmetric])

section \<open>Transfer buffers\<close>

text \<open>\<open>xf_head\<close> says whether \<open>m_head\<close> is allocated; \<open>m_tail - m_head\<close> is the size of the items.\<close>

record xfer =
  xf_head :: bool
  xf_items :: "xf_item list"
  xf_free :: nat

definition xfer_new :: xfer where
  "xfer_new = \<lparr>xf_head = False, xf_items = [], xf_free = 0\<rparr>"

definition xf_used :: "xfer \<Rightarrow> nat" where "xf_used x = xf_size (xf_items x)"

definition xfer_empty :: "xfer \<Rightarrow> bool" where "xfer_empty x \<longleftrightarrow> xf_used x = 0"

lemma xfer_empty_iff [simp]: "xfer_empty x \<longleftrightarrow> xf_items x = []"
  by (simp add: xfer_empty_def xf_used_def)

text \<open>\<open>grants n\<close> says that \<open>realloc\<close> finds \<open>n\<close> bytes.\<close>

definition xf_reserve :: "(nat \<Rightarrow> bool) \<Rightarrow> nat \<Rightarrow> xfer \<Rightarrow> xfer outcome" where
  "xf_reserve grants reqsz x =
    (let used = xf_used x;
         reqsz = sz_add reqsz used;
         nsize = sz_add (sz_mul (sz_add used (xf_free x)) 2) 72
     in case grow nsize reqsz of
          None \<Rightarrow> Diverge
        | Some nsize \<Rightarrow>
            if grants nsize then Done (x\<lparr>xf_head := True, xf_free := sz_sub nsize used\<rparr>)
            else Throw x)"

text \<open>The common shape of \<open>push_write\<close>, \<open>push_writev\<close>, \<open>push_sendfile\<close>, \<open>push_finalize\<close>.\<close>

definition push_item :: "(nat \<Rightarrow> bool) \<Rightarrow> xf_item \<Rightarrow> xfer \<Rightarrow> xfer outcome" where
  "push_item grants i x =
    (let sz = sizeof_item i in
     and_then (if xf_free x < sz then xf_reserve grants sz x else Done x)
       (\<lambda>x. Done (x\<lparr>xf_items := xf_items x @ [i], xf_free := sz_sub (xf_free x) sz\<rparr>)))"

definition push_write :: "(nat \<Rightarrow> bool) \<Rightarrow> nat \<Rightarrow> nat \<Rightarrow> xfer \<Rightarrow> xfer outcome" where
  "push_write grants buf sz x = push_item grants (XF_IOVEC [(buf, sz)]) x"

definition push_writev :: "(nat \<Rightarrow> bool) \<Rightarrow> iovec list \<Rightarrow> xfer \<Rightarrow> xfer outcome" where
  "push_writev grants vec x = push_item grants (XF_IOVEC vec) x"

definition push_sendfile :: "(nat \<Rightarrow> bool) \<Rightarrow> nat \<Rightarrow> nat \<Rightarrow> nat \<Rightarrow> xfer \<Rightarrow> xfer outcome" where
  "push_sendfile grants infd off len x = push_item grants (XF_SENDFILE infd off len) x"

definition push_finalize :: "(nat \<Rightarrow> bool) \<Rightarrow> nat \<Rightarrow> nat \<Rightarrow> xfer \<Rightarrow> xfer outcome" where
  "push_finalize grants fin user x = push_item grants (XF_FINALIZE fin user) x"

definition push_xfraw :: "(nat \<Rightarrow> bool) \<Rightarrow> xf_item list \<Rightarrow> xfer \<Rightarrow> xfer outcome" where
  "push_xfraw grants is x =
    (let sz = xf_size is in
     and_then (if xf_free x < sz then xf_reserve grants sz x else Done x)
       (\<lambda>x. Done (x\<lparr>xf_items := xf_items x @ is, xf_free := sz_sub (xf_free x) sz\<rparr>)))"

text \<open>\<open>migrate\<close>: the pair is the source and the target.\<close>

definition migrate :: "(nat \<Rightarrow> bool) \<Rightarrow> xfer \<Rightarrow> xfer \<Rightarrow> (xfer \<times> xfer) outcome" where
  "migrate grants x to =
    (if \<not> xf_head to then Done (xfer_new, x)
     else
       let reqsz = xf_used x in
       case (if xf_free to < reqsz then xf_reserve grants reqsz to else Done to) of
         Done to \<Rightarrow>
           Done (x\<lparr>xf_items := [], xf_free := sz_add (xf_free x) reqsz\<rparr>,
                 to\<lparr>xf_items := xf_items to @ xf_items x, xf_free := sz_sub (xf_free to) reqsz\<rparr>)
       | Throw to \<Rightarrow> Throw (x, to)
       | Fault \<Rightarrow> Fault
       | Diverge \<Rightarrow> Diverge)"

text \<open>\<open>reset\<close> runs the finalizers that are left, and drops the rest.\<close>

definition xf_finalizers :: "xf_item list \<Rightarrow> io_event list" where
  "xf_finalizers is = concat (map (\<lambda>i. case i of XF_FINALIZE fin user \<Rightarrow> item_flat i | _ \<Rightarrow> []) is)"

definition xf_reset :: "xfer \<Rightarrow> io_event list \<times> xfer" where
  "xf_reset x = (xf_finalizers (xf_items x),
     x\<lparr>xf_items := [], xf_free := sz_add (xf_free x) (xf_used x)\<rparr>)"

text \<open>The destructor: what is left is reset before the memory is freed.\<close>

definition xfer_destroy :: "xfer \<Rightarrow> io_event list" where
  "xfer_destroy x = (if xf_head x then fst (xf_reset x) else [])"

section \<open>Writing\<close>

datatype errno = EAGAIN | EINTR | E_other
datatype sysres = Wrote nat | Failed errno

definition retry :: "errno \<Rightarrow> bool" where "retry e \<longleftrightarrow> e = EAGAIN \<or> e = EINTR"

record 'k sockets =
  sys_writev :: "nat \<Rightarrow> iovec list \<Rightarrow> 'k \<Rightarrow> sysres \<times> 'k"
  sys_sendfile :: "nat \<Rightarrow> nat \<Rightarrow> nat \<Rightarrow> nat \<Rightarrow> 'k \<Rightarrow> sysres \<times> 'k"
  sys_write :: "nat \<Rightarrow> nat \<Rightarrow> nat \<Rightarrow> 'k \<Rightarrow> sysres \<times> 'k"
  sys_shutdown :: "nat \<Rightarrow> 'k \<Rightarrow> 'k"
  sys_port :: "'k kernel"

text \<open>The vectors that are left after \<open>wl\<close> bytes, and the index of the first of them.\<close>

fun advance :: "nat \<Rightarrow> iovec list \<Rightarrow> nat \<Rightarrow> nat \<times> iovec list" where
  "advance i [] wl = (i, [])"
| "advance i ((b, l) # vs) wl =
    (if l \<le> wl then advance (i + 1) vs (wl - l) else (i, (b + wl, l - wl) # vs))"

definition emit :: "io_event list \<Rightarrow> (bool \<times> xf_item list \<times> io_event list \<times> 'k) option \<Rightarrow>
    (bool \<times> xf_item list \<times> io_event list \<times> 'k) option" where
  "emit tr r = map_option (\<lambda>(cont, rest, tr', k). (cont, rest, tr @ tr', k)) r"

text \<open>
  \<open>execute\<close> on Linux, with \<open>pos\<close> the distance of the current item from the head of the buffer. The
  result is the return value, the items left at the head, the trace and the kernel; \<open>None\<close> when the
  \<open>memcpy\<close> of \<open>fill_iovec\<close> is called on overlapping ranges, which C leaves undefined: the vectors
  that are left, \<open>16 * (veclen - i)\<close> bytes from \<open>p + 4 + 16 * i\<close> on, are copied to \<open>head + 4\<close>.
\<close>

fun execute :: "'k sockets \<Rightarrow> nat \<Rightarrow> nat \<Rightarrow> xf_item list \<Rightarrow> 'k \<Rightarrow>
    (bool \<times> xf_item list \<times> io_event list \<times> 'k) option" where
  "execute io fd pos [] k = Some (False, [], [], k)"
| "execute io fd pos (XF_SENDFILE infd off len # is) k =
    (case sys_sendfile io fd infd off len k of
       (Failed e, k') \<Rightarrow> Some (retry e, XF_SENDFILE infd off len # is, [], k')
     | (Wrote wl, k') \<Rightarrow>
         if wl = 0 then Some (False, XF_SENDFILE infd off len # is, [], k')
         else if wl < len then
           Some (True, XF_SENDFILE infd (off + wl) (len - wl) # is,
             take wl (item_flat (XF_SENDFILE infd off len)), k')
         else emit (item_flat (XF_SENDFILE infd off len)) (execute io fd (pos + sizeof_sendfile) is k'))"
| "execute io fd pos (XF_FINALIZE fin user # is) k =
    emit (item_flat (XF_FINALIZE fin user)) (execute io fd (pos + sizeof_finalize) is k)"
| "execute io fd pos (XF_IOVEC vec # is) k =
    (case sys_writev io fd vec k of
       (Failed e, k') \<Rightarrow> Some (retry e, XF_IOVEC vec # is, [], k')
     | (Wrote wl, k') \<Rightarrow>
         if wl = 0 then Some (False, XF_IOVEC vec # is, [], k')
         else (case advance 0 vec wl of (i, left) \<Rightarrow>
             if left = [] then
               emit (iov_bytes vec) (execute io fd (pos + sizeof_iovec (length vec)) is k')
             else if i \<noteq> 0 \<and> pos + 16 * i < 16 * length left then None
             else Some (True, XF_IOVEC left # is, take wl (iov_bytes vec), k')))"

text \<open>\<open>try_write\<close>: a hard error with items left shuts the receiving side down.\<close>

definition try_write :: "'k sockets \<Rightarrow> nat \<Rightarrow> xfer \<Rightarrow> 'k \<Rightarrow>
    (bool \<times> xfer \<times> io_event list \<times> 'k) option" where
  "try_write io fd x k =
    (case execute io fd 0 (xf_items x) k of
       None \<Rightarrow> None
     | Some (cont, rest, tr, k') \<Rightarrow>
         let x' = x\<lparr>xf_items := rest, xf_free := sz_sub (sz_add (xf_used x) (xf_free x)) (xf_size rest)\<rparr>
         in Some (cont, x', tr, if \<not> cont \<and> \<not> xfer_empty x' then sys_shutdown io fd k' else k'))"

section \<open>The output handler\<close>

text \<open>
  \<open>o_ctx\<close> is the array of the contexts with \<open>o_max\<close> elements, \<open>o_ep\<close> the descriptor of \<open>m_port\<close>.
  \<open>o_trace\<close> records per descriptor what was sent and finalized.
\<close>

record 'k out_state =
  o_ctx :: "nat \<Rightarrow> xfer"
  o_max :: nat
  o_ep :: c_int
  o_trace :: "nat \<Rightarrow> io_event list"
  o_kern :: 'k

definition out_new :: "nat \<Rightarrow> c_int \<Rightarrow> 'k \<Rightarrow> 'k out_state" where
  "out_new rlim ep k =
    \<lparr>o_ctx = (\<lambda>_. xfer_new), o_max = rlim, o_ep = ep, o_trace = (\<lambda>_. []), o_kern = k\<rparr>"

definition put_ctx :: "nat \<Rightarrow> xfer \<Rightarrow> io_event list \<Rightarrow> 'k \<Rightarrow> 'k out_state \<Rightarrow> 'k out_state" where
  "put_ctx fd x tr k s = s\<lparr>o_ctx := (o_ctx s)(fd := x),
     o_trace := (o_trace s)(fd := o_trace s fd @ tr), o_kern := k\<rparr>"

lemma put_ctx_simps [simp]:
  "o_ctx (put_ctx fd x tr k s) = (o_ctx s)(fd := x)" "o_max (put_ctx fd x tr k s) = o_max s"
  "o_ep (put_ctx fd x tr k s) = o_ep s" "o_kern (put_ctx fd x tr k s) = k"
  "o_trace (put_ctx fd x tr k s) = (o_trace s)(fd := o_trace s fd @ tr)"
  by (simp_all add: put_ctx_def)

definition watch :: "'k sockets \<Rightarrow> nat \<Rightarrow> 'k out_state \<Rightarrow> 'k out_state" where
  "watch io fd s =
    s\<lparr>o_kern := snd (add_fd (sys_port io) (o_ep s) (of_nat fd) EVPORT_WRITE (o_kern s))\<rparr>"

lemma watch_simps [simp]:
  "o_ctx (watch io fd s) = o_ctx s" "o_max (watch io fd s) = o_max s" "o_ep (watch io fd s) = o_ep s"
  "o_trace (watch io fd s) = o_trace s"
  by (simp_all add: watch_def)

definition write_event :: "'k sockets \<Rightarrow> uint64_t \<Rightarrow> 'k out_state \<Rightarrow> 'k out_state outcome" where
  "write_event io e s =
    (let ident = unat (event_ident e) in
     if o_max s \<le> ident then Fault
     else case try_write io ident (o_ctx s ident) (o_kern s) of
         None \<Rightarrow> Fault
       | Some (cont, x, tr, k) \<Rightarrow>
           if \<not> cont then
             let k' = snd (shot_remove (sys_port io) (o_ep s) e k); (fins, x') = xf_reset x
             in Done (put_ctx ident x' (tr @ fins) k' s)
           else
             Done (put_ctx ident x tr (snd (shot_reactivate (sys_port io) (o_ep s) e k)) s))"

text \<open>An allocation that fails in \<open>push_xfraw\<close>, \<open>migrate\<close> or \<open>push_write\<close> leaves the buffer as it was.\<close>

definition commit_raw ::
    "'k sockets \<Rightarrow> (nat \<Rightarrow> bool) \<Rightarrow> nat \<Rightarrow> xf_item list \<Rightarrow> 'k out_state \<Rightarrow> 'k out_state outcome" where
  "commit_raw io grants fd xfbuf s =
    (if o_max s \<le> fd then Fault
     else
       let ctx = o_ctx s fd in
       if \<not> xfer_empty ctx then
         (case push_xfraw grants xfbuf ctx of
            Done x \<Rightarrow> Done (put_ctx fd x [] (o_kern s) s)
          | Throw x \<Rightarrow> Throw s
          | Fault \<Rightarrow> Fault | Diverge \<Rightarrow> Diverge)
       else case execute io fd 0 xfbuf (o_kern s) of
           None \<Rightarrow> Fault
         | Some (cont, rest, tr, k) \<Rightarrow>
             let s1 = put_ctx fd ctx tr k s in
             if cont then
               (case push_xfraw grants rest ctx of
                  Done x \<Rightarrow> Done (watch io fd (put_ctx fd x [] k s1))
                | Throw x \<Rightarrow> Throw s1
                | Fault \<Rightarrow> Fault | Diverge \<Rightarrow> Diverge)
             else Done s1)"

text \<open>\<open>commit\<close>, on the transfer buffer of the caller and the state.\<close>

definition commit ::
    "'k sockets \<Rightarrow> (nat \<Rightarrow> bool) \<Rightarrow> nat \<Rightarrow> xfer \<times> 'k out_state \<Rightarrow> (xfer \<times> 'k out_state) outcome" where
  "commit io grants fd xs =
    (case xs of (xf, s) \<Rightarrow>
     if o_max s \<le> fd then Fault
     else
       let ctx = o_ctx s fd in
       if \<not> xfer_empty ctx then
         (case migrate grants xf ctx of
            Done (xf', x) \<Rightarrow> Done (xf', put_ctx fd x [] (o_kern s) s)
          | Throw _ \<Rightarrow> Throw (xf, s)
          | Fault \<Rightarrow> Fault | Diverge \<Rightarrow> Diverge)
       else case try_write io fd xf (o_kern s) of
           None \<Rightarrow> Fault
         | Some (cont, xf1, tr, k) \<Rightarrow>
             let s1 = put_ctx fd ctx tr k s in
             if cont then
               (case migrate grants xf1 ctx of
                  Done (xf', x) \<Rightarrow> Done (xf', watch io fd (put_ctx fd x [] k s1))
                | Throw _ \<Rightarrow> Throw (xf1, s1)
                | Fault \<Rightarrow> Fault | Diverge \<Rightarrow> Diverge)
             else Done (xf1, s1))"

definition out_write ::
    "'k sockets \<Rightarrow> (nat \<Rightarrow> bool) \<Rightarrow> nat \<Rightarrow> nat \<Rightarrow> nat \<Rightarrow> 'k out_state \<Rightarrow> 'k out_state outcome" where
  "out_write io grants fd buf sz s =
    (if o_max s \<le> fd then Fault
     else
       let ctx = o_ctx s fd;
           push = (\<lambda>buf sz tr k after.
             case push_write grants buf sz ctx of
               Done x \<Rightarrow> Done (after (put_ctx fd x tr k s))
             | Throw x \<Rightarrow> Throw (put_ctx fd ctx tr k s)
             | Fault \<Rightarrow> Fault | Diverge \<Rightarrow> Diverge)
       in
       if xfer_empty ctx then
         (case sys_write io fd buf sz (o_kern s) of
            (Failed e, k) \<Rightarrow>
              if retry e then push buf sz [] k (watch io fd)
              else Done (put_ctx fd ctx [] (sys_shutdown io fd k) s)
          | (Wrote wl, k) \<Rightarrow>
              if wl = 0 then Done (put_ctx fd ctx [] (sys_shutdown io fd k) s)
              else if sz \<le> wl then Done (put_ctx fd ctx (map Mem_byte [buf..<buf + sz]) k s)
              else push (buf + wl) (sz - wl) (map Mem_byte [buf..<buf + wl]) k (watch io fd))
       else push buf sz [] (o_kern s) id)"

text \<open>The entry points of \<open>core\<close>: a packed buffer of the parts and their finalizer.\<close>

definition core_write_items :: "nat \<Rightarrow> nat \<Rightarrow> nat \<Rightarrow> nat \<Rightarrow> xf_item list" where
  "core_write_items buf sz fin user = [XF_IOVEC [(buf, sz)], XF_FINALIZE fin user]"

definition core_writev_items :: "iovec list \<Rightarrow> nat \<Rightarrow> nat \<Rightarrow> xf_item list" where
  "core_writev_items vec fin user = [XF_IOVEC vec, XF_FINALIZE fin user]"

definition core_sendfile_items :: "nat \<Rightarrow> nat \<Rightarrow> nat \<Rightarrow> nat \<Rightarrow> nat \<Rightarrow> xf_item list" where
  "core_sendfile_items infd off sz fin user = [XF_SENDFILE infd off sz, XF_FINALIZE fin user]"

definition core_hsendfile_items ::
    "nat \<Rightarrow> nat \<Rightarrow> nat \<Rightarrow> nat \<Rightarrow> nat \<Rightarrow> nat \<Rightarrow> nat \<Rightarrow> xf_item list" where
  "core_hsendfile_items header header_size infd off sz fin user =
    [XF_IOVEC [(header, header_size)], XF_SENDFILE infd off sz, XF_FINALIZE fin user]"

definition core_hvsendfile_items ::
    "iovec list \<Rightarrow> nat \<Rightarrow> nat \<Rightarrow> nat \<Rightarrow> nat \<Rightarrow> nat \<Rightarrow> xf_item list" where
  "core_hvsendfile_items header_vec infd off sz fin user =
    [XF_IOVEC header_vec, XF_SENDFILE infd off sz, XF_FINALIZE fin user]"

definition core_write ::
    "'k sockets \<Rightarrow> (nat \<Rightarrow> bool) \<Rightarrow> nat \<Rightarrow> nat \<Rightarrow> nat \<Rightarrow> nat \<Rightarrow> nat \<Rightarrow> 'k out_state \<Rightarrow> 'k out_state outcome"
where
  "core_write io grants fd buf sz fin user = commit_raw io grants fd (core_write_items buf sz fin user)"

definition core_writev ::
    "'k sockets \<Rightarrow> (nat \<Rightarrow> bool) \<Rightarrow> nat \<Rightarrow> iovec list \<Rightarrow> nat \<Rightarrow> nat \<Rightarrow> 'k out_state \<Rightarrow> 'k out_state outcome"
where
  "core_writev io grants fd vec fin user = commit_raw io grants fd (core_writev_items vec fin user)"

section \<open>Conservation\<close>

lemma upt_split: "wl \<le> len \<Longrightarrow> [a..<a + wl] @ [a + wl..<a + len] = [a..<a + len]"
  using upt_add_eq_append [of a "a + wl" "len - wl"] by simp

lemma advance_flat: "iov_bytes (snd (advance i vs wl)) = drop wl (iov_bytes vs)"
  by (induction i vs wl rule: advance.induct) (auto simp: drop_map drop_upt)

lemma advance_left: "advance i vs wl = (j, left) \<Longrightarrow> iov_bytes left = drop wl (iov_bytes vs)"
  using advance_flat [of i vs wl] by simp

text \<open>Nothing is lost, repeated or reordered between the trace and what is left.\<close>

lemma execute_conserves:
  "execute io fd pos is k = Some (cont, rest, tr, k') \<Longrightarrow> tr @ xf_flat rest = xf_flat is"
proof (induction "is" arbitrary: pos k cont rest tr k')
  case Nil
  then show ?case by simp
next
  case (Cons i "is")
  show ?case
  proof (cases i)
    case (XF_IOVEC vec)
    with Cons show ?thesis
      by (auto simp: emit_def advance_left split: prod.splits sysres.splits if_splits)
  next
    case (XF_SENDFILE infd off len)
    with Cons show ?thesis
      by (auto simp: emit_def take_map take_upt map_append [symmetric] upt_split
          simp del: map_append split: prod.splits sysres.splits if_splits)
  next
    case (XF_FINALIZE fin user)
    with Cons show ?thesis by (auto simp: emit_def)
  qed
qed

text \<open>When it asks to be called again something is left; when all is taken nothing is.\<close>

lemma execute_cont:
  "execute io fd pos is k = Some (cont, rest, tr, k') \<Longrightarrow> cont \<Longrightarrow> rest \<noteq> []"
proof (induction "is" arbitrary: pos k cont rest tr k')
  case (Cons i "is")
  then show ?case
    by (cases i; auto simp: emit_def split: prod.splits sysres.splits if_splits; blast)
qed simp

text \<open>Undefined behaviour needs a vector that stops after its first entry but before its middle.\<close>

definition short_iovecs :: "xf_item list \<Rightarrow> bool" where
  "short_iovecs is = list_all (\<lambda>i. case i of XF_IOVEC vec \<Rightarrow> length vec \<le> 2 | _ \<Rightarrow> True) is"

lemma advance_length: "advance i vs wl = (j, left) \<Longrightarrow> j + length left = i + length vs"
  by (induction i vs wl rule: advance.induct) (auto split: if_splits)

lemma execute_defined:
  "short_iovecs is \<Longrightarrow> execute io fd pos is k \<noteq> None"
proof (induction "is" arbitrary: pos k)
  case (Cons i "is")
  then show ?case
    by (cases i;
      auto simp: emit_def short_iovecs_def split: prod.splits sysres.splits dest!: advance_length;
      blast)
qed simp

lemma execute_short_write:
  "execute io fd pos is k = Some (cont, rest, tr, k') \<Longrightarrow> short_iovecs is \<Longrightarrow> short_iovecs rest"
proof (induction "is" arbitrary: pos k cont rest tr k')
  case (Cons i "is")
  then show ?case
    by (cases i)
      (auto simp: emit_def short_iovecs_def split: prod.splits sysres.splits if_splits
        dest!: advance_length)
qed simp

text \<open>
  The overlapping copy. When the first vectors of a \<open>writev\<close> at the head of the buffer, at least
  one but less than half of them, are sent and the kernel takes no more, the \<open>memcpy\<close> that moves the
  others to the head is called on overlapping ranges.
\<close>

theorem partial_writev_overlaps:
  assumes "sys_writev io fd vec k = (Wrote wl, k')" and "advance 0 vec wl = (i, left)"
    and "wl \<noteq> 0" and "0 < i" and "2 * i < length vec"
  shows "execute io fd 0 (XF_IOVEC vec # is) k = None"
proof -
  have "i + length left = length vec" using advance_length [OF assms(2)] by simp
  with assms show ?thesis by auto
qed

section \<open>Buffer management\<close>

text \<open>The sizes stay far below the range of \<open>size_t\<close>, and free space is what the allocation left.\<close>

definition xf_inv :: "xfer \<Rightarrow> bool" where
  "xf_inv x \<longleftrightarrow> xf_used x + xf_free x < 2 ^ 62 \<and> (\<not> xf_head x \<longrightarrow> xf_items x = [] \<and> xf_free x = 0)"

definition moderate :: "(nat \<Rightarrow> bool) \<Rightarrow> bool" where
  "moderate grants \<longleftrightarrow> (\<forall>n. grants n \<longrightarrow> n < 2 ^ 62)"

lemma xfer_new_inv [simp]: "xf_inv xfer_new"
  by (simp add: xf_inv_def xfer_new_def xf_used_def)

lemma reserve_ok:
  assumes "xf_inv x" and "n < 2 ^ 62" and "moderate grants"
  shows "(\<exists>x'. xf_reserve grants n x = Done x' \<and> xf_inv x' \<and> n \<le> xf_free x' \<and> xf_head x'
           \<and> xf_items x' = xf_items x)
     \<or> xf_reserve grants n x = Throw x"
proof -
  let ?used = "xf_used x" let ?size = "(?used + xf_free x) * 2 + 72"
  from assms(1,2) have s: "?used + xf_free x < 2 ^ 62" "n + ?used < 2 ^ 63" "?size < 2 ^ 64"
    by (simp_all add: xf_inv_def)
  then obtain m where m: "grow ?size (n + ?used) = Some m" "n + ?used \<le> m" "?size \<le> m" "m < 2 ^ 64"
    using grow_terminates [of ?size "n + ?used"] by auto
  show ?thesis
  proof (cases "grants m")
    case True
    with assms(3) have "m < 2 ^ 62" by (simp add: moderate_def)
    with True m s show ?thesis by (simp add: xf_reserve_def Let_def xf_inv_def xf_used_def)
  next
    case False
    with m s show ?thesis by (simp add: xf_reserve_def Let_def)
  qed
qed

lemma push_xfraw_ok:
  assumes "xf_inv x" and "xf_size is < 2 ^ 62" and "moderate grants" and "is \<noteq> []"
  shows "(\<exists>x'. push_xfraw grants is x = Done x' \<and> xf_inv x' \<and> xf_items x' = xf_items x @ is)
     \<or> push_xfraw grants is x = Throw x"
proof (cases "xf_free x < xf_size is")
  case True
  from reserve_ok [OF assms(1,2,3)] show ?thesis
  proof
    assume "\<exists>x'. xf_reserve grants (xf_size is) x = Done x' \<and> xf_inv x' \<and> xf_size is \<le> xf_free x'
      \<and> xf_head x' \<and> xf_items x' = xf_items x"
    with True show ?thesis
      by (auto simp: push_xfraw_def Let_def xf_inv_def xf_used_def)
  next
    assume "xf_reserve grants (xf_size is) x = Throw x"
    with True show ?thesis by (simp add: push_xfraw_def Let_def)
  qed
next
  case False
  moreover have "xf_size is \<noteq> 0" using assms(4) by simp
  ultimately show ?thesis
    using assms(1) by (auto simp: push_xfraw_def Let_def xf_inv_def xf_used_def)
qed

lemma push_item_xfraw: "push_item grants i = push_xfraw grants [i]"
  by (rule ext) (simp add: push_item_def push_xfraw_def)

lemma migrate_ok:
  assumes "xf_inv x" and "xf_inv to" and "moderate grants" and "xf_items x \<noteq> []"
  shows "(\<exists>x' to'. migrate grants x to = Done (x', to') \<and> xf_inv x' \<and> xf_inv to'
         \<and> xf_items x' = [] \<and> xf_items to' = xf_items to @ xf_items x)
     \<or> migrate grants x to = Throw (x, to)"
proof (cases "xf_head to")
  case False
  with assms show ?thesis by (auto simp: migrate_def xf_inv_def xfer_new_def xf_used_def)
next
  case head: True
  have small: "xf_used x < 2 ^ 62" using assms(1) by (simp add: xf_inv_def)
  have used: "xf_used x + xf_free x < 2 ^ 64" using assms(1) by (simp add: xf_inv_def)
  have x': "xf_inv (x\<lparr>xf_items := [], xf_free := sz_add (xf_free x) (xf_used x)\<rparr>)"
    using assms(1,4) used by (auto simp: xf_inv_def xf_used_def add.commute)
  show ?thesis
  proof (cases "xf_free to < xf_used x")
    case True
    with reserve_ok [OF assms(2) small assms(3)] head x' show ?thesis
      by (auto simp: migrate_def Let_def xf_inv_def xf_used_def)
  next
    case False
    with head x' assms(2) show ?thesis
      by (auto simp: migrate_def Let_def xf_inv_def xf_used_def)
  qed
qed

section \<open>The invariant of the output handler\<close>

text \<open>
  What the kernel promises: \<open>interest k\<close> is the set of descriptors registered with the port of the
  handler; adding, re-arming and deleting act on it as documented, writing leaves it alone.
\<close>

definition port_keeps :: "'k sockets \<Rightarrow> c_int \<Rightarrow> ('k \<Rightarrow> nat set) \<Rightarrow> bool" where
  "port_keeps io ep interest \<longleftrightarrow>
     (\<forall>fd ev k. fd < 2 ^ 31 \<longrightarrow>
        interest (snd (epoll_ctl (sys_port io) ep EPOLL_CTL_ADD (of_nat fd) (Some ev) k)) = insert fd (interest k)
      \<and> interest (snd (epoll_ctl (sys_port io) ep EPOLL_CTL_MOD (of_nat fd) (Some ev) k)) = interest k
      \<and> interest (snd (epoll_ctl (sys_port io) ep EPOLL_CTL_DEL (of_nat fd) None k)) = interest k - {fd})
   \<and> (\<forall>fd vec k. interest (snd (sys_writev io fd vec k)) = interest k)
   \<and> (\<forall>fd infd off len k. interest (snd (sys_sendfile io fd infd off len k)) = interest k)
   \<and> (\<forall>fd buf sz k. interest (snd (sys_write io fd buf sz k)) = interest k)
   \<and> (\<forall>fd k. interest (sys_shutdown io fd k) = interest k)"

lemma port_keepsD:
  assumes "port_keeps io ep interest"
  shows "interest (snd (sys_writev io fd vec k)) = interest k"
    and "interest (snd (sys_sendfile io fd infd off len k)) = interest k"
    and "interest (snd (sys_write io fd buf sz k)) = interest k"
    and "interest (sys_shutdown io fd k) = interest k"
    and "fd < 2 ^ 31 \<Longrightarrow>
      interest (snd (add_fd (sys_port io) ep (of_nat fd) events k)) = insert fd (interest k)"
    and "unat (event_ident e) < 2 ^ 31 \<Longrightarrow>
      interest (snd (shot_reactivate (sys_port io) ep e k)) = interest k"
    and "unat (event_ident e) < 2 ^ 31 \<Longrightarrow>
      interest (snd (shot_remove (sys_port io) ep e k)) = interest k - {unat (event_ident e)}"
proof -
  have ctl: "interest (snd (epoll_ctl (sys_port io) ep EPOLL_CTL_ADD (of_nat fd) (Some ev) k)) = insert fd (interest k)
      \<and> interest (snd (epoll_ctl (sys_port io) ep EPOLL_CTL_MOD (of_nat fd) (Some ev) k)) = interest k
      \<and> interest (snd (epoll_ctl (sys_port io) ep EPOLL_CTL_DEL (of_nat fd) None k)) = interest k - {fd}"
    if "fd < 2 ^ 31" for fd ev k
    by (rule assms [unfolded port_keeps_def, THEN conjunct1, rule_format, OF that])
  show "interest (snd (sys_writev io fd vec k)) = interest k"
    "interest (snd (sys_sendfile io fd infd off len k)) = interest k"
    "interest (snd (sys_write io fd buf sz k)) = interest k"
    "interest (sys_shutdown io fd k) = interest k"
    by (simp_all only: assms [unfolded port_keeps_def])
  show "interest (snd (add_fd (sys_port io) ep (of_nat fd) events k)) = insert fd (interest k)"
    if "fd < 2 ^ 31"
    using ctl [OF that] by (simp add: add_fd_def Let_def)
  show "interest (snd (shot_reactivate (sys_port io) ep e k)) = interest k"
    if "unat (event_ident e) < 2 ^ 31"
    using ctl [OF that] by (simp add: shot_reactivate_def)
  show "interest (snd (shot_remove (sys_port io) ep e k)) = interest k - {unat (event_ident e)}"
    if "unat (event_ident e) < 2 ^ 31"
    using ctl [OF that] by (simp add: shot_remove_def)
qed

definition out_inv :: "'k sockets \<Rightarrow> ('k \<Rightarrow> nat set) \<Rightarrow> 'k out_state \<Rightarrow> bool" where
  "out_inv io interest s \<longleftrightarrow> o_max s \<le> 2 ^ 31 \<and> port_keeps io (o_ep s) interest
     \<and> (\<forall>fd. xf_inv (o_ctx s fd))
     \<and> (\<forall>fd < o_max s. fd \<in> interest (o_kern s) \<longleftrightarrow> xf_items (o_ctx s fd) \<noteq> [])"

lemma execute_interest:
  "port_keeps io ep interest \<Longrightarrow> execute io fd pos is k = Some (cont, rest, tr, k') \<Longrightarrow>
   interest k' = interest k"
proof (induction "is" arbitrary: pos k cont rest tr k')
  case (Cons i "is")
  have w: "interest (snd (sys_writev io fd vec k)) = interest k"
    and f: "interest (snd (sys_sendfile io fd infd off len k)) = interest k" for fd vec k infd off len
    by (rule port_keepsD [OF Cons.prems(1)])+
  show ?case
  proof (cases i)
    case (XF_IOVEC vec)
    with Cons w [of fd vec k] show ?thesis
      by (auto simp: emit_def split: prod.splits sysres.splits if_splits)
  next
    case (XF_SENDFILE infd off len)
    with Cons f [of fd infd off len k] show ?thesis
      by (auto simp: emit_def split: prod.splits sysres.splits if_splits)
  next
    case (XF_FINALIZE fin user)
    with Cons show ?thesis by (auto simp: emit_def)
  qed
qed simp

text \<open>What is left is never more than what was there.\<close>

lemma execute_size:
  "execute io fd pos is k = Some (cont, rest, tr, k') \<Longrightarrow> xf_size rest \<le> xf_size is"
proof (induction "is" arbitrary: pos k cont rest tr k')
  case (Cons i "is")
  have IH: "xf_size rest \<le> sizeof_item i + xf_size is"
    if "execute io fd pos is k = Some (cont, rest, tr, k')" for pos k cont rest tr k'
    using Cons.IH [OF that] by simp
  show ?case
    using Cons.prems
    by (cases i)
      (auto simp: emit_def sizeof_iovec_def sizeof_sendfile_def split: prod.splits sysres.splits if_splits
        dest!: advance_length IH [simplified])
qed simp

lemma try_write_ok:
  assumes "xf_inv x" and "try_write io fd x k = Some (cont, x', tr, k')"
  shows "xf_inv x'" and "tr @ xf_flat (xf_items x') = xf_flat (xf_items x)"
    and "cont \<Longrightarrow> xf_items x' \<noteq> []"
    and "port_keeps io ep interest \<Longrightarrow> interest k' = interest k"
proof -
  obtain rest k1 where e: "execute io fd 0 (xf_items x) k = Some (cont, rest, tr, k1)"
    and x': "xf_items x' = rest" "xf_head x' = xf_head x"
      "xf_free x' = sz_sub (sz_add (xf_used x) (xf_free x)) (xf_size rest)"
    and k': "k' = k1 \<or> k' = sys_shutdown io fd k1"
    using assms(2) by (auto simp: try_write_def Let_def split: option.splits if_splits)
  have "xf_size rest \<le> xf_used x" using execute_size [OF e] by (simp add: xf_used_def)
  moreover have "rest = []" if "xf_items x = []" using e that by simp
  ultimately show "xf_inv x'"
    using x' assms(1) by (auto simp: xf_inv_def xf_used_def)
  show "tr @ xf_flat (xf_items x') = xf_flat (xf_items x)"
    using execute_conserves [OF e] x' by simp
  show "cont \<Longrightarrow> xf_items x' \<noteq> []" using execute_cont [OF e] x' by simp
  show "port_keeps io ep interest \<Longrightarrow> interest k' = interest k"
    using execute_interest [OF _ e] k' port_keepsD(4) by metis
qed

text \<open>Everything handed over for a descriptor: what was sent and run, then what waits.\<close>

definition queued :: "'k out_state \<Rightarrow> nat \<Rightarrow> io_event list" where
  "queued s fd = o_trace s fd @ xf_flat (xf_items (o_ctx s fd))"

definition same_elsewhere :: "nat \<Rightarrow> 'k out_state \<Rightarrow> 'k out_state \<Rightarrow> bool" where
  "same_elsewhere fd s s' \<longleftrightarrow> (\<forall>g. g \<noteq> fd \<longrightarrow> o_ctx s' g = o_ctx s g \<and> o_trace s' g = o_trace s g)"

lemma same_elsewhere_put [simp]: "same_elsewhere fd s (put_ctx fd x tr k s)"
  by (simp add: same_elsewhere_def)

lemma same_elsewhere_watch [simp]: "same_elsewhere fd s (watch io fd s') \<longleftrightarrow> same_elsewhere fd s s'"
  by (simp add: same_elsewhere_def)

text \<open>The three ways a handler leaves a descriptor.\<close>

lemma out_inv_put:
  assumes "out_inv io interest s" and "xf_inv x"
    and "\<And>g. g < o_max s \<Longrightarrow> g \<in> interest k \<longleftrightarrow> xf_items (if g = fd then x else o_ctx s g) \<noteq> []"
  shows "out_inv io interest (put_ctx fd x tr k s)"
  using assms by (auto simp: out_inv_def)

lemma put_ctx_twice: "put_ctx fd x' tr' k' (put_ctx fd x tr k s) = put_ctx fd x' (tr @ tr') k' s"
  by (simp add: put_ctx_def)

lemma watch_put: "watch io fd (put_ctx fd x tr k s) = put_ctx fd x tr
    (snd (add_fd (sys_port io) (o_ep s) (of_nat fd) EVPORT_WRITE k)) s"
  by (simp add: watch_def put_ctx_def)

lemma commit_raw_ok:
  assumes inv: "out_inv io interest s" and g: "moderate grants" and fd: "fd < o_max s"
    and "is": "is \<noteq> []" "xf_size is < 2 ^ 62"
    and res: "commit_raw io grants fd is s = Done s'"
  shows "out_inv io interest s'" and "same_elsewhere fd s s'" and "o_max s' = o_max s"
    and "\<exists>lost. queued s' fd @ lost = queued s fd @ xf_flat is
       \<and> (lost \<noteq> [] \<longrightarrow> xf_items (o_ctx s fd) = [] \<and> xf_items (o_ctx s' fd) = [])"
proof -
  let ?c = "o_ctx s fd"
  have c: "xf_inv ?c" and port: "port_keeps io (o_ep s) interest" and fd31: "fd < 2 ^ 31"
    and watched: "\<And>g. g < o_max s \<Longrightarrow> g \<in> interest (o_kern s) \<longleftrightarrow> xf_items (o_ctx s g) \<noteq> []"
    using inv fd by (auto simp: out_inv_def)
  note put = out_inv_put [OF inv]
  have "out_inv io interest s' \<and> same_elsewhere fd s s' \<and> o_max s' = o_max s
     \<and> (\<exists>lost. queued s' fd @ lost = queued s fd @ xf_flat is
         \<and> (lost \<noteq> [] \<longrightarrow> xf_items ?c = [] \<and> xf_items (o_ctx s' fd) = []))"
  proof (cases "xf_items ?c = []")
    case False
    with res fd obtain x where x: "push_xfraw grants is ?c = Done x"
      "s' = put_ctx fd x [] (o_kern s) s"
      by (auto simp: commit_raw_def Let_def split: outcome.splits)
    with push_xfraw_ok [OF c "is"(2) g "is"(1)] have "xf_inv x" "xf_items x = xf_items ?c @ is" by auto
    with x(2) put watched False show ?thesis by (auto simp: queued_def)
  next
    case True
    with res fd obtain cont rest tr k where e: "execute io fd 0 is (o_kern s) = Some (cont, rest, tr, k)"
      by (auto simp: commit_raw_def Let_def split: option.splits)
    have k: "interest k = interest (o_kern s)" by (rule execute_interest [OF port e])
    have flat: "tr @ xf_flat rest = xf_flat is" by (rule execute_conserves [OF e])
    show ?thesis
    proof (cases cont)
      case cont: True
      have rest: "rest \<noteq> []" "xf_size rest < 2 ^ 62"
        using execute_cont [OF e cont] execute_size [OF e] "is"(2) by simp_all
      with res fd True e cont obtain x where x: "push_xfraw grants rest ?c = Done x"
        "s' = watch io fd (put_ctx fd x [] k (put_ctx fd ?c tr k s))"
        by (auto simp: commit_raw_def Let_def split: outcome.splits)
      with push_xfraw_ok [OF c rest(2) g rest(1)] True have "xf_inv x" "xf_items x = rest" by auto
      with x(2) put watched True rest flat k port_keepsD(5) [OF port fd31] show ?thesis
        by (auto simp: queued_def put_ctx_twice watch_put)
    next
      case False
      with res fd True e have "s' = put_ctx fd ?c tr k s"
        by (simp add: commit_raw_def Let_def)
      with put c watched True flat k show ?thesis by (auto simp: queued_def)
    qed
  qed
  then show "out_inv io interest s'" and "same_elsewhere fd s s'" and "o_max s' = o_max s"
    and "\<exists>lost. queued s' fd @ lost = queued s fd @ xf_flat is
       \<and> (lost \<noteq> [] \<longrightarrow> xf_items (o_ctx s fd) = [] \<and> xf_items (o_ctx s' fd) = [])"
    by blast+
qed

text \<open>The finalizers of a trace.\<close>

fun is_final :: "io_event \<Rightarrow> bool" where
  "is_final (Finalized _ _) \<longleftrightarrow> True"
| "is_final _ \<longleftrightarrow> False"

lemma no_final [simp]: "filter is_final (map Mem_byte xs) = []" "filter is_final (map (File_byte i) xs) = []"
  by (induction xs) simp_all

lemma no_final_iov [simp]: "filter is_final (iov_bytes vec) = []"
  by (induction vec) auto

lemma xf_finalizers_flat: "xf_finalizers is = filter is_final (xf_flat is)"
  by (induction "is") (auto simp: xf_finalizers_def xf_flat_def split: xf_item.splits)

lemma write_event_ok:
  assumes inv: "out_inv io interest s" and fd: "unat (event_ident e) < o_max s"
    and res: "write_event io e s = Done s'"
  defines "fd \<equiv> unat (event_ident e)"
  shows "out_inv io interest s'" and "same_elsewhere fd s s'" and "o_max s' = o_max s"
    and "filter is_final (queued s' fd) = filter is_final (queued s fd)"
    and "xf_items (o_ctx s' fd) \<noteq> [] \<Longrightarrow> queued s' fd = queued s fd"
proof -
  let ?c = "o_ctx s fd"
  have c: "xf_inv ?c" and port: "port_keeps io (o_ep s) interest" and fd31: "unat (event_ident e) < 2 ^ 31"
    and watched: "\<And>g. g < o_max s \<Longrightarrow> g \<in> interest (o_kern s) \<longleftrightarrow> xf_items (o_ctx s g) \<noteq> []"
    using inv fd by (auto simp: out_inv_def)
  note put = out_inv_put [OF inv]
  from res fd obtain cont x tr k where t: "try_write io fd ?c (o_kern s) = Some (cont, x, tr, k)"
    by (auto simp: write_event_def Let_def fd_def split: option.splits)
  note t_ok = try_write_ok [OF c t]
  have "out_inv io interest s' \<and> same_elsewhere fd s s' \<and> o_max s' = o_max s
     \<and> filter is_final (queued s' fd) = filter is_final (queued s fd)
     \<and> (xf_items (o_ctx s' fd) \<noteq> [] \<longrightarrow> queued s' fd = queued s fd)"
  proof (cases cont)
    case True
    with res fd t have "s' = put_ctx fd x tr (snd (shot_reactivate (sys_port io) (o_ep s) e k)) s"
      by (simp add: write_event_def Let_def fd_def)
    moreover have "xf_items ?c \<noteq> []" using t True by (auto simp: try_write_def)
    ultimately show ?thesis
      using put t_ok(1) t_ok(2) [symmetric] t_ok(3) [OF True] t_ok(4) [OF port] watched
        port_keepsD(6) [OF port fd31]
      by (auto simp: queued_def)
  next
    case False
    define x' where "x' = x\<lparr>xf_items := [], xf_free := sz_add (xf_free x) (xf_used x)\<rparr>"
    from False res fd t have s': "s' = put_ctx fd x' (tr @ xf_finalizers (xf_items x))
        (snd (shot_remove (sys_port io) (o_ep s) e k)) s"
      by (simp add: write_event_def Let_def fd_def xf_reset_def x'_def)
    have "xf_inv x'" using t_ok(1) by (auto simp: x'_def xf_inv_def xf_used_def add.commute)
    moreover have "filter is_final (xf_flat (xf_items ?c)) =
        filter is_final tr @ xf_finalizers (xf_items x)"
      using arg_cong [OF t_ok(2), of "filter is_final"] by (simp add: xf_finalizers_flat)
    ultimately show ?thesis
      using s' put watched t_ok(4) [OF port] port_keepsD(7) [OF port fd31]
      by (auto simp: queued_def x'_def fd_def xf_finalizers_flat)
  qed
  then show "out_inv io interest s'" and "same_elsewhere fd s s'" and "o_max s' = o_max s"
    and "filter is_final (queued s' fd) = filter is_final (queued s fd)"
    and "xf_items (o_ctx s' fd) \<noteq> [] \<Longrightarrow> queued s' fd = queued s fd"
    by blast+
qed

lemma push_write_ok:
  assumes "xf_inv x" and "moderate grants"
  shows "(\<exists>x'. push_write grants buf sz x = Done x' \<and> xf_inv x' \<and> xf_items x' = xf_items x @ [XF_IOVEC [(buf, sz)]])
     \<or> push_write grants buf sz x = Throw x"
  using push_xfraw_ok [OF assms(1) _ assms(2), of "[XF_IOVEC [(buf, sz)]]"]
  by (simp add: push_write_def push_item_xfraw sizeof_iovec_def)

text \<open>What \<open>core::write\<close> without a finalizer does when it returns.\<close>

lemma out_write_cases:
  assumes "out_write io grants fd buf sz s = Done s'" and "fd < o_max s"
  obtains (waits) x where "xf_items (o_ctx s fd) \<noteq> []" "push_write grants buf sz (o_ctx s fd) = Done x"
      "s' = put_ctx fd x [] (o_kern s) s"
  | (partly) r k wl x where "xf_items (o_ctx s fd) = []" "sys_write io fd buf sz (o_kern s) = (r, k)"
      "r = Wrote wl \<and> wl \<noteq> 0 \<and> wl < sz \<or> (\<exists>e. r = Failed e \<and> retry e \<and> wl = 0)"
      "push_write grants (buf + wl) (sz - wl) (o_ctx s fd) = Done x"
      "s' = watch io fd (put_ctx fd x (map Mem_byte [buf..<buf + wl]) k s)"
  | (sent) k wl where "xf_items (o_ctx s fd) = []" "sys_write io fd buf sz (o_kern s) = (Wrote wl, k)" "sz \<le> wl" "wl \<noteq> 0"
      "s' = put_ctx fd (o_ctx s fd) (map Mem_byte [buf..<buf + sz]) k s"
  | (broken) r k where "xf_items (o_ctx s fd) = []" "sys_write io fd buf sz (o_kern s) = (r, k)"
      "r = Wrote 0 \<or> (\<exists>e. r = Failed e \<and> \<not> retry e)" "s' = put_ctx fd (o_ctx s fd) [] (sys_shutdown io fd k) s"
proof (cases "xf_items (o_ctx s fd) = []")
  case False
  with assms show thesis by (auto simp: out_write_def Let_def split: outcome.splits intro: waits)
next
  case True
  obtain r k where w: "sys_write io fd buf sz (o_kern s) = (r, k)" by (cases "sys_write io fd buf sz (o_kern s)")
  show thesis
  proof (cases r)
    case (Failed e)
    then show thesis
    proof (cases "retry e")
      case True
      with \<open>xf_items (o_ctx s fd) = []\<close> assms w Failed obtain x where
        "push_write grants buf sz (o_ctx s fd) = Done x" "s' = watch io fd (put_ctx fd x [] k s)"
        by (auto simp: out_write_def Let_def split: outcome.splits)
      with \<open>xf_items (o_ctx s fd) = []\<close> True w Failed show thesis by (intro partly [of r k 0 x]) simp_all
    next
      case False
      with \<open>xf_items (o_ctx s fd) = []\<close> assms w Failed show thesis
        by (intro broken [of r k]) (auto simp: out_write_def Let_def)
    qed
  next
    case (Wrote wl)
    consider "wl = 0" | "wl \<noteq> 0" "sz \<le> wl" | "wl \<noteq> 0" "wl < sz" by linarith
    then show thesis
    proof cases
      case 1
      with True assms w Wrote show thesis by (intro broken [of r k]) (auto simp: out_write_def Let_def)
    next
      case 2
      with True assms w Wrote show thesis by (intro sent [of wl k]) (auto simp: out_write_def Let_def)
    next
      case 3
      with True assms w Wrote obtain x where "push_write grants (buf + wl) (sz - wl) (o_ctx s fd) = Done x"
        "s' = watch io fd (put_ctx fd x (map Mem_byte [buf..<buf + wl]) k s)"
        by (auto simp: out_write_def Let_def split: outcome.splits)
      with True 3 w Wrote show thesis by (intro partly [of r k wl x]) simp_all
    qed
  qed
qed

lemma write_split: "wl \<le> sz \<Longrightarrow>
    map Mem_byte [buf..<buf + wl] @ map Mem_byte [buf + wl..<buf + wl + (sz - wl)] = map Mem_byte [buf..<buf + sz]"
  using upt_split [of wl sz buf] by (simp flip: map_append)

lemma out_write_ok:
  assumes inv: "out_inv io interest s" and g: "moderate grants" and fd: "fd < o_max s"
    and res: "out_write io grants fd buf sz s = Done s'"
  shows "out_inv io interest s' \<and> same_elsewhere fd s s' \<and> o_max s' = o_max s
    \<and> (\<exists>lost. queued s' fd @ lost = queued s fd @ map Mem_byte [buf..<buf + sz])"
proof -
  have c: "xf_inv (o_ctx s fd)" and port: "port_keeps io (o_ep s) interest" and fd31: "fd < 2 ^ 31"
    and watched: "\<And>g. g < o_max s \<Longrightarrow> g \<in> interest (o_kern s) \<longleftrightarrow> xf_items (o_ctx s g) \<noteq> []"
    using inv fd by (auto simp: out_inv_def)
  note put = out_inv_put [OF inv]
  have written: "interest k = interest (o_kern s)" "interest (sys_shutdown io fd k) = interest (o_kern s)"
    if "sys_write io fd buf sz (o_kern s) = (r, k)" for r k
    using that port_keepsD(3) [OF port, of fd buf sz "o_kern s"] port_keepsD(4) [OF port] by simp_all
  from res fd show ?thesis
  proof (cases rule: out_write_cases)
    case (waits x)
    from push_write_ok [OF c g, of buf sz] waits(2)
    have "xf_inv x" "xf_items x = xf_items (o_ctx s fd) @ [XF_IOVEC [(buf, sz)]]" by auto
    with waits put watched show ?thesis by (auto simp: queued_def)
  next
    case (partly r k wl x)
    from push_write_ok [OF c g, of "buf + wl" "sz - wl"] partly(4)
    have "xf_inv x" "xf_items x = xf_items (o_ctx s fd) @ [XF_IOVEC [(buf + wl, sz - wl)]]" by auto
    moreover have "wl \<le> sz" using partly(3) by auto
    ultimately show ?thesis
      using partly(1,5) put watched written(1) [OF partly(2)] port_keepsD(5) [OF port fd31] write_split [of wl sz buf]
      by (auto simp: queued_def watch_put)
  next
    case (sent k wl)
    with put c watched written(1) show ?thesis by (auto simp: queued_def)
  next
    case (broken r k)
    with put c watched written(2) show ?thesis by (auto simp: queued_def)
  qed
qed

lemma commit_ok:
  assumes inv: "out_inv io interest s" and g: "moderate grants" and fd: "fd < o_max s"
    and xf: "xf_inv xf" "xf_items xf \<noteq> []"
    and res: "commit io grants fd (xf, s) = Done (xf', s')"
  shows "out_inv io interest s' \<and> same_elsewhere fd s s' \<and> o_max s' = o_max s \<and> xf_inv xf'
    \<and> queued s' fd @ xf_flat (xf_items xf') = queued s fd @ xf_flat (xf_items xf)
    \<and> (xf_items xf' \<noteq> [] \<longrightarrow> xf_items (o_ctx s' fd) = [])"
proof -
  let ?c = "o_ctx s fd"
  have c: "xf_inv ?c" and port: "port_keeps io (o_ep s) interest" and fd31: "fd < 2 ^ 31"
    and watched: "\<And>g. g < o_max s \<Longrightarrow> g \<in> interest (o_kern s) \<longleftrightarrow> xf_items (o_ctx s g) \<noteq> []"
    using inv fd by (auto simp: out_inv_def)
  note put = out_inv_put [OF inv]
  show ?thesis
  proof (cases "xf_items ?c = []")
    case False
    with res fd obtain x where x: "migrate grants xf ?c = Done (xf', x)" "s' = put_ctx fd x [] (o_kern s) s"
      by (auto simp: commit_def Let_def split: outcome.splits)
    with migrate_ok [OF xf(1) c g xf(2)] put watched False show ?thesis by (auto simp: queued_def)
  next
    case True
    with res fd obtain cont xf1 tr k where t: "try_write io fd xf (o_kern s) = Some (cont, xf1, tr, k)"
      by (auto simp: commit_def Let_def split: option.splits)
    note t_ok = try_write_ok [OF xf(1) t]
    note k = t_ok(4) [OF port]
    show ?thesis
    proof (cases cont)
      case cont: True
      with res fd True t obtain x where x: "migrate grants xf1 ?c = Done (xf', x)"
        "s' = watch io fd (put_ctx fd x [] k (put_ctx fd ?c tr k s))"
        by (auto simp: commit_def Let_def split: outcome.splits)
      with migrate_ok [OF t_ok(1) c g t_ok(3) [OF cont]] True
      have "xf_inv x" "xf_inv xf'" "xf_items xf' = []" "xf_items x = xf_items xf1" by auto
      with x(2) put watched True t_ok(2) t_ok(3) [OF cont] k port_keepsD(5) [OF port fd31]
      show ?thesis by (auto simp: queued_def put_ctx_twice watch_put)
    next
      case False
      with res fd True t have "s' = put_ctx fd ?c tr k s" "xf' = xf1"
        by (simp_all add: commit_def Let_def)
      with put c watched True t_ok(1,2) k show ?thesis by (auto simp: queued_def)
    qed
  qed
qed

section \<open>The handler as a state machine\<close>

text \<open>The events of the handler: callers submit output, the loop delivers writability.\<close>

inductive out_step :: "'k sockets \<Rightarrow> (nat \<Rightarrow> bool) \<Rightarrow> 'k out_state \<Rightarrow> 'k out_state \<Rightarrow> bool"
  for io :: "'k sockets" and grants :: "nat \<Rightarrow> bool"
where
  step_raw: "fd < o_max s \<Longrightarrow> is \<noteq> [] \<Longrightarrow> xf_size is < 2 ^ 62 \<Longrightarrow>
    commit_raw io grants fd is s = Done s' \<Longrightarrow> out_step io grants s s'"
| step_commit: "fd < o_max s \<Longrightarrow> xf_inv xf \<Longrightarrow> xf_items xf \<noteq> [] \<Longrightarrow>
    commit io grants fd (xf, s) = Done (xf', s') \<Longrightarrow> out_step io grants s s'"
| step_write: "fd < o_max s \<Longrightarrow> out_write io grants fd buf sz s = Done s' \<Longrightarrow> out_step io grants s s'"
| step_event: "unat (event_ident e) < o_max s \<Longrightarrow> write_event io e s = Done s' \<Longrightarrow>
    out_step io grants s s'"

inductive out_reach :: "'k sockets \<Rightarrow> (nat \<Rightarrow> bool) \<Rightarrow> 'k out_state \<Rightarrow> 'k out_state \<Rightarrow> bool"
  for io :: "'k sockets" and grants :: "nat \<Rightarrow> bool" and s0 :: "'k out_state"
where
  reach_start: "out_reach io grants s0 s0"
| reach_step: "out_reach io grants s0 s \<Longrightarrow> out_step io grants s s' \<Longrightarrow> out_reach io grants s0 s'"

inductive_cases out_step_cases: "out_step io grants s s'"

lemma out_step_inv:
  assumes "out_step io grants s s'" and "out_inv io interest s" and "moderate grants"
  shows "out_inv io interest s' \<and> o_max s' = o_max s"
  using assms(1)
proof cases
  case step_raw
  with commit_raw_ok [OF assms(2,3)] show ?thesis by blast
next
  case step_commit
  with commit_ok [OF assms(2,3)] show ?thesis by blast
next
  case step_write
  with out_write_ok [OF assms(2,3)] show ?thesis by blast
next
  case step_event
  with write_event_ok [OF assms(2)] show ?thesis by blast
qed

lemma out_new_inv:
  assumes "port_keeps io ep interest" and "interest k = {}" and "rlim \<le> 2 ^ 31"
  shows "out_inv io interest (out_new rlim ep k)"
  using assms by (simp add: out_inv_def out_new_def xfer_new_def xf_inv_def xf_used_def)

lemma out_reach_inv:
  assumes "out_reach io grants s0 s" and "out_inv io interest s0" and "moderate grants"
  shows "out_inv io interest s \<and> o_max s = o_max s0"
  using assms(1)
  by (induction rule: out_reach.induct) (auto simp: assms(2) dest: out_step_inv [OF _ _ assms(3)])

text \<open>
  The port watches exactly the descriptors with unsent output. In every state the output handler
  reaches from its construction, by submissions and write events in any order and for any answers of
  the kernel to the writes, a descriptor is registered with the handler's port if and only if its
  queue is not empty: no output waits without a wake-up and no wake-up comes without output.
\<close>

theorem out_watches_pending:
  assumes "port_keeps io ep interest" and "interest k = {}" and "rlim \<le> 2 ^ 31"
    and "moderate grants" and "out_reach io grants (out_new rlim ep k) s" and "fd < rlim"
  shows "fd \<in> interest (o_kern s) \<longleftrightarrow> xf_items (o_ctx s fd) \<noteq> []"
  using out_reach_inv [OF assms(5) out_new_inv [OF assms(1-3)] assms(4)] assms(6)
  by (simp add: out_inv_def out_new_def)

text \<open>
  A write event keeps the order and runs finalizers once. On a write event for a descriptor,
  whatever the kernel answers, the finalizers that have run together with those that wait are the
  same sequence as before; if output still waits afterwards, so is the whole sequence of bytes and
  finalizers, and the other descriptors are not touched.
\<close>

theorem write_event_keeps_order:
  assumes "out_inv io interest s" and "unat (event_ident e) < o_max s"
    and "write_event io e s = Done s'"
  shows "filter is_final (queued s' (unat (event_ident e))) = filter is_final (queued s (unat (event_ident e)))
     \<and> (xf_items (o_ctx s' (unat (event_ident e))) \<noteq> []
          \<longrightarrow> queued s' (unat (event_ident e)) = queued s (unat (event_ident e)))
     \<and> same_elsewhere (unat (event_ident e)) s s' \<and> out_inv io interest s'"
  using write_event_ok [OF assms] by blast

text \<open>
  A failed direct write loses its finalizer. When nothing waits on the descriptor and the kernel
  refuses the first \<open>writev\<close> with an error other than \<open>EAGAIN\<close> and \<open>EINTR\<close>, \<open>core::write\<close> with a
  finalizer returns normally, but the finalizer has neither been run nor queued, and the descriptor
  is neither shut down nor watched: the object it should free is lost.
\<close>

theorem core_write_error_drops_finalizer:
  assumes "fd < o_max s" and "xf_items (o_ctx s fd) = []"
    and "sys_writev io fd [(buf, sz)] (o_kern s) = (Failed E_other, k')"
  shows "core_write io grants fd buf sz fin user s = Done (s\<lparr>o_kern := k'\<rparr>)"
proof -
  have "put_ctx fd (o_ctx s fd) [] k' s = s\<lparr>o_kern := k'\<rparr>" by (simp add: put_ctx_def)
  with assms show ?thesis
    by (simp add: core_write_def commit_raw_def core_write_items_def Let_def retry_def)
qed

text \<open>
  An empty write shuts the connection down. \<open>core::write(fd, buf, 0)\<close> on an idle descriptor, for
  which the kernel reports 0 bytes written, ends in \<open>shutdown(fd, SHUT_RD)\<close> as a broken connection
  would.
\<close>

theorem empty_write_shuts_down:
  assumes "fd < o_max s" and "xf_items (o_ctx s fd) = []"
    and "sys_write io fd buf 0 (o_kern s) = (Wrote 0, k')"
  shows "out_write io grants fd buf 0 s = Done (s\<lparr>o_kern := sys_shutdown io fd k'\<rparr>)"
proof -
  have "put_ctx fd (o_ctx s fd) [] k'' s = s\<lparr>o_kern := k''\<rparr>" for k'' by (simp add: put_ctx_def)
  with assms show ?thesis by (simp add: out_write_def Let_def)
qed

section \<open>The output as a queue\<close>

text \<open>
  A kernel that takes at least one byte of what it is offered, or asks to try again: no connection
  breaks. Then nothing is lost, and \<open>commit_raw\<close> is a queue.
\<close>

definition unbroken :: "'k sockets \<Rightarrow> bool" where
  "unbroken io \<longleftrightarrow>
     (\<forall>fd vec k. iov_bytes vec \<noteq> [] \<longrightarrow>
        (case fst (sys_writev io fd vec k) of Wrote n \<Rightarrow> n \<noteq> 0 | Failed e \<Rightarrow> retry e))
   \<and> (\<forall>fd infd off len k. len \<noteq> 0 \<longrightarrow>
        (case fst (sys_sendfile io fd infd off len k) of Wrote n \<Rightarrow> n \<noteq> 0 | Failed e \<Rightarrow> retry e))"

definition full_item :: "xf_item \<Rightarrow> bool" where
  "full_item i \<longleftrightarrow> (case i of
     XF_IOVEC vec \<Rightarrow> iov_bytes vec \<noteq> [] | XF_SENDFILE _ _ len \<Rightarrow> len \<noteq> 0 | XF_FINALIZE _ _ \<Rightarrow> True)"

definition sendable_item :: "xf_item \<Rightarrow> bool" where
  "sendable_item i \<longleftrightarrow> full_item i \<and> (case i of XF_IOVEC vec \<Rightarrow> length vec \<le> 2 | _ \<Rightarrow> True)"

text \<open>Submissions of something, and those whose vectors no partial write can move onto themselves.\<close>

definition full_items :: "xf_item list \<Rightarrow> bool" where
  "full_items is \<longleftrightarrow> is \<noteq> [] \<and> list_all full_item is \<and> xf_size is < 2 ^ 62"

definition sendable_items :: "xf_item list \<Rightarrow> bool" where
  "sendable_items is \<longleftrightarrow> is \<noteq> [] \<and> list_all sendable_item is \<and> xf_size is < 2 ^ 62"

lemma sendable_full: "sendable_items is \<Longrightarrow> full_items is"
  by (auto simp: sendable_items_def full_items_def sendable_item_def list_all_iff)

lemma execute_unbroken:
  "unbroken io \<Longrightarrow> list_all full_item is \<Longrightarrow>
   execute io fd pos is k = Some (cont, rest, tr, k') \<Longrightarrow> cont \<or> rest = []"
proof (induction "is" arbitrary: pos k cont rest tr k')
  case (Cons i "is")
  show ?case
  proof (cases i)
    case (XF_IOVEC vec)
    with Cons.prems(1,2) have "case fst (sys_writev io fd vec k) of Wrote n \<Rightarrow> n \<noteq> 0 | Failed e \<Rightarrow> retry e"
      by (simp add: unbroken_def full_item_def)
    with Cons XF_IOVEC show ?thesis
      by (auto simp: emit_def split: prod.splits sysres.splits if_splits; blast)
  next
    case (XF_SENDFILE infd off len)
    with Cons.prems(1,2)
    have "case fst (sys_sendfile io fd infd off len k) of Wrote n \<Rightarrow> n \<noteq> 0 | Failed e \<Rightarrow> retry e"
      by (simp add: unbroken_def full_item_def)
    with Cons XF_SENDFILE show ?thesis
      by (auto simp: emit_def split: prod.splits sysres.splits if_splits; blast)
  next
    case (XF_FINALIZE fin user)
    with Cons show ?thesis by (auto simp: emit_def; blast)
  qed
qed simp

lemma sendable_short: "list_all sendable_item is \<Longrightarrow> short_iovecs is"
  by (induction "is") (auto simp: short_iovecs_def sendable_item_def split: xf_item.splits)

definition out_ok ::
    "'k sockets \<Rightarrow> (nat \<Rightarrow> bool) \<Rightarrow> ('k \<Rightarrow> nat set) \<Rightarrow> 'k out_state \<Rightarrow> bool" where
  "out_ok io grants interest s \<longleftrightarrow> out_inv io interest s \<and> moderate grants \<and> unbroken io"

text \<open>The same for \<open>write\<close>: a kernel that takes a part of what it is offered, or asks to try again.\<close>

definition takes_writes :: "'k sockets \<Rightarrow> bool" where
  "takes_writes io \<longleftrightarrow> (\<forall>fd buf sz k. sz \<noteq> 0 \<longrightarrow>
     (case fst (sys_write io fd buf sz k) of Wrote n \<Rightarrow> n \<noteq> 0 | Failed e \<Rightarrow> retry e))"

lemma out_write_unbroken:
  assumes "out_inv io interest s" and "moderate grants" and "fd < o_max s" and "takes_writes io" and "sz \<noteq> 0"
    and "out_write io grants fd buf sz s = Done s'"
  shows "queued s' fd = queued s fd @ map Mem_byte [buf..<buf + sz]"
proof -
  have c: "xf_inv (o_ctx s fd)" using assms(1) by (simp add: out_inv_def)
  have kern: "case fst (sys_write io fd buf sz (o_kern s)) of Wrote n \<Rightarrow> n \<noteq> 0 | Failed e \<Rightarrow> retry e"
    using assms(4,5) by (simp add: takes_writes_def)
  from assms(6,3) show ?thesis
  proof (cases rule: out_write_cases)
    case (waits x)
    with push_write_ok [OF c assms(2), of buf sz] show ?thesis by (auto simp: queued_def)
  next
    case (partly r k wl x)
    moreover have "wl \<le> sz" using partly(3) by auto
    ultimately show ?thesis
      using push_write_ok [OF c assms(2), of "buf + wl" "sz - wl"] write_split [of wl sz buf] by (auto simp: queued_def)
  qed (use kern in \<open>auto simp: queued_def\<close>)
qed

definition out_valid :: "'k out_state \<Rightarrow> nat \<Rightarrow> bool" where "out_valid s fd \<longleftrightarrow> fd < o_max s"

lemma out_valid_max: "o_max s' = o_max s \<Longrightarrow> out_valid s' = out_valid s"
  by (rule ext) (simp add: out_valid_def)

lemma commit_raw_unbroken:
  assumes "out_ok io grants interest s" and "out_valid s fd" and "full_items is"
    and "commit_raw io grants fd is s = Done s'"
  shows "queued s' fd = queued s fd @ xf_flat is"
proof (cases "xf_items (o_ctx s fd) = []")
  case False
  with assms show ?thesis
    using commit_raw_ok(4) [of io interest s grants fd "is" s']
    by (auto simp: out_ok_def out_valid_def full_items_def)
next
  case True
  with assms(2,4) obtain cont rest tr k where
    e: "execute io fd 0 is (o_kern s) = Some (cont, rest, tr, k)"
    by (auto simp: commit_raw_def Let_def out_valid_def split: option.splits)
  have "cont \<or> rest = []" using execute_unbroken [OF _ _ e] assms(1,3)
    by (auto simp: out_ok_def full_items_def)
  then show ?thesis
  proof
    assume cont
    then have "xf_items (o_ctx s' fd) \<noteq> []"
      using assms True e execute_cont [OF e] execute_size [OF e]
        push_xfraw_ok [of "o_ctx s fd" rest grants]
      by (auto simp: commit_raw_def Let_def out_valid_def out_ok_def out_inv_def full_items_def
          split: outcome.splits)
    then show ?thesis
      using assms commit_raw_ok(4) [of io interest s grants fd "is" s']
      by (auto simp: out_ok_def out_valid_def full_items_def)
  next
    assume r: "rest = []"
    with execute_cont [OF e] have "\<not> cont" by auto
    with assms(2,4) True e r have "s' = put_ctx fd (o_ctx s fd) tr k s"
      by (simp add: commit_raw_def Let_def out_valid_def)
    with True r execute_conserves [OF e] show ?thesis by (simp add: queued_def)
  qed
qed

lemma commit_raw_runs:
  assumes "out_ok io grants interest s" and "out_valid s fd" and "sendable_items is"
  shows "(\<exists>s'. commit_raw io grants fd is s = Done s') \<or> (\<exists>s'. commit_raw io grants fd is s = Throw s')"
proof -
  have c: "xf_inv (o_ctx s fd)" "moderate grants" using assms(1) by (auto simp: out_ok_def out_inv_def)
  have i: "is \<noteq> []" "xf_size is < 2 ^ 62" "short_iovecs is"
    using assms(3) sendable_short by (auto simp: sendable_items_def)
  show ?thesis
  proof (cases "xf_items (o_ctx s fd) = []")
    case False
    with push_xfraw_ok [OF c(1) i(2) c(2) i(1)] assms(2) show ?thesis
      by (auto simp: commit_raw_def Let_def out_valid_def)
  next
    case True
    from execute_defined [OF i(3), of io fd 0 "o_kern s"] obtain cont rest tr k where
      e: "execute io fd 0 is (o_kern s) = Some (cont, rest, tr, k)" by (auto split: option.splits)
    show ?thesis
    proof (cases cont)
      case cont: True
      have "rest \<noteq> []" "xf_size rest < 2 ^ 62"
        using execute_cont [OF e cont] execute_size [OF e] i(2) by simp_all
      from push_xfraw_ok [OF c(1) this(2) c(2) this(1)] show ?thesis
        using e cont True assms(2) by (auto simp: commit_raw_def Let_def out_valid_def)
    qed (use e True assms(2) in \<open>auto simp: commit_raw_def Let_def out_valid_def\<close>)
  qed
qed

interpretation out: output_sink "out_ok io grants interest" out_valid sendable_items xf_flat queued
    "commit_raw io grants" for io grants interest
proof
  fix s :: "'a out_state" and fd i s'
  assume a: "out_ok io grants interest s" "out_valid s fd" "sendable_items i"
    "commit_raw io grants fd i s = Done s'"
  then have p: "out_inv io interest s" "moderate grants" "fd < o_max s" "i \<noteq> []" "xf_size i < 2 ^ 62"
    by (simp_all add: out_ok_def out_valid_def sendable_items_def)
  note c = commit_raw_ok(1-3) [OF p a(4)]
  have "out_ok io grants interest s'" using a(1) c(1) by (simp add: out_ok_def)
  moreover have "out_valid s' = out_valid s" by (rule out_valid_max) (rule c(3))
  moreover have "queued s' g = queued s g" if "g \<noteq> fd" for g
    using c(2) that by (simp add: same_elsewhere_def queued_def)
  ultimately show "out_ok io grants interest s' \<and> out_valid s' = out_valid s \<and>
      queued s' fd = queued s fd @ xf_flat i \<and> (\<forall>g. g \<noteq> fd \<longrightarrow> queued s' g = queued s g)"
    using commit_raw_unbroken [OF a(1,2) sendable_full [OF a(3)] a(4)] by simp
next
  fix s :: "'a out_state" and fd i
  assume "out_ok io grants interest s" "out_valid s fd" "sendable_items i"
  then show "(\<exists>s'. commit_raw io grants fd i s = Done s') \<or> (\<exists>s'. commit_raw io grants fd i s = Throw s')"
    by (rule commit_raw_runs)
qed


section \<open>A concrete kernel\<close>

text \<open>
  A kernel that takes at most three bytes per call; its state is the list of the registered
  descriptors. \<open>broken_sockets\<close> refuses every \<open>writev\<close>.
\<close>

fun list_ctl :: "ctl_op \<Rightarrow> c_int \<Rightarrow> epoll_event option \<Rightarrow> nat list \<Rightarrow> c_int \<times> nat list" where
  "list_ctl EPOLL_CTL_ADD fd ev t = (0, unat fd # t)"
| "list_ctl EPOLL_CTL_MOD fd ev t = (0, t)"
| "list_ctl EPOLL_CTL_DEL fd ev t = (0, List.filter (\<lambda>g. g \<noteq> unat fd) t)"

definition list_port :: "nat list kernel" where
  "list_port =
    \<lparr>epoll_create = (\<lambda>k. (3, k)), epoll_ctl = (\<lambda>ep. list_ctl),
     epoll_wait = (\<lambda>ep n ms k. (Some [], k)), timerfd_create = (\<lambda>k. (7, k)),
     timerfd_settime = (\<lambda>fd v k. (0, k)), signalfd_create = (\<lambda>s k. (7, k)),
     set_nonblock = (\<lambda>fd k. (0, k)), read_u64 = (\<lambda>fd k. (Some 1, k)),
     read_siginfo = (\<lambda>fd k. (True, k)), close_fd = (\<lambda>fd k. k)\<rparr>"

definition slow_sockets :: "nat list sockets" where
  "slow_sockets =
    \<lparr>sys_writev = (\<lambda>fd vec k. (Wrote (min 3 (length (iov_bytes vec))), k)),
     sys_sendfile = (\<lambda>fd infd off len k. (Wrote (min 3 len), k)),
     sys_write = (\<lambda>fd buf sz k. (Wrote (min 3 sz), k)),
     sys_shutdown = (\<lambda>fd k. k), sys_port = list_port\<rparr>"

definition broken_sockets :: "nat list sockets" where
  "broken_sockets = slow_sockets\<lparr>sys_writev := (\<lambda>fd vec k. (Failed E_other, k))\<rparr>"

definition half_memory :: "nat \<Rightarrow> bool" where "half_memory n \<longleftrightarrow> n < 2 ^ 62"

lemma slow_port: "port_keeps slow_sockets ep set"
  by (auto simp: port_keeps_def slow_sockets_def list_port_def unat_of_nat take_bit_nat_eq_self)

lemma half_moderate: "moderate half_memory"
  by (simp add: moderate_def half_memory_def)

lemma slow_unbroken: "unbroken slow_sockets"
  by (simp add: unbroken_def slow_sockets_def)

definition sample_out :: "nat list out_state" where "sample_out = out_new 16 3 []"

lemma sample_out_ok: "out_ok slow_sockets half_memory set sample_out"
  unfolding out_ok_def sample_out_def
  using out_new_inv [OF slow_port, of "[]" 16] half_moderate slow_unbroken by simp

text \<open>Ten bytes and a finalizer on descriptor 5: three bytes leave, the rest waits.\<close>

definition sample_waiting :: "nat list out_state" where
  "sample_waiting = put_ctx 5
     \<lparr>xf_head = True, xf_items = [XF_IOVEC [(103, 7)], XF_FINALIZE 1 2], xf_free = 32\<rparr>
     (map Mem_byte [100..<103]) [5] sample_out"

lemma sample_waiting_write:
  "core_write slow_sockets half_memory 5 100 10 1 2 sample_out = Done sample_waiting"
proof -
  have "grow 72 40 = Some 72" by (simp add: grow_enough)
  then show ?thesis
    by (simp add: core_write_def commit_raw_def core_write_items_def sample_out_def out_new_def
        slow_sockets_def list_port_def sample_waiting_def xfer_new_def xf_used_def push_xfraw_def
        xf_reserve_def half_memory_def put_ctx_def watch_def add_fd_def sizeof_iovec_def
        sizeof_finalize_def Let_def upt_conv_Cons fun_eq_iff)
qed

theorem out_watches_pending_witness:
  "5 \<in> set (o_kern sample_waiting) \<longleftrightarrow> xf_items (o_ctx sample_waiting 5) \<noteq> []"
proof (rule out_watches_pending [OF slow_port])
  have "out_step slow_sockets half_memory sample_out sample_waiting"
  proof (rule step_raw)
    show "commit_raw slow_sockets half_memory 5 (core_write_items 100 10 1 2) sample_out = Done sample_waiting"
      using sample_waiting_write by (simp add: core_write_def)
  qed (simp_all add: sample_out_def out_new_def core_write_items_def sizeof_iovec_def sizeof_finalize_def)
  then show "out_reach slow_sockets half_memory (out_new 16 3 []) sample_waiting"
    unfolding sample_out_def [symmetric] by (rule reach_step [OF reach_start])
qed (simp_all add: half_moderate)


theorem write_event_keeps_order_witness:
  "\<exists>s'. write_event slow_sockets 5 sample_waiting = Done s'
    \<and> filter is_final (queued s' (unat (event_ident 5))) = filter is_final (queued sample_waiting (unat (event_ident 5)))
    \<and> (xf_items (o_ctx s' (unat (event_ident 5))) \<noteq> []
          \<longrightarrow> queued s' (unat (event_ident 5)) = queued sample_waiting (unat (event_ident 5)))
    \<and> same_elsewhere (unat (event_ident 5)) sample_waiting s' \<and> out_inv slow_sockets set s'"
proof -
  have ident: "unat (event_ident 5) = 5" by code_simp
  have "out_inv slow_sockets set sample_waiting"
    using commit_raw_ok(1) [OF _ half_moderate _ _ _ sample_waiting_write [unfolded core_write_def]]
      sample_out_ok
    by (auto simp: out_ok_def sample_out_def out_new_def core_write_items_def sizeof_iovec_def
        sizeof_finalize_def)
  moreover have max: "unat (event_ident 5) < o_max sample_waiting"
    by (simp add: ident sample_waiting_def sample_out_def out_new_def)
  moreover have "\<exists>s'. write_event slow_sockets 5 sample_waiting = Done s'"
    using max by (simp add: write_event_def Let_def ident try_write_def sample_waiting_def slow_sockets_def)
  ultimately show ?thesis using write_event_keeps_order by blast
qed

theorem core_write_error_drops_finalizer_witness:
  "core_write broken_sockets half_memory 5 100 10 1 2 sample_out = Done (sample_out\<lparr>o_kern := []\<rparr>)"
  by (rule core_write_error_drops_finalizer)
    (simp_all add: sample_out_def out_new_def xfer_new_def broken_sockets_def)

theorem empty_write_shuts_down_witness:
  "out_write slow_sockets half_memory 5 100 0 sample_out =
     Done (sample_out\<lparr>o_kern := sys_shutdown slow_sockets 5 []\<rparr>)"
  by (rule empty_write_shuts_down)
    (simp_all add: sample_out_def out_new_def xfer_new_def slow_sockets_def)

theorem partial_writev_overlaps_witness:
  "execute slow_sockets 5 0 (XF_IOVEC [(0, 2), (10, 3), (20, 4)] # [XF_FINALIZE 1 2]) [] = None"
  by (rule partial_writev_overlaps [where wl = 3 and i = 1 and left = "[(11, 2), (20, 4)]"])
    (simp_all add: slow_sockets_def)

end
