(* ===== verification/Gate_Wire.thy ===== *)
theory Gate_Wire
  imports Gate_Session Wavy_Out
begin

text \<open>
  The text gate on top of the output handler: what the callbacks hand to \<open>core::write\<close> and
  \<open>core::writev\<close> (\<open>g_sent\<close> of \<open>Gate_Memtext\<close>, by contents) as submissions of ranges of memory
  (\<open>Wavy_Out\<close>, by addresses), and the bytes of a session as they go to the socket.
\<close>

section \<open>Submissions\<close>

type_synonym memory = "nat \<Rightarrow> byte"

text \<open>
  \<open>send_static\<close> is a \<open>core::write\<close> of a constant string, the other replies are a \<open>core::writev\<close> whose
  finalizer frees the header.
\<close>

datatype submission = Sub_write nat nat nat | Sub_writev nat "iovec list" nat nat

fun submit1 :: "'k sockets \<Rightarrow> (nat \<Rightarrow> bool) \<Rightarrow> submission \<Rightarrow> 'k out_state \<Rightarrow> 'k out_state outcome" where
  "submit1 io grants (Sub_write fd buf sz) s = out_write io grants fd buf sz s"
| "submit1 io grants (Sub_writev fd vec fin user) s = core_writev io grants fd vec fin user s"

fun submit_list :: "'k sockets \<Rightarrow> (nat \<Rightarrow> bool) \<Rightarrow> submission list \<Rightarrow> 'k out_state \<Rightarrow> 'k out_state outcome" where
  "submit_list io grants [] s = Done s"
| "submit_list io grants (x # xs) s = and_then (submit1 io grants x s) (submit_list io grants xs)"

text \<open>A submission that stands for an entry of \<open>g_sent\<close>: its ranges hold these bytes.\<close>

definition vector_bytes :: "memory \<Rightarrow> iovec list \<Rightarrow> byte list list" where
  "vector_bytes m vec = map (\<lambda>(b, l). map m [b..<b + l]) vec"

fun carries :: "memory \<Rightarrow> submission \<Rightarrow> nat \<times> byte list list \<times> nat set \<Rightarrow> bool" where
  "carries m (Sub_write fd buf sz) e \<longleftrightarrow> e = (fd, [map m [buf..<buf + sz]], {})"
| "carries m (Sub_writev fd vec fin user) e \<longleftrightarrow> fst e = fd \<and> fst (snd e) = vector_bytes m vec \<and> snd (snd e) \<noteq> {}"

fun sub_ok :: "nat \<Rightarrow> submission \<Rightarrow> bool" where
  "sub_ok n (Sub_write fd buf sz) \<longleftrightarrow> fd < n \<and> sz \<noteq> 0"
| "sub_ok n (Sub_writev fd vec fin user) \<longleftrightarrow> fd < n \<and> iov_bytes vec \<noteq> [] \<and> length vec < 2 ^ 57 \<and> fin \<noteq> 0"

text \<open>The bytes of a queue, in their order.\<close>

fun event_bytes :: "memory \<Rightarrow> io_event \<Rightarrow> byte list" where
  "event_bytes m (Mem_byte a) = [m a]"
| "event_bytes m _ = []"

definition wire :: "memory \<Rightarrow> io_event list \<Rightarrow> byte list" where
  "wire m es = concat (map (event_bytes m) es)"

lemma wire_simps [simp]:
  "wire m [] = []" "wire m (xs @ ys) = wire m xs @ wire m ys" "wire m (map Mem_byte as) = map m as"
  "wire m [Finalized fin user] = []"
  by (simp_all add: wire_def o_def)

lemma wire_vectors [simp]: "wire m (iov_bytes vec) = concat (vector_bytes m vec)"
  by (induction vec rule: iov_bytes.induct) (simp_all add: vector_bytes_def)

definition sub_fd :: "submission \<Rightarrow> nat" where
  "sub_fd x = (case x of Sub_write fd _ _ \<Rightarrow> fd | Sub_writev fd _ _ _ \<Rightarrow> fd)"

definition sub_events :: "submission \<Rightarrow> io_event list" where
  "sub_events x = (case x of
     Sub_write fd buf sz \<Rightarrow> map Mem_byte [buf..<buf + sz]
   | Sub_writev fd vec fin user \<Rightarrow> iov_bytes vec @ [Finalized fin user])"

lemma submit1_queued:
  assumes ok: "out_ok io grants interest s" and t: "takes_writes io" and x: "sub_ok (o_max s) x"
    and run: "submit1 io grants x s = Done s'"
  shows "out_ok io grants interest s' \<and> o_max s' = o_max s
    \<and> (\<forall>g. queued s' g = queued s g @ (if g = sub_fd x then sub_events x else []))"
proof (cases x)
  case (Sub_write fd buf sz)
  have inv: "out_inv io interest s" "moderate grants" "fd < o_max s" using ok x Sub_write by (simp_all add: out_ok_def)
  have w: "out_write io grants fd buf sz s = Done s'" using run Sub_write by simp
  have "sz \<noteq> 0" using x Sub_write by simp
  from out_write_ok [OF inv w] out_write_unbroken [OF inv t this w] ok show ?thesis
    by (simp add: Sub_write sub_fd_def sub_events_def out_ok_def same_elsewhere_def queued_def)
next
  case (Sub_writev fd vec fin user)
  let ?is = "core_writev_items vec fin user"
  have inv: "out_inv io interest s" "moderate grants" "fd < o_max s" using ok x Sub_writev by (simp_all add: out_ok_def)
  have w: "commit_raw io grants fd ?is s = Done s'" using run Sub_writev by (simp add: core_writev_def)
  have full: "full_items ?is"
    using x Sub_writev by (simp add: full_items_def full_item_def core_writev_items_def sizeof_iovec_def sizeof_finalize_def)
  then have "?is \<noteq> []" "xf_size ?is < 2 ^ 62" by (simp_all add: full_items_def)
  note c = commit_raw_ok [OF inv this w]
  have "out_valid s fd" using inv(3) by (simp add: out_valid_def)
  from commit_raw_unbroken [OF ok this full w] c(1-3) ok x show ?thesis
    by (simp add: Sub_writev sub_fd_def sub_events_def out_ok_def same_elsewhere_def queued_def core_writev_items_def)
qed

lemma submit_list_queued:
  "submit_list io grants xs s = Done s' \<Longrightarrow> out_ok io grants interest s \<Longrightarrow> takes_writes io \<Longrightarrow>
   list_all (sub_ok (o_max s)) xs \<Longrightarrow>
   queued s' fd = queued s fd @ concat (map (\<lambda>x. if sub_fd x = fd then sub_events x else []) xs)"
proof (induction xs arbitrary: s)
  case (Cons x xs)
  obtain s1 where s1: "submit1 io grants x s = Done s1" "submit_list io grants xs s1 = Done s'"
    using Cons.prems(1) by (cases "submit1 io grants x s") auto
  have x: "sub_ok (o_max s) x" using Cons.prems(4) by simp
  note one = submit1_queued [OF Cons.prems(2,3) x s1(1)]
  have "queued s' fd = queued s1 fd @ concat (map (\<lambda>x. if sub_fd x = fd then sub_events x else []) xs)"
    using one Cons.prems(3,4) by (intro Cons.IH [OF s1(2)]) simp_all
  with one show ?case by auto
qed simp

lemma carried_wire:
  "carries m x e \<Longrightarrow> wire m (if sub_fd x = fd then sub_events x else [])
     = (case e of (g, vec, frees) \<Rightarrow> if g = fd then concat vec else [])"
  by (cases x) (auto simp: sub_fd_def sub_events_def split: prod.splits)

lemma carried_all:
  "list_all2 (carries m) xs es \<Longrightarrow> wire m (concat (map (\<lambda>x. if sub_fd x = fd then sub_events x else []) xs))
     = concat (map (\<lambda>(g, vec, frees). if g = fd then concat vec else []) es)"
  by (induction rule: list_all2_induct) (simp_all only: list.map concat.simps wire_simps carried_wire)

section \<open>A session on the wire\<close>


text \<open>
  The reply to a \<open>get\<close> that finds its key has three vectors (header, value, end). When the kernel takes the
  header and not all of the value, the copy of the rest onto the head of the buffer overlaps itself.
\<close>

lemma get_reply_partly_taken:
  assumes "fd < o_max s" and "xf_items (o_ctx s fd) = []" and "0 < hl" and "hl \<le> wl" and "wl < hl + vl"
    and "sys_writev io fd [(h, hl), (v, vl), (e, 7)] (o_kern s) = (Wrote wl, k)"
  shows "core_writev io grants fd [(h, hl), (v, vl), (e, 7)] fin user s = Fault"
proof -
  have "\<not> vl \<le> wl - hl" "wl \<noteq> 0" using assms(3-5) by arith+
  with assms show ?thesis
    by (simp add: core_writev_def commit_raw_def core_writev_items_def Let_def)
qed

section \<open>A session that meets the hypotheses\<close>

text \<open>Any replies can be laid out in memory, one vector behind the other.\<close>

fun place_vec :: "nat \<Rightarrow> byte list list \<Rightarrow> iovec list" where
  "place_vec k [] = []"
| "place_vec k (v # vs) = (k, length v) # place_vec (k + length v) vs"

definition holds_from :: "memory \<Rightarrow> nat \<Rightarrow> byte list \<Rightarrow> bool" where
  "holds_from m k bs \<longleftrightarrow> map m [k..<k + length bs] = bs"

lemma holds_from_append: "holds_from m k (xs @ ys) \<longleftrightarrow> holds_from m k xs \<and> holds_from m (k + length xs) ys"
proof -
  have "[k..<k + length (xs @ ys)] = [k..<k + length xs] @ [k + length xs..<k + length xs + length ys]"
    using upt_add_eq_append [of k "k + length xs" "length ys"] by (simp add: add.assoc)
  then show ?thesis by (simp add: holds_from_def)
qed

lemma place_vec_bytes: "holds_from m k (concat vec) \<Longrightarrow> vector_bytes m (place_vec k vec) = vec"
  by (induction k vec rule: place_vec.induct) (simp_all add: holds_from_append vector_bytes_def, simp add: holds_from_def)

lemma place_vec_length [simp]: "length (place_vec k vec) = length vec"
  by (induction k vec rule: place_vec.induct) simp_all

definition place_entry :: "nat \<Rightarrow> nat \<times> byte list list \<times> nat set \<Rightarrow> submission" where
  "place_entry k e = (case e of (fd, vec, frees) \<Rightarrow>
     if frees = {} then Sub_write fd k (length (concat vec)) else Sub_writev fd (place_vec k vec) 1 k)"

lemma place_entry_ok:
  assumes "entry_ok e" and "holds_from m k (concat (fst (snd e)))" and "fst e < n"
  shows "carries m (place_entry k e) e" and "sub_ok n (place_entry k e)"
proof -
  obtain fd vec frees where e: "e = (fd, vec, frees)" by (cases e)
  have v: "vector_bytes m (place_vec k vec) = vec" using assms(2) e by (intro place_vec_bytes) simp
  have "wire m (iov_bytes (place_vec k vec)) = concat vec" unfolding wire_vectors v ..
  moreover have "concat vec \<noteq> []" using assms(1) e by simp
  ultimately have some: "iov_bytes (place_vec k vec) \<noteq> []" by (metis wire_simps(1))
  show "carries m (place_entry k e) e"
    using assms(1,2) e v by (cases vec) (auto simp: place_entry_def holds_from_def)
  show "sub_ok n (place_entry k e)" using assms(1,3) e some by (auto simp: place_entry_def)
qed

lemma entries_placed:
  "\<forall>e \<in> set es. entry_ok e \<and> fst e < n \<Longrightarrow> holds_from m k (concat (map (\<lambda>e. concat (fst (snd e))) es)) \<Longrightarrow>
   \<exists>xs. list_all2 (carries m) xs es \<and> list_all (sub_ok n) xs"
proof (induction es arbitrary: k)
  case (Cons e es)
  have h: "holds_from m k (concat (fst (snd e)))"
    "holds_from m (k + length (concat (fst (snd e)))) (concat (map (\<lambda>e. concat (fst (snd e))) es))"
    using Cons.prems(2) by (simp_all add: holds_from_append)
  have e: "entry_ok e" "fst e < n" and es: "\<forall>e \<in> set es. entry_ok e \<and> fst e < n" using Cons.prems(1) by simp_all
  obtain xs where "list_all2 (carries m) xs es" "list_all (sub_ok n) xs" using Cons.IH [OF es h(2)] by blast
  with place_entry_ok [OF e(1) h(1) e(2)] show ?case by (intro exI [of _ "place_entry k e # xs"]) simp
qed simp

text \<open>A kernel that takes all it is offered.\<close>

definition eager_sockets :: "nat list sockets" where
  "eager_sockets = slow_sockets\<lparr>sys_writev := (\<lambda>fd vec k. (Wrote (length (iov_bytes vec)), k)),
     sys_write := (\<lambda>fd buf sz k. (Wrote sz, k))\<rparr>"

lemma eager_ok: "out_ok eager_sockets half_memory set sample_out" "takes_writes eager_sockets"
proof -
  have "port_keeps eager_sockets ep set" for ep
    using slow_port [of ep] by (simp add: port_keeps_def eager_sockets_def slow_sockets_def)
  moreover have "unbroken eager_sockets" by (simp add: unbroken_def eager_sockets_def slow_sockets_def)
  ultimately show "out_ok eager_sockets half_memory set sample_out"
    unfolding out_ok_def sample_out_def using out_new_inv [of eager_sockets 3 set "[]" 16] half_moderate by simp
  show "takes_writes eager_sockets" by (simp add: takes_writes_def eager_sockets_def)
qed

lemma advance_all: "advance i vs (length (iov_bytes vs)) = (i + length vs, [])"
  by (induction vs arbitrary: i rule: iov_bytes.induct) simp_all

lemma eager_submits:
  "list_all (sub_ok (o_max s)) xs \<Longrightarrow> (\<forall>fd. xf_items (o_ctx s fd) = []) \<Longrightarrow> \<exists>s'. submit_list eager_sockets grants xs s = Done s'"
proof (induction xs arbitrary: s)
  case (Cons x xs)
  have "\<exists>s1. submit1 eager_sockets grants x s = Done s1 \<and> o_max s1 = o_max s \<and> (\<forall>fd. xf_items (o_ctx s1 fd) = [])"
    using Cons.prems by (cases x) (auto simp: out_write_def core_writev_def commit_raw_def core_writev_items_def
        eager_sockets_def emit_def advance_all Let_def)
  then obtain s1 where s1: "submit1 eager_sockets grants x s = Done s1" "o_max s1 = o_max s"
    "\<forall>fd. xf_items (o_ctx s1 fd) = []" by blast
  with Cons.prems(1) have "\<exists>s'. submit_list eager_sockets grants xs s1 = Done s'" by (intro Cons.IH) simp_all
  with s1(1) show ?case by simp
qed simp

text \<open>The replies to two commands and the beginning of a third, of one read.\<close>

lemma demo_session:
  obtains s ctx off w where "memtext_stream Stream_Buffer.granting True (\<lambda>_. 4096) demo_client 3 demo_gate demo_piece (s, ctx, off, w)"
proof -
  obtain s where s: "stream_buffer_init Stream_Buffer.granting no_heap MEMTEXT_INITIAL_ALLOCATION_SIZE = Some s"
    "sb_fits Stream_Buffer.granting s MEMTEXT_RESERVE_SIZE"
    "\<And>ys. length ys \<le> MEMTEXT_RESERVE_SIZE \<Longrightarrow>
      sbp.read_ok Stream_Buffer.granting True s MEMTEXT_RESERVE_SIZE (Got ys)"
    by (rule new_buffer [of MEMTEXT_INITIAL_ALLOCATION_SIZE MEMTEXT_RESERVE_SIZE])
      (auto simp: MEMTEXT_INITIAL_ALLOCATION_SIZE_def MEMTEXT_RESERVE_SIZE_def)
  have heap: "heap_ok no_heap" and gate: "grants_all demo_gate"
    by (simp_all add: no_heap_def heap_ok_def grants_all_def demo_gate_def)
  note reach = memtext_stream.accept [OF heap s(1), of True "\<lambda>_. 4096" demo_client 3 demo_gate]
  have "\<exists>s1. sb_reserve Stream_Buffer.granting True s MEMTEXT_RESERVE_SIZE = Done s1"
    by (rule new_buffer_reserves [OF s(1)]) (simp_all add: MEMTEXT_INITIAL_ALLOCATION_SIZE_def MEMTEXT_RESERVE_SIZE_def)
  moreover have read: "sbp.read_ok Stream_Buffer.granting True s MEMTEXT_RESERVE_SIZE (Got demo_piece)"
    by (rule s(3)) (simp add: demo_whole MEMTEXT_RESERVE_SIZE_def)
  moreover have "in_session demo_client 3 demo_gate demo_requests [] (memtext_handler demo_client 3 s demo_gate)"
    by (rule memtext_stream_session [OF granting_ok gate requests_ok_well_formed [OF demo_whole(1)] demo_whole(2,6) reach]) simp
  ultimately obtain h' where
    "sb_memtext_event Stream_Buffer.granting True (\<lambda>_. 4096) (Got demo_piece) (memtext_handler demo_client 3 s demo_gate)
      = Some (Keep h')"
    using in_session_serves [of demo_client 3 demo_gate demo_requests "[]" s "memtext_init (gate_callbacks demo_client) 3" 0
        demo_gate demo_piece "bytes_of (''e x'' @ CRLF)" Stream_Buffer.granting True "\<lambda>_. 4096"] s(2) demo_whole
    by (auto simp: memtext_handler_def)
  from memtext_stream.event [OF reach _ _ _ this] s(2) read demo_whole(5) that show thesis
    by (cases h') (simp add: memtext_handler_def)
qed


end
