(* ===== verification/Wavy_Objects.thy ===== *)
theory Wavy_Objects
  imports Wavy_Out
begin

text \<open>
  The C++ side of the output of \<^verbatim>\<open>src/mp/wavy/core.pre.h\<close> and \<^verbatim>\<open>singleton.pre.h\<close>: transfer buffers that a
  program builds by any sequence of their operations, objects handed over by \<open>auto_ptr\<close> and
  \<open>shared_ptr\<close> to be deleted when the output is done, and the static interface to one core.
\<close>

section \<open>Any transfer buffer\<close>

text \<open>What the operations of \<open>core::xfer\<close> can make of a buffer, when memory is short, too.\<close>

inductive xfer_made :: "'k sockets \<Rightarrow> (nat \<Rightarrow> bool) \<Rightarrow> xfer \<Rightarrow> bool" for io grants where
  new: "xfer_made io grants xfer_new"
| push: "xfer_made io grants x \<Longrightarrow> sizeof_item i < 2 ^ 62 \<Longrightarrow> push_item grants i x \<in> {Done x', Throw x'} \<Longrightarrow>
    xfer_made io grants x'"
| raw: "xfer_made io grants x \<Longrightarrow> xf_size is < 2 ^ 62 \<Longrightarrow> is \<noteq> [] \<Longrightarrow> push_xfraw grants is x \<in> {Done x', Throw x'} \<Longrightarrow>
    xfer_made io grants x'"
| migrate_from: "xfer_made io grants x \<Longrightarrow> xfer_made io grants to \<Longrightarrow>
    migrate grants x to \<in> {Done (x', to'), Throw (x', to')} \<Longrightarrow> xfer_made io grants x'"
| migrate_to: "xfer_made io grants x \<Longrightarrow> xfer_made io grants to \<Longrightarrow>
    migrate grants x to \<in> {Done (x', to'), Throw (x', to')} \<Longrightarrow> xfer_made io grants to'"
| reset: "xfer_made io grants x \<Longrightarrow> xfer_made io grants (snd (xf_reset x))"
| written: "xfer_made io grants x \<Longrightarrow> try_write io fd x k = Some (cont, x', tr, k') \<Longrightarrow> xfer_made io grants x'"

lemma migrate_keeps:
  assumes "xf_inv x" and "xf_inv to" and "moderate grants"
  shows "(\<exists>x' to'. migrate grants x to = Done (x', to') \<and> xf_inv x' \<and> xf_inv to'
         \<and> xf_items x' = [] \<and> xf_items to' = xf_items to @ xf_items x)
     \<or> migrate grants x to = Throw (x, to)"
proof (cases "xf_items x = []")
  case True
  then show ?thesis using assms
    by (cases "xf_head to") (auto simp: migrate_def xf_used_def xf_inv_def xfer_new_def sz_add_id sz_sub_id)
qed (rule migrate_ok [OF assms])

lemma reset_keeps: "xf_inv x \<Longrightarrow> xf_inv (snd (xf_reset x))"
  by (auto simp: xf_inv_def xf_reset_def xf_used_def sz_add_id)

lemma push_item_ok:
  assumes "xf_inv x" and "sizeof_item i < 2 ^ 62" and "moderate grants"
  shows "(\<exists>x'. push_item grants i x = Done x' \<and> xf_inv x' \<and> xf_items x' = xf_items x @ [i])
    \<or> push_item grants i x = Throw x"
  using push_xfraw_ok [OF assms(1) _ assms(3), of "[i]"] assms(2) by (simp add: push_item_xfraw)

lemma xfer_made_inv: "xfer_made io grants x \<Longrightarrow> moderate grants \<Longrightarrow> xf_inv x"
proof (induction rule: xfer_made.induct)
  case (push x i x')
  with push_item_ok [of x i grants] show ?case by auto
next
  case (raw x "is" x')
  with push_xfraw_ok [of x "is" grants] show ?case by auto
next
  case (migrate_from x to x' to')
  with migrate_keeps [of x to grants] show ?case by auto
next
  case (migrate_to x to x' to')
  with migrate_keeps [of x to grants] show ?case by auto
qed (auto intro: reset_keeps try_write_ok(1))

text \<open>
  C23. Well-formed transfer buffers. A \<open>core::xfer\<close> that came about by its operations, in any order, with
  any failures of the allocator in between, is well formed: without memory it is empty, and its items
  and free bytes stay within the range of \<open>size_t\<close>. So every further \<open>push\<close> ends, either with the item
  behind the others or with \<open>std::bad_alloc\<close> and the buffer as it was, and so does \<open>migrate\<close>.
\<close>

theorem xfer_well_formed:
  assumes "xfer_made io grants x" and "xfer_made io grants to" and "moderate grants" and "sizeof_item i < 2 ^ 62"
  shows "xf_inv x
    \<and> ((\<exists>x'. push_item grants i x = Done x' \<and> xf_inv x' \<and> xf_items x' = xf_items x @ [i])
       \<or> push_item grants i x = Throw x)
    \<and> ((\<exists>x' to'. migrate grants x to = Done (x', to') \<and> xfer_empty x' \<and> xf_items to' = xf_items to @ xf_items x)
       \<or> migrate grants x to = Throw (x, to))"
proof -
  have inv: "xf_inv x" "xf_inv to" using xfer_made_inv assms(1-3) by blast+
  from inv push_item_ok [OF inv(1) assms(4,3)] migrate_keeps [OF inv assms(3)] show ?thesis by auto
qed

theorem xfer_well_formed_witness:
  "\<exists>x'. push_item half_memory (XF_FINALIZE 1 2) xfer_new = Done x' \<and> xf_items x' = [XF_FINALIZE 1 2]"
proof -
  have m: "moderate half_memory" by (simp add: moderate_def half_memory_def)
  have "push_item half_memory (XF_FINALIZE 1 2) xfer_new \<noteq> Throw xfer_new"
    by (simp add: push_item_def Let_def xfer_new_def xf_reserve_def sizeof_finalize_def xf_used_def
        sz_add_def sz_mul_def grow.simps half_memory_def)
  moreover have "sizeof_item (XF_FINALIZE 1 2) < 2 ^ 62" by (simp add: sizeof_finalize_def)
  ultimately show ?thesis
    using xfer_well_formed [OF xfer_made.new xfer_made.new m, of "XF_FINALIZE 1 2"] by (auto simp: xfer_new_def)
qed

section \<open>Objects handed over\<close>

text \<open>
  \<open>object_delete\<close> as a finalizer deletes the object it is given. \<open>push_finalize\<close> takes its \<open>auto_ptr\<close> by
  value: when it throws, the parameter deletes the object. The second component is what was deleted.
\<close>

definition object_delete :: nat where "object_delete = 1"

definition push_finalize_auto :: "(nat \<Rightarrow> bool) \<Rightarrow> nat \<Rightarrow> xfer \<Rightarrow> xfer outcome \<times> io_event list" where
  "push_finalize_auto grants ob x =
    (case push_finalize grants object_delete ob x of
       Throw x' \<Rightarrow> (Throw x', [Finalized object_delete ob])
     | r \<Rightarrow> (r, []))"

lemma push_finalize_auto_once:
  assumes "xf_inv x" and "moderate grants"
  shows "(\<exists>x'. push_finalize_auto grants ob x = (Done x', []) \<and> xf_items x' = xf_items x @ [XF_FINALIZE object_delete ob])
    \<or> push_finalize_auto grants ob x = (Throw x, [Finalized object_delete ob])"
proof -
  have "sizeof_item (XF_FINALIZE object_delete ob) < 2 ^ 62" by (simp add: sizeof_finalize_def)
  from push_item_ok [OF assms(1) this assms(2)] show ?thesis by (auto simp: push_finalize_auto_def push_finalize_def)
qed

text \<open>
  \<open>writev\<close> takes it by reference and releases it when the call is done. The pointer is the first
  component of the result; \<open>None\<close> is the null pointer.
\<close>

definition writev_auto :: "'k sockets \<Rightarrow> (nat \<Rightarrow> bool) \<Rightarrow> nat \<Rightarrow> iovec list \<Rightarrow> nat option \<times> 'k out_state \<Rightarrow>
    (nat option \<times> 'k out_state) outcome" where
  "writev_auto io grants fd vec ps =
    (case ps of (fin, s) \<Rightarrow>
      (case core_writev io grants fd vec object_delete (case fin of None \<Rightarrow> 0 | Some ob \<Rightarrow> ob) s of
         Done s' \<Rightarrow> Done (None, s')
       | Throw s' \<Rightarrow> Throw (fin, s')
       | Fault \<Rightarrow> Fault
       | Diverge \<Rightarrow> Diverge))"

text \<open>
  By \<open>shared_ptr\<close>: the parameter is one more owner until the call returns, and a copy of it on the
  heap, when there is memory for it, is handed over by \<open>auto_ptr\<close>. \<open>cell\<close> is the address of the copy;
  the count is that of the owners. Deleting the cell, by the finalizer during the call or by the
  \<open>auto_ptr\<close> after an exception, takes one owner away.
\<close>

definition deletes :: "nat \<Rightarrow> io_event list \<Rightarrow> nat" where
  "deletes ob tr = count_list tr (Finalized object_delete ob)"

definition writev_shared :: "'k sockets \<Rightarrow> (nat \<Rightarrow> bool) \<Rightarrow> nat \<Rightarrow> iovec list \<Rightarrow> nat option \<Rightarrow> nat \<times> 'k out_state \<Rightarrow>
    (nat \<times> 'k out_state) outcome" where
  "writev_shared io grants fd vec cell ns =
    (case ns of (n, s) \<Rightarrow>
      let param = n + 1 in
      (case cell of
         None \<Rightarrow> Throw (param - 1, s)
       | Some c \<Rightarrow>
           let shared = param + 1 in
           (case writev_auto io grants fd vec (Some c, s) of
              Done (afin, s') \<Rightarrow> Done (shared - (deletes c (o_trace s' fd) - deletes c (o_trace s fd)) - 1, s')
            | Throw (afin, s') \<Rightarrow>
                Throw (shared - (deletes c (o_trace s' fd) - deletes c (o_trace s fd)) - (if afin = None then 0 else 1) - 1, s')
            | Fault \<Rightarrow> Fault
            | Diverge \<Rightarrow> Diverge)))"

text \<open>\<open>push_finalize\<close> with a \<open>shared_ptr\<close>: the same, with the cell given by value.\<close>

definition push_finalize_shared :: "(nat \<Rightarrow> bool) \<Rightarrow> nat option \<Rightarrow> nat \<times> xfer \<Rightarrow> (nat \<times> xfer) outcome" where
  "push_finalize_shared grants cell nx =
    (case nx of (n, x) \<Rightarrow>
      let param = n + 1 in
      (case cell of
         None \<Rightarrow> Throw (param - 1, x)
       | Some c \<Rightarrow>
           let shared = param + 1 in
           (case push_finalize_auto grants c x of
              (Done x', del) \<Rightarrow> Done (shared - length del - 1, x')
            | (Throw x', del) \<Rightarrow> Throw (shared - length del - 1, x')
            | (Fault, del) \<Rightarrow> Fault
            | (Diverge, del) \<Rightarrow> Diverge)))"

lemma push_finalize_shared_counts:
  assumes "xf_inv x" and "moderate grants"
  shows "(\<exists>x' c. cell = Some c \<and> push_finalize_shared grants cell (n, x) = Done (n + 1, x')
        \<and> xf_items x' = xf_items x @ [XF_FINALIZE object_delete c])
    \<or> push_finalize_shared grants cell (n, x) = Throw (n, x)"
proof (cases cell)
  case (Some c)
  from push_finalize_auto_once [OF assms, of c] show ?thesis by (auto simp: push_finalize_shared_def Some)
qed (simp add: push_finalize_shared_def)

text \<open>How often the deletion of an object waits for the output of a descriptor.\<close>

definition waiting :: "nat \<Rightarrow> 'k out_state \<Rightarrow> nat \<Rightarrow> nat" where
  "waiting ob s fd = deletes ob (xf_flat (xf_items (o_ctx s fd)))"

lemma deletes_simps [simp]:
  "deletes ob (xs @ ys) = deletes ob xs + deletes ob ys" "deletes ob [] = 0"
  "deletes ob (map Mem_byte ns) = 0" "deletes ob (iov_bytes vec) = 0"
  "deletes ob [Finalized object_delete ob'] = (if ob = ob' then 1 else 0)"
proof -
  show "deletes ob (map Mem_byte ns) = 0" for ns by (induction ns) (simp_all add: deletes_def)
  then show "deletes ob (iov_bytes vec) = 0"
    by (induction vec rule: iov_bytes.induct) (simp_all add: deletes_def)
qed (simp_all add: deletes_def)

lemma execute_writev_items:
  assumes "execute io fd 0 (core_writev_items vec fin user) k = Some (True, rest, tr, k')"
  shows "\<exists>n. tr = take n (iov_bytes vec)"
  using assms by (auto simp: core_writev_items_def emit_def split: prod.splits sysres.splits if_splits
      intro: exI [of _ 0])

lemma core_writev_throw:
  assumes "out_ok io grants interest s" and "out_valid s fd" and "core_writev io grants fd vec fin user s = Throw s'"
  shows "\<exists>n. o_trace s' = (o_trace s)(fd := o_trace s fd @ take n (iov_bytes vec)) \<and> o_ctx s' = o_ctx s
    \<and> (n \<noteq> 0 \<longrightarrow> xf_items (o_ctx s fd) = [])"
proof (cases "xf_items (o_ctx s fd) = []")
  case False
  with assms(2,3) have "s' = s"
    by (auto simp: core_writev_def commit_raw_def Let_def out_valid_def split: outcome.splits)
  then show ?thesis by (intro exI [of _ 0]) simp
next
  case True
  with assms(2,3) obtain rest tr k where
    e: "execute io fd 0 (core_writev_items vec fin user) (o_kern s) = Some (True, rest, tr, k)"
      "s' = put_ctx fd (o_ctx s fd) tr k s"
    by (auto simp: core_writev_def commit_raw_def Let_def out_valid_def split: outcome.splits option.splits if_splits)
  with execute_writev_items [OF e(1)] True show ?thesis by (auto simp: put_ctx_def)
qed

lemma core_writev_result:
  assumes "out_ok io grants interest s" and "fd < o_max s" and "iov_bytes vec \<noteq> []" and "length vec \<le> 2" and "fin \<noteq> 0"
  shows "(\<exists>s'. core_writev io grants fd vec fin user s = Done s'
        \<and> queued s' fd = queued s fd @ iov_bytes vec @ [Finalized fin user] \<and> (\<forall>g. g \<noteq> fd \<longrightarrow> queued s' g = queued s g))
    \<or> (\<exists>s' n. core_writev io grants fd vec fin user s = Throw s'
        \<and> queued s' fd = queued s fd @ take n (iov_bytes vec) \<and> (\<forall>g. g \<noteq> fd \<longrightarrow> queued s' g = queued s g))"
proof -
  have v: "out_valid s fd" "sendable_items (core_writev_items vec fin user)"
    using assms(2-4) by (simp_all add: out_valid_def sendable_items_def core_writev_items_def sendable_item_def full_item_def
        sizeof_iovec_def sizeof_finalize_def)
  from out.submit_runs [OF assms(1) v] show ?thesis
  proof (elim disjE exE)
    fix s' assume "commit_raw io grants fd (core_writev_items vec fin user) s = Done s'"
    with out.submit_done [OF assms(1) v this] assms(5) show ?thesis
      by (intro disjI1 exI [of _ s']) (simp add: core_writev_def core_writev_items_def)
  next
    fix s' assume "commit_raw io grants fd (core_writev_items vec fin user) s = Throw s'"
    then have t: "core_writev io grants fd vec fin user s = Throw s'" by (simp add: core_writev_def)
    from core_writev_throw [OF assms(1) v(1) t] obtain n where
      "o_trace s' = (o_trace s)(fd := o_trace s fd @ take n (iov_bytes vec))" "o_ctx s' = o_ctx s"
      "n \<noteq> 0 \<longrightarrow> xf_items (o_ctx s fd) = []" by blast
    then have "queued s' fd = queued s fd @ take n (iov_bytes vec)" "\<forall>g. g \<noteq> fd \<longrightarrow> queued s' g = queued s g"
      by (cases n; simp add: queued_def)+
    with t show ?thesis by blast
  qed
qed

text \<open>
  \<open>out::~out\<close> destroys the buffer of every descriptor: the events of one descriptor over the whole life of
  the output handler. Write events, whether the connection lives or breaks, leave the deletions as they
  are, and the destructor runs those that are left: an object handed over is deleted once.
\<close>

definition out_destroy :: "'k out_state \<Rightarrow> nat \<Rightarrow> io_event list" where
  "out_destroy s fd = o_trace s fd @ (if fd < o_max s then xfer_destroy (o_ctx s fd) else [])"

inductive written :: "'k sockets \<Rightarrow> 'k out_state \<Rightarrow> 'k out_state \<Rightarrow> bool" for io s where
  start: "written io s s"
| event: "written io s s1 \<Longrightarrow> unat (event_ident e) < o_max s1 \<Longrightarrow> write_event io e s1 = Done s2 \<Longrightarrow> written io s s2"

lemma deletes_final: "deletes ob (filter is_final tr) = deletes ob tr"
  by (induction tr) (auto simp: deletes_def)

lemma out_destroy_deletes:
  assumes "out_inv io interest s" and "fd < o_max s"
  shows "deletes ob (out_destroy s fd) = deletes ob (queued s fd)"
proof -
  have "xf_inv (o_ctx s fd)" using assms(1) by (simp add: out_inv_def)
  then have "xfer_destroy (o_ctx s fd) = filter is_final (xf_flat (xf_items (o_ctx s fd)))"
    by (auto simp: xfer_destroy_def xf_reset_def xf_finalizers_flat xf_inv_def)
  then show ?thesis using assms(2) by (simp add: out_destroy_def queued_def deletes_final)
qed

lemma written_deletes:
  assumes "written io s s'" and "out_inv io interest s"
  shows "out_inv io interest s' \<and> o_max s' = o_max s \<and> deletes ob (queued s' fd) = deletes ob (queued s fd)"
  using assms
proof (induction rule: written.induct)
  case (event s1 e s2)
  from event.IH event.prems have IH: "out_inv io interest s1" "o_max s1 = o_max s"
    "deletes ob (queued s1 fd) = deletes ob (queued s fd)" by simp_all
  note w = write_event_ok [OF IH(1) event.hyps(2,3)]
  have "deletes ob (queued s2 fd) = deletes ob (queued s1 fd)"
  proof (cases "fd = unat (event_ident e)")
    case True
    show ?thesis using w(4) unfolding True by (metis deletes_final)
  next
    case False
    then show ?thesis using w(2) by (simp add: same_elsewhere_def queued_def)
  qed
  with w(1,3) IH show ?case by simp
qed simp

lemma handed_object_deleted_once:
  assumes "out_ok io grants interest s" and "fd < o_max s" and "iov_bytes vec \<noteq> []" and "length vec \<le> 2"
    and r: "core_writev io grants fd vec object_delete ob s = Done s1" and "written io s1 s2"
  shows "deletes ob (out_destroy s2 fd) = deletes ob (queued s fd) + 1"
proof -
  have fin: "object_delete \<noteq> 0" by (simp add: object_delete_def)
  from core_writev_result [OF assms(1-4) fin, of ob] r
  have "queued s1 fd = queued s fd @ iov_bytes vec @ [Finalized object_delete ob]" by auto
  then have one: "deletes ob (queued s1 fd) = deletes ob (queued s fd) + 1" by simp
  have inv: "out_inv io interest s" "moderate grants" using assms(1) by (simp_all add: out_ok_def)
  have i: "core_writev_items vec object_delete ob \<noteq> []" "xf_size (core_writev_items vec object_delete ob) < 2 ^ 62"
    using assms(4) by (simp_all add: core_writev_items_def sizeof_iovec_def sizeof_finalize_def)
  note c = commit_raw_ok [OF inv assms(2) i r [unfolded core_writev_def]]
  from written_deletes [OF assms(6) c(1), of ob fd] one c(3) assms(2) show ?thesis
    using out_destroy_deletes [of io interest s2 fd ob] by simp
qed


lemma sample_valid: "5 < o_max sample_out" "queued sample_out 5 = []"
  by (simp_all add: sample_out_def out_new_def queued_def xfer_new_def)


text \<open>
  A shared object stays alive while its output waits. A \<open>writev\<close> with a \<open>shared_ptr\<close>, whose copy on the
  heap has a new address, leaves the count of the owners as it was when it throws; when it returns,
  the count is one higher exactly if the deletion of the copy waits behind the bytes, and otherwise,
  the bytes being sent, as it was.
\<close>

theorem writev_shared_counts:
  assumes "out_ok io grants interest s" and "fd < o_max s" and "iov_bytes vec \<noteq> []" and "length vec \<le> 2"
    and "\<forall>c. cell = Some c \<longrightarrow> deletes c (queued s fd) = 0"
  shows "(\<exists>s'. writev_shared io grants fd vec cell (n, s) = Throw (n, s'))
    \<or> (\<exists>c s'. cell = Some c \<and> writev_shared io grants fd vec cell (n, s) = Done (n + waiting c s' fd, s')
        \<and> deletes c (queued s' fd) = 1 \<and> waiting c s' fd \<le> 1)"
proof (cases cell)
  case None
  then show ?thesis by (simp add: writev_shared_def)
next
  case (Some c)
  have old: "deletes c (o_trace s fd) = 0" "deletes c (xf_flat (xf_items (o_ctx s fd))) = 0"
    using assms(5) Some by (simp_all add: queued_def)
  have none: "deletes c (take m (iov_bytes vec)) = 0" for m
    by (metis append_take_drop_id deletes_simps(1,4) add_is_0)
  have "object_delete \<noteq> 0" by (simp add: object_delete_def)
  from core_writev_result [OF assms(1-4) this, of c] show ?thesis
  proof (elim disjE exE conjE)
    fix s' assume w: "core_writev io grants fd vec object_delete c s = Done s'"
      and q: "queued s' fd = queued s fd @ iov_bytes vec @ [Finalized object_delete c]"
    have one: "deletes c (queued s' fd) = 1" using old by (simp add: q) (simp add: queued_def)
    then have "deletes c (o_trace s' fd) + waiting c s' fd = 1" by (simp add: queued_def waiting_def)
    then show ?thesis using w one old by (simp add: writev_shared_def writev_auto_def Some)
  next
    fix s' m assume w: "core_writev io grants fd vec object_delete c s = Throw s'"
    have "out_valid s fd" using assms(2) by (simp add: out_valid_def)
    from core_writev_throw [OF assms(1) this w] obtain m where
      "o_trace s' = (o_trace s)(fd := o_trace s fd @ take m (iov_bytes vec))" by blast
    then have "deletes c (o_trace s' fd) = 0" using old none by simp
    then show ?thesis using w old by (simp add: writev_shared_def writev_auto_def Some)
  qed
qed

theorem writev_shared_counts_witness:
  "\<exists>m s'. writev_shared slow_sockets half_memory 5 [(100, 4), (200, 2)] (Some 77) (3, sample_out) \<in> {Done (m, s'), Throw (m, s')}
    \<and> (m = 3 \<or> m = 4 \<and> waiting 77 s' 5 = 1)"
proof -
  have v: "iov_bytes [(100, 4), (200, 2)] \<noteq> []" "length [(100::nat, 4::nat), (200, 2)] \<le> 2" by simp_all
  have "\<forall>c. Some 77 = Some c \<longrightarrow> deletes c (queued sample_out 5) = 0" by (simp add: sample_valid(2))
  from writev_shared_counts [OF sample_out_ok sample_valid(1) v this, of 3] show ?thesis
  proof (elim disjE exE conjE)
    fix c s' assume "Some 77 = Some c" "waiting c s' 5 \<le> 1"
      "writev_shared slow_sockets half_memory 5 [(100, 4), (200, 2)] (Some 77) (3, sample_out) = Done (3 + waiting c s' 5, s')"
    then show ?thesis by (intro exI [of _ "3 + waiting c s' 5"] exI [of _ s']) auto
  qed auto
qed

section \<open>The static interface\<close>

text \<open>
  \<open>singleton\<close> keeps one core and forwards to it; \<open>None\<close> is the null pointer before \<open>init\<close>. A header given
  as vectors is the address of their array in memory (16 bytes each) and their number.
\<close>

definition on_core :: "('k out_state \<Rightarrow> 'k out_state outcome) \<Rightarrow> 'k out_state option \<Rightarrow> 'k out_state option outcome" where
  "on_core f c = (case c of
     None \<Rightarrow> Fault
   | Some s \<Rightarrow> (case f s of Done s' \<Rightarrow> Done (Some s') | Throw s' \<Rightarrow> Throw (Some s') | Fault \<Rightarrow> Fault | Diverge \<Rightarrow> Diverge))"

definition singleton_init :: "nat \<Rightarrow> c_int \<Rightarrow> 'k \<Rightarrow> 'k out_state option" where
  "singleton_init rlim ep k = Some (out_new rlim ep k)"

definition singleton_write where
  "singleton_write io grants fd buf sz = on_core (out_write io grants fd buf sz)"

definition singleton_write_fin where
  "singleton_write_fin io grants fd buf sz fin user = on_core (core_write io grants fd buf sz fin user)"

definition singleton_writev where
  "singleton_writev io grants fd vec fin user = on_core (core_writev io grants fd vec fin user)"

definition singleton_sendfile where
  "singleton_sendfile io grants fd infd off sz fin user =
     on_core (commit_raw io grants fd (core_sendfile_items infd off sz fin user))"

definition singleton_hsendfile where
  "singleton_hsendfile io grants fd header header_size infd off sz fin user =
     on_core (commit_raw io grants fd (core_hsendfile_items header header_size infd off sz fin user))"

definition singleton_commit where
  "singleton_commit io grants fd xf c = (case c of None \<Rightarrow> Fault | Some s \<Rightarrow> commit io grants fd (xf, s))"

definition singleton_writev_auto where
  "singleton_writev_auto io grants fd vec fin c = (case c of None \<Rightarrow> Fault | Some s \<Rightarrow> writev_auto io grants fd vec (fin, s))"

definition singleton_writev_shared where
  "singleton_writev_shared io grants fd vec cell n c =
     (case c of None \<Rightarrow> Fault | Some s \<Rightarrow> writev_shared io grants fd vec cell (n, s))"

text \<open>It calls \<open>hsendfile\<close> of the core, to which the array of vectors is a plain header.\<close>

definition singleton_hvsendfile where
  "singleton_hvsendfile io grants fd header_vec header_veclen infd off sz fin user =
     on_core (commit_raw io grants fd (core_hsendfile_items header_vec header_veclen infd off sz fin user))"

text \<open>
  So \<open>hvsendfile\<close> sends the first \<open>header_veclen\<close> bytes of the array itself, as many bytes as there are
  vectors, and none of the bytes the vectors describe, before the file.
\<close>

lemma hvsendfile_sends_the_array:
  assumes "out_ok io grants interest s" and "fd < o_max s" and "0 < n" and "0 < sz" and "fin \<noteq> 0"
    and "singleton_hvsendfile io grants fd va n infd off sz fin user (Some s) = Done (Some s')"
  shows "queued s' fd = queued s fd @ map Mem_byte [va..<va + n] @ map (File_byte infd) [off..<off + sz] @ [Finalized fin user]"
proof -
  have r: "commit_raw io grants fd (core_hsendfile_items va n infd off sz fin user) s = Done s'"
    using assms(6) by (simp add: singleton_hvsendfile_def on_core_def split: outcome.splits)
  have "out_valid s fd" "sendable_items (core_hsendfile_items va n infd off sz fin user)"
    using assms(2-4) by (simp_all add: out_valid_def sendable_items_def core_hsendfile_items_def sendable_item_def full_item_def
        sizeof_iovec_def sizeof_finalize_def sizeof_sendfile_def)
  from out.submit_done [OF assms(1) this r] assms(5) show ?thesis by (simp add: core_hsendfile_items_def)
qed

end
