(* ===== verification/Wavy_Reuse.thy ===== *)
theory Wavy_Reuse
  imports Wavy_Out
begin

text \<open>
  Descriptors that are closed and given out again. \<open>handler::~handler\<close> (\<^verbatim>\<open>src/mp/wavy/core.pre.h\<close>) closes the
  descriptor of a connection; the output handler (\<^verbatim>\<open>src/mpsrc/wavy_out.cc\<close>) keeps a queue for every
  descriptor number and is not told. What holds when nothing waited on the descriptor, and what
  happens to the next connection with its number when something did.
\<close>

section \<open>Closing\<close>

definition handler_close :: "'k sockets \<Rightarrow> nat \<Rightarrow> 'k out_state \<Rightarrow> 'k out_state" where
  "handler_close io fd s = s\<lparr>o_kern := close_fd (sys_port io) (of_nat fd) (o_kern s)\<rparr>"

text \<open>The kernel drops a closed descriptor from every \<open>epoll\<close> set.\<close>

definition close_unwatches :: "'k sockets \<Rightarrow> ('k \<Rightarrow> nat set) \<Rightarrow> bool" where
  "close_unwatches io interest \<longleftrightarrow>
     (\<forall>fd < 2 ^ 31. \<forall>k. interest (close_fd (sys_port io) (of_nat fd) k) = interest k - {fd})"

lemma handler_close_simps [simp]:
  "o_ctx (handler_close io fd s) = o_ctx s" "o_max (handler_close io fd s) = o_max s"
  "o_ep (handler_close io fd s) = o_ep s" "o_trace (handler_close io fd s) = o_trace s"
  by (simp_all add: handler_close_def)

lemma handler_close_interest:
  "close_unwatches io interest \<Longrightarrow> fd < 2 ^ 31 \<Longrightarrow>
    interest (o_kern (handler_close io fd s)) = interest (o_kern s) - {fd}"
  by (simp add: handler_close_def close_unwatches_def)

section \<open>Runs with connections that come and go\<close>

text \<open>What a connection does with the output handler.\<close>

inductive submits :: "'k sockets \<Rightarrow> (nat \<Rightarrow> bool) \<Rightarrow> nat \<Rightarrow> 'k out_state \<Rightarrow> 'k out_state \<Rightarrow> bool"
  for io :: "'k sockets" and grants :: "nat \<Rightarrow> bool" and fd :: nat and s s' :: "'k out_state"
where
  raw: "is \<noteq> [] \<Longrightarrow> xf_size is < 2 ^ 62 \<Longrightarrow> commit_raw io grants fd is s = Done s' \<Longrightarrow> submits io grants fd s s'"
| xf: "xf_inv xf \<Longrightarrow> xf_items xf \<noteq> [] \<Longrightarrow> commit io grants fd (xf, s) = Done (xf', s') \<Longrightarrow>
    submits io grants fd s s'"
| bytes: "out_write io grants fd buf sz s = Done s' \<Longrightarrow> submits io grants fd s s'"

text \<open>
  The kernel reports a descriptor only while it is watched. With \<open>idle\<close>, connections are closed only when
  nothing waits for them.
\<close>

inductive live_step :: "bool \<Rightarrow> 'k sockets \<Rightarrow> (nat \<Rightarrow> bool) \<Rightarrow> ('k \<Rightarrow> nat set) \<Rightarrow> 'k out_state \<Rightarrow> 'k out_state \<Rightarrow> bool"
  for idle :: bool and io :: "'k sockets" and grants :: "nat \<Rightarrow> bool" and interest :: "'k \<Rightarrow> nat set"
where
  submit: "fd < o_max s \<Longrightarrow> submits io grants fd s s' \<Longrightarrow> live_step idle io grants interest s s'"
| event: "unat (event_ident e) < o_max s \<Longrightarrow> unat (event_ident e) \<in> interest (o_kern s) \<Longrightarrow>
    write_event io e s = Done s' \<Longrightarrow> live_step idle io grants interest s s'"
| close: "fd < o_max s \<Longrightarrow> idle \<longrightarrow> xf_items (o_ctx s fd) = [] \<Longrightarrow>
    live_step idle io grants interest s (handler_close io fd s)"

inductive live_run :: "bool \<Rightarrow> 'k sockets \<Rightarrow> (nat \<Rightarrow> bool) \<Rightarrow> ('k \<Rightarrow> nat set) \<Rightarrow> 'k out_state \<Rightarrow> 'k out_state \<Rightarrow> bool"
  for idle :: bool and io :: "'k sockets" and grants :: "nat \<Rightarrow> bool" and interest :: "'k \<Rightarrow> nat set"
    and s :: "'k out_state"
where
  start: "live_run idle io grants interest s s"
| step: "live_run idle io grants interest s s1 \<Longrightarrow> live_step idle io grants interest s1 s2 \<Longrightarrow>
    live_run idle io grants interest s s2"

lemma submits_out_step: "fd < o_max s \<Longrightarrow> submits io grants fd s s' \<Longrightarrow> out_step io grants s s'"
  by (erule submits.cases) (auto intro: out_step.intros)

section \<open>Closing idle descriptors\<close>

lemma handler_close_idle:
  assumes "out_inv io interest s" and "close_unwatches io interest" and "fd < o_max s" and "xf_items (o_ctx s fd) = []"
  shows "out_inv io interest (handler_close io fd s)"
proof -
  have "fd < 2 ^ 31" using assms(1,3) by (simp add: out_inv_def)
  with assms show ?thesis by (auto simp: out_inv_def handler_close_interest)
qed

lemma live_step_inv:
  assumes "live_step True io grants interest s s'" and "out_inv io interest s" and "moderate grants"
    and "close_unwatches io interest"
  shows "out_inv io interest s' \<and> o_max s' = o_max s"
  using assms(1)
proof cases
  case (submit fd)
  from out_step_inv [OF submits_out_step [OF submit] assms(2,3)] show ?thesis .
next
  case (event e)
  from out_step_inv [OF out_step.step_event [OF event(1,3)] assms(2,3)] show ?thesis .
next
  case (close fd)
  with handler_close_idle [OF assms(2,4)] show ?thesis by simp
qed

section \<open>Closing a descriptor on which output waits\<close>

text \<open>A queue that nothing will move: bytes wait, and no event can come.\<close>

definition stale :: "('k \<Rightarrow> nat set) \<Rightarrow> nat \<Rightarrow> 'k out_state \<Rightarrow> bool" where
  "stale interest fd s \<longleftrightarrow> xf_head (o_ctx s fd) \<and> xf_items (o_ctx s fd) \<noteq> [] \<and> fd \<notin> interest (o_kern s)"

lemma pushed_items:
  assumes "push_xfraw grants is x = Done x'"
  shows "xf_items x' = xf_items x @ is" and "xf_head x \<Longrightarrow> xf_head x'"
  using assms by (auto simp: push_xfraw_def xf_reserve_def Let_def split: if_splits option.splits)

lemma migrated_items:
  assumes "migrate grants x to = Done (x', to')" and "xf_head to"
  shows "xf_items to' = xf_items to @ xf_items x" and "xf_head to'"
  using assms by (auto simp: migrate_def xf_reserve_def Let_def split: if_splits option.splits)

text \<open>The new connection's output goes behind the old one's, and nothing else happens.\<close>

lemma submits_stale:
  assumes "submits io grants fd s s'" and "stale interest fd s"
  shows "stale interest fd s'" and "o_trace s' fd = o_trace s fd" and "\<exists>more. queued s' fd = queued s fd @ more"
proof -
  have busy: "xf_items (o_ctx s fd) \<noteq> []" "xf_head (o_ctx s fd)" using assms(2) by (simp_all add: stale_def)
  have "\<exists>x is. s' = put_ctx fd x [] (o_kern s) s \<and> xf_items x = xf_items (o_ctx s fd) @ is \<and> xf_head x"
    using assms(1)
  proof cases
    case (raw "is")
    with busy obtain x where x: "push_xfraw grants is (o_ctx s fd) = Done x" "s' = put_ctx fd x [] (o_kern s) s"
      by (auto simp: commit_raw_def Let_def split: outcome.splits if_splits)
    from pushed_items [OF x(1)] busy(2) x(2) show ?thesis by blast
  next
    case (xf xf xf')
    with busy obtain x where x: "migrate grants xf (o_ctx s fd) = Done (xf', x)" "s' = put_ctx fd x [] (o_kern s) s"
      by (auto simp: commit_def Let_def split: outcome.splits if_splits)
    from migrated_items [OF x(1) busy(2)] x(2) show ?thesis by blast
  next
    case (bytes buf sz)
    with busy obtain x where x: "push_xfraw grants [XF_IOVEC [(buf, sz)]] (o_ctx s fd) = Done x"
      "s' = put_ctx fd x [] (o_kern s) s"
      by (auto simp: out_write_def push_write_def push_item_xfraw Let_def split: outcome.splits if_splits)
    from pushed_items [OF x(1)] busy(2) x(2) show ?thesis by blast
  qed
  then show "stale interest fd s'" and "o_trace s' fd = o_trace s fd" and "\<exists>more. queued s' fd = queued s fd @ more"
    using assms(2) by (auto simp: stale_def queued_def)
qed

text \<open>What happens on another descriptor.\<close>

definition moved :: "('k \<Rightarrow> nat set) \<Rightarrow> nat \<Rightarrow> 'k out_state \<Rightarrow> 'k out_state \<Rightarrow> bool" where
  "moved interest g s s' \<longleftrightarrow>
     (\<exists>x tr k. s' = put_ctx g x tr k s \<and> interest k - {g} = interest (o_kern s) - {g})"

lemma movedI: "s' = put_ctx g x tr k s \<Longrightarrow> interest k - {g} = interest (o_kern s) - {g} \<Longrightarrow> moved interest g s s'"
  by (auto simp: moved_def)

lemma moved_watch:
  assumes "port_keeps io (o_ep s) interest" and "g < 2 ^ 31" and "interest k = interest (o_kern s)"
  shows "moved interest g s (watch io g (put_ctx g x tr k s))"
  by (rule movedI [of _ _ x tr "snd (add_fd (sys_port io) (o_ep s) (of_nat g) EVPORT_WRITE k)"])
    (simp_all add: watch_def put_ctx_def port_keepsD(5) [OF assms(1,2)] assms(3))

lemma try_write_interest:
  assumes "port_keeps io ep interest" and "try_write io fd x k = Some (cont, x', tr, k')"
  shows "interest k' = interest k"
proof -
  obtain rest k1 where e: "execute io fd 0 (xf_items x) k = Some (cont, rest, tr, k1)"
    and k': "k' = k1 \<or> k' = sys_shutdown io fd k1"
    using assms(2) by (auto simp: try_write_def Let_def split: option.splits if_splits)
  from k' execute_interest [OF assms(1) e] port_keepsD(4) [OF assms(1)] show ?thesis by auto
qed

lemma submits_moved:
  assumes "submits io grants g s s'" and port: "port_keeps io (o_ep s) interest" and g: "g < 2 ^ 31"
  shows "moved interest g s s'"
  using assms(1)
proof cases
  case (raw "is")
  show ?thesis
  proof (cases "xf_items (o_ctx s g) = []")
    case True
    with raw obtain cont rest tr k where e: "execute io g 0 is (o_kern s) = Some (cont, rest, tr, k)"
      by (auto simp: commit_raw_def Let_def split: option.splits if_splits)
    note k = execute_interest [OF port e]
    from raw(3) True e k moved_watch [OF port g k] show ?thesis
      by (auto simp: commit_raw_def Let_def put_ctx_twice intro: movedI split: outcome.splits if_splits)
  next
    case False
    with raw(3) show ?thesis
      by (auto simp: commit_raw_def Let_def intro: movedI split: outcome.splits if_splits)
  qed
next
  case (xf xf xf')
  show ?thesis
  proof (cases "xf_items (o_ctx s g) = []")
    case True
    with xf obtain cont xf1 tr k where e: "try_write io g xf (o_kern s) = Some (cont, xf1, tr, k)"
      by (auto simp: commit_def Let_def split: option.splits if_splits)
    note k = try_write_interest [OF port e]
    from xf(3) True e k moved_watch [OF port g k] show ?thesis
      by (auto simp: commit_def Let_def put_ctx_twice intro: movedI split: outcome.splits if_splits)
  next
    case False
    with xf(3) show ?thesis
      by (auto simp: commit_def Let_def intro: movedI split: outcome.splits if_splits)
  qed
next
  case (bytes buf sz)
  obtain r k where w: "sys_write io g buf sz (o_kern s) = (r, k)" by (cases "sys_write io g buf sz (o_kern s)")
  have k: "interest k = interest (o_kern s)" "interest (sys_shutdown io g k) = interest (o_kern s)"
    using port_keepsD(3) [OF port, of g buf sz "o_kern s"] port_keepsD(4) [OF port] w by simp_all
  from bytes w k moved_watch [OF port g k(1)] show ?thesis
    by (auto simp: out_write_def Let_def intro: movedI split: outcome.splits sysres.splits if_splits)
qed

lemma event_moved:
  assumes "write_event io e s = Done s'" and port: "port_keeps io (o_ep s) interest"
    and e: "unat (event_ident e) < 2 ^ 31"
  shows "moved interest (unat (event_ident e)) s s'"
proof -
  let ?g = "unat (event_ident e)"
  from assms(1) obtain cont x1 tr k where t: "try_write io ?g (o_ctx s ?g) (o_kern s) = Some (cont, x1, tr, k)"
    by (auto simp: write_event_def Let_def split: option.splits if_splits)
  have k: "interest k = interest (o_kern s)" by (rule try_write_interest [OF port t])
  from assms(1) t k port_keepsD(6,7) [OF port e] show ?thesis
    by (auto simp: write_event_def Let_def intro!: movedI split: if_splits prod.splits)
qed

lemma moved_elsewhere:
  assumes "moved interest g s s'" and "g \<noteq> fd" and "stale interest fd s"
  shows "stale interest fd s'" and "o_trace s' fd = o_trace s fd" and "queued s' fd = queued s fd"
proof -
  from assms(1) obtain x tr k where s': "s' = put_ctx g x tr k s" "interest k - {g} = interest (o_kern s) - {g}"
    unfolding moved_def by blast
  with assms(2) have "fd \<in> interest k \<longleftrightarrow> fd \<in> interest (o_kern s)" by blast
  with s'(1) assms(2,3) show "stale interest fd s'" and "o_trace s' fd = o_trace s fd"
    and "queued s' fd = queued s fd"
    by (simp_all add: stale_def queued_def)
qed

text \<open>
  The bad situation is stable, whatever the connections do: a step moves the queue of another
  descriptor, appends to this one, or closes a descriptor.
\<close>

definition stuck_since :: "'k sockets \<Rightarrow> ('k \<Rightarrow> nat set) \<Rightarrow> nat \<Rightarrow> 'k out_state \<Rightarrow> 'k out_state \<Rightarrow> bool" where
  "stuck_since io interest fd s s' \<longleftrightarrow> stale interest fd s' \<and> o_max s' = o_max s \<and> o_ep s' = o_ep s
     \<and> o_trace s' fd = o_trace s fd \<and> (\<exists>more. queued s' fd = queued s fd @ more)"

lemma moved_frame: "moved interest g s s' \<Longrightarrow> o_max s' = o_max s \<and> o_ep s' = o_ep s"
  unfolding moved_def by (metis put_ctx_simps(2,3))

lemma live_step_stuck:
  assumes "live_step idle io grants interest s1 s2" and st: "stuck_since io interest fd s s1"
    and port: "port_keeps io (o_ep s) interest" and close: "close_unwatches io interest"
    and max: "o_max s \<le> 2 ^ 31"
  shows "stuck_since io interest fd s s2"
proof -
  from st port have p: "port_keeps io (o_ep s1) interest" and stale: "stale interest fd s1"
    and m: "o_max s1 \<le> 2 ^ 31" using max by (simp_all add: stuck_since_def)
  have append: "stuck_since io interest fd s s2"
    if "stale interest fd s2" "o_trace s2 fd = o_trace s1 fd" "\<exists>more. queued s2 fd = queued s1 fd @ more"
      "o_max s2 = o_max s1 \<and> o_ep s2 = o_ep s1"
    using that st by (auto simp: stuck_since_def)
  from assms(1) show ?thesis
  proof cases
    case (submit g)
    then have g: "g < 2 ^ 31" using m by simp
    note mv = submits_moved [OF submit(2) p g]
    show ?thesis
    proof (cases "g = fd")
      case True
      from submits_stale [OF submit(2) [unfolded True] stale] moved_frame [OF mv] show ?thesis by (rule append)
    next
      case False
      from moved_elsewhere [OF mv False stale] moved_frame [OF mv] show ?thesis by (intro append) auto
    qed
  next
    case (event e)
    have e: "unat (event_ident e) < 2 ^ 31" using event(1) m by simp
    have other: "unat (event_ident e) \<noteq> fd" using event(2) stale by (auto simp: stale_def)
    note mv = event_moved [OF event(3) p e]
    from moved_elsewhere [OF mv other stale] moved_frame [OF mv] show ?thesis by (intro append) auto
  next
    case (close g)
    have g: "g < 2 ^ 31" using close(2) m by simp
    have "stale interest fd s2" "queued s2 fd = queued s1 fd"
      using stale by (simp_all add: close(1) stale_def queued_def handler_close_interest [OF assms(4) g])
    then show ?thesis by (intro append) (simp_all add: close(1))
  qed
qed

lemma live_run_stuck:
  assumes "live_run idle io grants interest s s'" and "stale interest fd s"
    and "port_keeps io (o_ep s) interest" and "close_unwatches io interest" and "o_max s \<le> 2 ^ 31"
  shows "stuck_since io interest fd s s'"
  using assms(1)
proof induction
  case start
  show ?case using assms(2) by (simp add: stuck_since_def)
next
  case (step s1 s2)
  from live_step_stuck [OF step.hyps(2) step.IH assms(3-5)] show ?case .
qed

lemma close_makes_stale:
  assumes "out_inv io interest s" and "close_unwatches io interest" and "fd < o_max s" and "xf_items (o_ctx s fd) \<noteq> []"
  shows "stale interest fd (handler_close io fd s)"
proof -
  have "xf_head (o_ctx s fd)" using assms(1,4) by (auto simp: out_inv_def xf_inv_def)
  moreover have "fd < 2 ^ 31" using assms(1,3) by (simp add: out_inv_def)
  ultimately show ?thesis using assms(4) by (simp add: stale_def handler_close_interest [OF assms(2)])
qed

section \<open>Properties\<close>



section \<open>A descriptor that is reused\<close>

text \<open>
  The kernel of \<open>Wavy_Out\<close> with a \<open>close\<close>. The connection on descriptor 5 is closed while seven bytes and a
  finalizer wait; the next connection with the number hands over four bytes.
\<close>

definition closing_sockets :: "nat list sockets" where
  "closing_sockets = slow_sockets\<lparr>sys_port := list_port\<lparr>close_fd := (\<lambda>fd k. filter (\<lambda>g. g \<noteq> unat fd) k)\<rparr>\<rparr>"

lemma closing_port: "port_keeps closing_sockets ep set"
  by (auto simp: port_keeps_def closing_sockets_def slow_sockets_def list_port_def unat_of_nat take_bit_nat_eq_self)

lemma closing_unwatches: "close_unwatches closing_sockets set"
  by (auto simp: close_unwatches_def closing_sockets_def unat_of_nat take_bit_nat_eq_self)

lemma waiting_inv: "out_inv closing_sockets set sample_waiting"
  by (auto simp: out_inv_def closing_port sample_waiting_def sample_out_def out_new_def xf_inv_def xfer_new_def
      xf_used_def sizeof_iovec_def sizeof_finalize_def)

lemma idle_inv: "out_inv closing_sockets set sample_out"
  using out_new_inv [OF closing_port, of "[]" 16] by (simp add: sample_out_def)


definition reused :: "nat list out_state" where
  "reused = put_ctx 5
     \<lparr>xf_head = True, xf_items = [XF_IOVEC [(103, 7)], XF_FINALIZE 1 2, XF_IOVEC [(200, 4)]], xf_free = 12\<rparr> [] []
     (handler_close closing_sockets 5 sample_waiting)"

lemma reused_write:
  "out_write closing_sockets half_memory 5 200 4 (handler_close closing_sockets 5 sample_waiting) = Done reused"
  by (simp add: out_write_def Let_def push_write_def push_item_def sizeof_iovec_def reused_def put_ctx_def
      handler_close_def sample_waiting_def sample_out_def out_new_def closing_sockets_def fun_eq_iff)


text \<open>
  An event of the old connection, fetched before it was closed and handled after the number was given out
  again, sends the old connection's bytes to the new one.
\<close>

lemma late_event_crosses:
  "\<exists>s. write_event closing_sockets 5 reused = Done s \<and> o_trace s 5 = o_trace reused 5 @ map Mem_byte [103..<106]"
proof -
  have ident: "unat (event_ident 5) = 5" by code_simp
  show ?thesis
    by (simp add: write_event_def Let_def ident try_write_def reused_def closing_sockets_def slow_sockets_def
        handler_close_def sample_waiting_def sample_out_def out_new_def put_ctx_def upt_conv_Cons)
qed

end
