(* ===== verification/Core_Life.thy ===== *)
theory Core_Life
  imports Wavy_Core
begin

text \<open>
  The life of a core: \<open>add_thread\<close>, \<open>end\<close>, \<open>join\<close>, \<open>detach\<close> and the destructor of \<open>coreimpl\<close>
  (\<^verbatim>\<open>src/mpsrc/wavy_base.cc\<close>), called by the thread that owns the core, interleaved with the steps of
  its workers (\<open>core_step\<close> of \<open>Wavy_Core\<close>).
\<close>

section \<open>State\<close>

text \<open>
  Where the owner is: between two calls, in \<open>end\<close> between the flag and the broadcast, in \<open>join\<close> with
  the workers it has still to join, in the destructor before its own broadcast and before the
  deletion, or past it.
\<close>

datatype owner = O_run | O_end owner | O_join "tid list" | O_dtor | O_delete | O_gone

text \<open>
  \<open>l_joined\<close>: \<open>join\<close> returned and no worker was added since. \<open>l_failed\<close>: \<open>pthread_create\<close> failed once.
  \<open>l_undefined\<close>: a thread used the core after its deletion, or a thread was joined that cannot be.
\<close>

record life =
  l_core :: core_state
  l_owner :: owner
  l_workers :: "tid list"
  l_joined :: bool
  l_detached :: bool
  l_failed :: bool
  l_undefined :: bool

definition life_new :: "c_int \<Rightarrow> c_int \<Rightarrow> handler_id \<Rightarrow> life" where
  "life_new ep out_fd h =
    \<lparr>l_core = core_new ep out_fd h, l_owner = O_run, l_workers = [], l_joined = False, l_detached = False,
     l_failed = False, l_undefined = False\<rparr>"

definition is_end :: "life \<Rightarrow> bool" where
  "is_end l = m_end (l_core l)"

section \<open>Calls\<close>

abbreviation all_loop :: "tid \<Rightarrow> mode" where
  "all_loop \<equiv> (\<lambda>_. Loop)"

text \<open>The two halves of \<open>end\<close>; what follows it is the return or the rest of the destructor.\<close>

definition end_flag :: "owner \<Rightarrow> life \<Rightarrow> life" where
  "end_flag after l = l\<lparr>l_core := (l_core l)\<lparr>m_end := True\<rparr>, l_owner := O_end after\<rparr>"

definition broadcast_all :: "owner \<Rightarrow> life \<Rightarrow> life" where
  "broadcast_all after l =
    l\<lparr>l_core := awaken all_loop (waiters (l_core l)) (l_core l), l_owner := after\<rparr>"

text \<open>
  \<open>add_thread\<close>: the worker enters \<open>m_workers\<close> before it runs, and stays there when \<open>run\<close> throws.
\<close>

definition add_worker :: "tid \<Rightarrow> life \<Rightarrow> life" where
  "add_worker t l =
    l\<lparr>l_core := at_pc t Locking (l_core l), l_workers := l_workers l @ [t], l_joined := False\<rparr>"

definition add_worker_failed :: "tid \<Rightarrow> life \<Rightarrow> life" where
  "add_worker_failed t l = l\<lparr>l_workers := l_workers l @ [t], l_joined := False, l_failed := True\<rparr>"

text \<open>\<open>pthread_join\<close> returns when the thread has; a detached or a missing thread cannot be joined.\<close>

definition joinable :: "tid \<Rightarrow> life \<Rightarrow> bool" where
  "joinable t l \<longleftrightarrow> \<not> l_detached l \<and> m_pcs (l_core l) t \<noteq> Absent"

definition at_rest :: "pc \<Rightarrow> bool" where
  "at_rest p \<longleftrightarrow> p \<in> {Absent, Returned, Died, Crashed}"

text \<open>
  \<open>k\<close> stands for an owner that joins its workers before it destroys the core, and only when it did not
  detach them.
\<close>

inductive life_step :: "bool \<Rightarrow> life \<Rightarrow> life \<Rightarrow> bool" for k where
  core: "l_owner l \<noteq> O_gone \<Longrightarrow> core_step all_loop (l_core l) c' \<Longrightarrow>
    \<forall>t. m_pcs (l_core l) t = Absent \<longrightarrow> m_pcs c' t = Absent \<Longrightarrow> life_step k l (l\<lparr>l_core := c'\<rparr>)"
| add_thread: "l_owner l = O_run \<Longrightarrow> m_pcs (l_core l) t = Absent \<Longrightarrow> t \<notin> set (l_workers l) \<Longrightarrow>
    life_step k l (add_worker t l)"
| add_thread_throws: "l_owner l = O_run \<Longrightarrow> m_pcs (l_core l) t = Absent \<Longrightarrow> t \<notin> set (l_workers l) \<Longrightarrow>
    life_step k l (add_worker_failed t l)"
| end_call: "l_owner l = O_run \<Longrightarrow> life_step k l (end_flag O_run l)"
| end_broadcast: "l_owner l = O_end after \<Longrightarrow> life_step k l (broadcast_all after l)"
| join_call: "l_owner l = O_run \<Longrightarrow> k \<longrightarrow> \<not> l_detached l \<Longrightarrow> life_step k l (l\<lparr>l_owner := O_join (l_workers l)\<rparr>)"
| join_next: "l_owner l = O_join (t # ts) \<Longrightarrow> joinable t l \<Longrightarrow> m_pcs (l_core l) t = Returned \<Longrightarrow>
    life_step k l (l\<lparr>l_owner := O_join ts\<rparr>)"
| join_undefined: "l_owner l = O_join (t # ts) \<Longrightarrow> \<not> joinable t l \<Longrightarrow>
    life_step k l (l\<lparr>l_owner := O_join ts, l_undefined := True\<rparr>)"
| join_return: "l_owner l = O_join [] \<Longrightarrow> life_step k l (l\<lparr>l_owner := O_run, l_joined := True\<rparr>)"
| detach_call: "l_owner l = O_run \<Longrightarrow> life_step k l (l\<lparr>l_detached := True\<rparr>)"
| destructor: "l_owner l = O_run \<Longrightarrow> k \<longrightarrow> l_joined l \<or> l_workers l = [] \<Longrightarrow> life_step k l (end_flag O_dtor l)"
| dtor_broadcast: "l_owner l = O_dtor \<Longrightarrow> life_step k l (broadcast_all O_delete l)"
| delete: "l_owner l = O_delete \<Longrightarrow> life_step k l (l\<lparr>l_workers := [], l_owner := O_gone\<rparr>)"
| use_after_delete: "l_owner l = O_gone \<Longrightarrow> \<not> at_rest (m_pcs (l_core l) t) \<Longrightarrow>
    life_step k l (l\<lparr>l_undefined := True\<rparr>)"

inductive life_reach :: "bool \<Rightarrow> life \<Rightarrow> bool" for k where
  new: "life_reach k (life_new ep out_fd h)"
| step: "life_reach k l \<Longrightarrow> life_step k l l' \<Longrightarrow> life_reach k l'"

section \<open>A core that ends\<close>

text \<open>Nothing takes the flag back, and a worker that finds it does not wait again.\<close>

definition ended :: "core_state \<Rightarrow> bool" where
  "ended c \<longleftrightarrow> m_end c \<and> waiters c = {}"

lemma after_poll_frame:
  assumes "after_poll n outs c = (a, sg, c')"
  shows "m_end c' = m_end c" "m_pcs c' = m_pcs c" "a \<noteq> Do_wait" "a \<noteq> Do_poll" "a \<noteq> Do_return"
    "\<And>k. a \<noteq> Do_task k" "\<And>e. a \<noteq> Do_out e"
  using assms by (auto simp: after_poll_def take_event_def poll_event_def Let_def split: if_splits option.splits prod.splits)

lemma begin_section_end: "m_end c \<Longrightarrow> begin_section md outs c = (Do_return, False, c)"
  by (simp add: begin_section_def)

lemma begin_section_frame:
  "begin_section md outs c = (a, sg, c') \<Longrightarrow> m_end c' = m_end c \<and> m_pcs c' = m_pcs c"
  by (auto simp: begin_section_def do_out_def do_task_def take_event_def poll_event_def Let_def
      split: if_splits option.splits prod.splits)

lemma core_step_end: "core_step md c c' \<Longrightarrow> m_end c \<Longrightarrow> m_end c'"
  by (erule core_step.cases)
    (auto simp: begin_section_end after_poll_frame poll_nothing_def submit_impl_def set_handler_def port_add_fd_def
      reset_handler_def split: mode.splits)

text \<open>How many steps of its own a worker of an ended core has left at most.\<close>

fun rank :: "pc \<Rightarrow> nat" where
  "rank Absent = 0"
| "rank Locking = 1"
| "rank Waiting = 2"
| "rank (Running k) = 2"
| "rank (Writing e) = 2"
| "rank Polling = 6"
| "rank (Polled n) = 5"
| "rank (Rearming e) = 2"
| "rank (Calling e) = 4"
| "rank (Removing e) = 3"
| "rank (Resetting x) = 2"
| "rank Returned = 0"
| "rank Died = 0"
| "rank Crashed = 0"

lemma rank_zero: "rank p = 0 \<longleftrightarrow> at_rest p"
  by (cases p) (simp_all add: at_rest_def)

definition slower :: "core_state \<Rightarrow> core_state \<Rightarrow> bool" where
  "slower c c' \<longleftrightarrow> (m_pcs c' = m_pcs c \<or> (\<exists>t. rank (m_pcs c' t) < rank (m_pcs c t) \<and> m_pcs c' = (m_pcs c)(t := m_pcs c' t)))"

lemma slower_at: "m_pcs d = m_pcs c \<Longrightarrow> rank p < rank (m_pcs c t) \<Longrightarrow> slower c (at_pc t p d)"
  unfolding slower_def by (intro disjI2 exI [of _ t]) simp

lemma slower_same: "m_pcs d = m_pcs c \<Longrightarrow> slower c d"
  by (simp add: slower_def)

text \<open>The step of a worker, and one that leaves all of them where they are.\<close>

lemma ended_own:
  assumes "ended c" and "m_end d = m_end c" and "m_pcs d = m_pcs c" and "p \<noteq> Waiting" and "rank p < rank (m_pcs c t)"
  shows "ended (at_pc t p d) \<and> slower c (at_pc t p d)"
proof
  show "ended (at_pc t p d)" using assms(1-4) by (auto simp: ended_def waiters_def)
  show "slower c (at_pc t p d)" by (rule slower_at [OF assms(3,5)])
qed

lemma ended_frame: "ended c \<Longrightarrow> m_end d = m_end c \<Longrightarrow> m_pcs d = m_pcs c \<Longrightarrow> ended d \<and> slower c d"
  by (simp add: ended_def waiters_def slower_same)

lemma ended_wakes: "ended c \<Longrightarrow> wakes sg ts c \<Longrightarrow> ts = {}"
  by (auto simp: ended_def wakes_def)

lemma ended_step:
  assumes "ended c" and "core_step all_loop c c'" and absent: "\<forall>t. m_pcs c t = Absent \<longrightarrow> m_pcs c' t = Absent"
  shows "ended c' \<and> slower c c'"
  using assms(2)
proof cases
  case (spawn t)
  with absent show ?thesis by auto
next
  case (locked t outs a sg d ts)
  from assms(1) have "m_end c" by (simp add: ended_def)
  with locked(3) have "a = Do_return" "d = c" by (simp_all add: begin_section_end)
  with locked(1,2) ended_wakes [OF assms(1) locked(4)] ended_own [OF assms(1), of c Returned t]
  show ?thesis by (simp add: awaken_none)
next
  case (relock t n outs a sg d ts)
  note f = after_poll_frame [OF relock(3)]
  have "next_pc a \<noteq> Waiting" "rank (next_pc a) < rank (m_pcs c t)" using f relock by (cases a; simp)+
  with ended_own [OF assms(1) f(1,2)] relock(1) ended_wakes [OF assms(1) relock(4)] show ?thesis by (simp add: awaken_none)
next
  case (poll_none t)
  with assms(1) have c': "c' = at_pc t Returned (c\<lparr>m_pollable := True\<rparr>)" by (simp add: poll_nothing_def ended_def)
  show ?thesis unfolding c' by (rule ended_own [OF assms(1)]) (simp_all add: poll_none(2))
next
  case (call t e h cont)
  show ?thesis unfolding call(1) by (rule ended_own [OF assms(1)]) (simp_all add: call(2))
next
  case (submit ts k)
  with ended_wakes [OF assms(1) submit(2)] show ?thesis
    by (auto intro!: ended_frame [OF assms(1)] simp: awaken_none submit_impl_def)
next
  case broadcast
  then show ?thesis using assms(1) by (auto simp: ended_def slower_def)
next
  case finish
  then show ?thesis using assms(1) by (auto simp: ended_def waiters_def slower_def)
qed (use assms(1) in \<open>auto intro: slower_at slower_same
    simp: ended_def waiters_def reset_handler_def set_handler_def port_add_fd_def\<close>)

section \<open>Before the deletion the core is one of \<open>Wavy_Core\<close>\<close>

lemma life_core_reach:
  "life_reach k l \<Longrightarrow> (l_owner l \<in> {O_end O_run, O_end O_dtor, O_dtor, O_delete} \<longrightarrow> m_end (l_core l))
    \<and> (\<forall>ow. l_owner l = O_end ow \<longrightarrow> ow \<in> {O_run, O_dtor}) \<and> core_reach all_loop (l_core l)"
proof (induction rule: life_reach.induct)
  case (new ep out_fd h)
  show ?case by (simp add: life_new_def core_reach.init)
next
  case (step l l')
  from step.hyps(2) step.IH show ?case
  proof cases
    case (core c')
    have "m_end (l_core l) \<Longrightarrow> m_end c'" using core_step_end [OF core(3)] .
    with core step.IH show ?thesis by (auto intro: core_reach.step)
  next
    case (add_thread t)
    then show ?thesis using step.IH by (auto simp: add_worker_def intro: core_reach.step core_step.spawn)
  next
    case end_call
    then show ?thesis using step.IH core_reach.step [OF _ core_step.finish] by (auto simp: end_flag_def)
  next
    case destructor
    then show ?thesis using step.IH core_reach.step [OF _ core_step.finish] by (auto simp: end_flag_def)
  next
    case (end_broadcast after)
    then show ?thesis using step.IH core_reach.step [OF _ core_step.broadcast] by (auto simp: broadcast_all_def)
  next
    case dtor_broadcast
    then show ?thesis using step.IH core_reach.step [OF _ core_step.broadcast] by (auto simp: broadcast_all_def)
  qed (use step.IH in \<open>auto simp: add_worker_failed_def\<close>)
qed

section \<open>An owner that joins before it destroys\<close>

lemma resume_Locking: "resume (all_loop t) = Locking"
  by (simp add: resume_def)

lemma core_step_rest:
  assumes "core_step all_loop c c'"
  shows "m_pcs c t = Returned \<Longrightarrow> m_pcs c' t = Returned" and "m_pcs c' t = Absent \<Longrightarrow> m_pcs c t = Absent"
proof -
  have ts: "u \<in> ts \<Longrightarrow> m_pcs c u = Waiting" if "wakes sg ts c" for sg ts u using wakesD [OF that] .
  have next_pc: "next_pc a \<noteq> Absent" for a by (cases a) simp_all
  show "m_pcs c t = Returned \<Longrightarrow> m_pcs c' t = Returned"
    using assms by cases (auto simp: awaken_def poll_nothing_def submit_impl_def set_handler_def port_add_fd_def
        reset_handler_def waiters_def dest: ts begin_section_frame after_poll_frame(2))
  show "m_pcs c' t = Absent \<Longrightarrow> m_pcs c t = Absent"
    using assms by cases (auto simp: awaken_def poll_nothing_def submit_impl_def set_handler_def port_add_fd_def
        reset_handler_def waiters_def next_pc resume_def dest: ts begin_section_frame after_poll_frame(2)
        split: if_splits)
qed

definition quiet :: "core_state \<Rightarrow> bool" where
  "quiet c \<longleftrightarrow> (\<forall>t. m_pcs c t = Absent \<or> m_pcs c t = Returned)"

definition joined_all_but :: "tid list \<Rightarrow> core_state \<Rightarrow> bool" where
  "joined_all_but ts c \<longleftrightarrow> (\<forall>t. t \<notin> set ts \<longrightarrow> m_pcs c t = Absent \<or> m_pcs c t = Returned)"

definition crew :: "life \<Rightarrow> bool" where
  "crew l \<longleftrightarrow> (\<forall>t. t \<in> set (l_workers l) \<longleftrightarrow> m_pcs (l_core l) t \<noteq> Absent)"

definition life_inv :: "life \<Rightarrow> bool" where
  "life_inv l \<longleftrightarrow> (l_owner l \<noteq> O_gone \<longrightarrow> crew l) \<and> (l_joined l \<longrightarrow> quiet (l_core l))
   \<and> (\<forall>ts. l_owner l = O_join ts \<longrightarrow> \<not> l_detached l \<and> set ts \<subseteq> set (l_workers l) \<and> joined_all_but ts (l_core l))
   \<and> (l_owner l \<in> {O_end O_dtor, O_dtor, O_delete, O_gone} \<longrightarrow> quiet (l_core l)) \<and> \<not> l_undefined l"

lemma quiet_core_step: "core_step all_loop c c' \<Longrightarrow> \<forall>t. m_pcs c t = Absent \<longrightarrow> m_pcs c' t = Absent \<Longrightarrow>
    (quiet c \<longrightarrow> quiet c') \<and> (joined_all_but ts c \<longrightarrow> joined_all_but ts c')"
  using core_step_rest(1) unfolding quiet_def joined_all_but_def by metis

lemma crew_core_step: "crew l \<Longrightarrow> core_step all_loop (l_core l) c' \<Longrightarrow>
    \<forall>t. m_pcs (l_core l) t = Absent \<longrightarrow> m_pcs c' t = Absent \<Longrightarrow> crew (l\<lparr>l_core := c'\<rparr>)"
  using core_step_rest(2) unfolding crew_def by (metis life.select_convs(3) life.surjective life.update_convs(1) life.select_convs(1))

lemma crew_frame [simp]:
  "crew (l\<lparr>l_owner := ow\<rparr>) = crew l" "crew (l\<lparr>l_joined := j\<rparr>) = crew l" "crew (l\<lparr>l_detached := d\<rparr>) = crew l"
  "crew (l\<lparr>l_core := (l_core l)\<lparr>m_end := e\<rparr>\<rparr>) = crew l"
  by (simp_all add: crew_def)

lemma quiet_frame [simp]:
  "quiet (c\<lparr>m_end := e\<rparr>) = quiet c" "joined_all_but ts (c\<lparr>m_end := e\<rparr>) = joined_all_but ts c"
  by (simp_all add: quiet_def joined_all_but_def)

lemma joined_all: "joined_all_but [] c \<longleftrightarrow> quiet c"
  by (simp add: joined_all_but_def quiet_def)

lemma life_inv_core:
  assumes "life_inv l" and "core_step all_loop (l_core l) c'" and "l_owner l \<noteq> O_gone"
    and "\<forall>t. m_pcs (l_core l) t = Absent \<longrightarrow> m_pcs c' t = Absent"
  shows "life_inv (l\<lparr>l_core := c'\<rparr>)"
  using assms(1,3) quiet_core_step [OF assms(2,4)] crew_core_step [OF _ assms(2,4)]
  unfolding life_inv_def by simp

lemma life_inv_broadcast:
  assumes "life_inv l" and "m_end (l_core l)" and "l_owner l = O_end after \<and> after \<in> {O_run, O_dtor}
    \<or> l_owner l = O_dtor \<and> after = O_delete"
  shows "life_inv (broadcast_all after l)"
proof -
  let ?c = "awaken all_loop (waiters (l_core l)) (l_core l)"
  have "life_inv (l\<lparr>l_core := ?c\<rparr>)"
    using assms(3) by (intro life_inv_core [OF assms(1) core_step.broadcast [OF assms(2)]]) (auto simp: awaken_def waiters_def)
  then have "life_inv (l\<lparr>l_core := ?c, l_owner := after\<rparr>)"
    using assms(3) unfolding life_inv_def by (elim disjE conjE insertE emptyE) (simp_all add: crew_def)
  then show ?thesis by (simp add: broadcast_all_def)
qed

lemma life_inv_step:
  assumes "life_inv l" and "life_step True l l'" and "\<not> l_failed l'"
    and "l_owner l \<in> {O_end O_run, O_end O_dtor, O_dtor, O_delete} \<longrightarrow> m_end (l_core l)"
    and "\<forall>ow. l_owner l = O_end ow \<longrightarrow> ow \<in> {O_run, O_dtor}"
  shows "life_inv l'"
  using assms(2)
proof cases
  case (core c')
  then show ?thesis using life_inv_core [OF assms(1)] by simp
next
  case (add_thread t)
  then show ?thesis using assms(1) by (auto simp: life_inv_def add_worker_def crew_def)
next
  case (add_thread_throws t)
  then show ?thesis using assms(3) by (simp add: add_worker_failed_def)
next
  case end_call
  then show ?thesis using assms(1) by (simp add: life_inv_def end_flag_def crew_def)
next
  case (end_broadcast after)
  then have "after \<in> {O_run, O_dtor}" "m_end (l_core l)" using assms(4,5) by auto
  with end_broadcast show ?thesis using life_inv_broadcast [OF assms(1)] by simp
next
  case join_call
  then show ?thesis using assms(1) by (simp add: life_inv_def crew_def joined_all_but_def)
next
  case (join_next t ts)
  then show ?thesis using assms(1) by (simp add: life_inv_def joined_all_but_def) metis
next
  case (join_undefined t ts)
  then show ?thesis using assms(1) by (auto simp: life_inv_def joinable_def crew_def)
next
  case destructor
  then show ?thesis using assms(1) by (auto simp: life_inv_def end_flag_def crew_def quiet_def)
next
  case dtor_broadcast
  then show ?thesis using life_inv_broadcast [OF assms(1)] assms(4) by simp
next
  case (use_after_delete t)
  then show ?thesis using assms(1) by (auto simp: life_inv_def at_rest_def quiet_def)
qed (use assms(1) in \<open>simp_all add: life_inv_def joined_all\<close>)

lemma life_step_failed: "life_step k l l' \<Longrightarrow> l_failed l \<Longrightarrow> l_failed l'"
  by (erule life_step.cases) (simp_all add: add_worker_def add_worker_failed_def end_flag_def broadcast_all_def)

lemma life_reach_inv: "life_reach True l \<Longrightarrow> \<not> l_failed l \<Longrightarrow> life_inv l"
proof (induction rule: life_reach.induct)
  case (new ep out_fd h)
  show ?case by (simp add: life_inv_def life_new_def core_new_def crew_def)
next
  case (step l l')
  then have "life_inv l" using life_step_failed by blast
  with step life_core_reach [OF step.hyps(1)] show ?case by (blast intro: life_inv_step)
qed

section \<open>The end of the workers\<close>

definition life_rank :: "life \<Rightarrow> nat" where
  "life_rank l = (\<Sum>t \<in> set (l_workers l). rank (m_pcs (l_core l) t))
     + (case l_owner l of O_join ts \<Rightarrow> Suc (length ts) | _ \<Rightarrow> 0)"

lemma slower_sum:
  assumes "slower c c'" and "finite W" and "\<And>t. m_pcs c t \<noteq> Absent \<Longrightarrow> t \<in> W"
  shows "m_pcs c' = m_pcs c \<or> (\<Sum>t \<in> W. rank (m_pcs c' t)) < (\<Sum>t \<in> W. rank (m_pcs c t))"
  using assms(1) unfolding slower_def
proof (elim disjE exE conjE)
  fix t assume less: "rank (m_pcs c' t) < rank (m_pcs c t)" and upd: "m_pcs c' = (m_pcs c)(t := m_pcs c' t)"
  have "m_pcs c t \<noteq> Absent" using less by auto
  then have "t \<in> W" by (rule assms(3))
  moreover have "rank (m_pcs c' u) \<le> rank (m_pcs c u)" for u
    using less fun_cong [OF upd, of u] by (cases "u = t") simp_all
  ultimately show ?thesis using less assms(2) by (intro disjI2 sum_strict_mono_ex1) auto
qed simp

text \<open>A worker that has not finished can always take its next step, and it comes nearer to its end.\<close>

definition gets_on :: "tid \<Rightarrow> core_state \<Rightarrow> bool" where
  "gets_on t c \<longleftrightarrow> (\<exists>c'. core_step all_loop c c' \<and> rank (m_pcs c' t) < rank (m_pcs c t)
     \<and> (\<forall>u. m_pcs c u = Absent \<longrightarrow> m_pcs c' u = Absent))"

lemma gets_onI:
  assumes "core_step all_loop c (at_pc t p d)" and "m_pcs d = m_pcs c" and "rank p < rank (m_pcs c t)"
  shows "gets_on t c"
  unfolding gets_on_def using assms by (intro exI [of _ "at_pc t p d"]) auto

lemma worker_calling_gets_on: "m_pcs c t = Calling e \<Longrightarrow> gets_on t c"
  using gets_onI [OF core_step.call_null, of c t e] gets_onI [OF core_step.call [where cont = True], of c t e]
  by (cases "m_state c (event_ident e)") simp_all

lemma worker_polled_gets_on:
  assumes "ended c" and "m_pcs c t = Polled n"
  shows "gets_on t c"
proof -
  obtain a sg d where d: "after_poll n None c = (a, sg, d)" by (cases "after_poll n None c")
  have "wakes sg {} c" using assms(1) by (simp add: wakes_def ended_def)
  from core_step.relock [where md = all_loop, OF assms(2) d this] after_poll_frame [OF d] assms(2)
  show ?thesis by (intro gets_onI [of c t "next_pc a" d]; cases a) (simp_all add: awaken_none)
qed

lemma worker_can_step:
  assumes "ended c" and "\<not> at_rest (m_pcs c t)"
  shows "gets_on t c"
proof (cases "m_pcs c t")
  case Locking
  have "begin_section Loop None c = (Do_return, False, c)" using assms(1) by (simp add: ended_def begin_section_end)
  from core_step.locked [where md = all_loop, OF Locking this wakes_none] Locking
  show ?thesis by (intro gets_onI [of c t Returned c]) (simp_all add: awaken_none)
next
  case Polling
  have "poll_nothing Loop t c = at_pc t Returned (c\<lparr>m_pollable := True\<rparr>)"
    using assms(1) by (simp add: poll_nothing_def ended_def)
  with core_step.poll_none [where md = all_loop, OF Polling] Polling
  show ?thesis by (intro gets_onI [of c t Returned "c\<lparr>m_pollable := True\<rparr>"]) simp_all
next
  case (Running k)
  show ?thesis by (rule gets_onI [OF core_step.task_done [OF Running]]) (simp_all add: Running resume_def)
next
  case (Writing e)
  show ?thesis by (rule gets_onI [OF core_step.out_written [OF Writing]]) (simp_all add: Writing resume_def)
next
  case (Rearming e)
  show ?thesis by (rule gets_onI [OF core_step.rearm [OF Rearming]]) (simp_all add: Rearming resume_def)
next
  case (Removing e)
  show ?thesis by (rule gets_onI [OF core_step.remove [OF Removing]]) (simp_all add: Removing)
next
  case (Resetting x)
  show ?thesis by (rule gets_onI [OF core_step.reset [OF Resetting]]) (simp_all add: Resetting resume_def reset_handler_def)
qed (use assms worker_calling_gets_on worker_polled_gets_on in \<open>auto simp: ended_def waiters_def at_rest_def\<close>)

lemma life_rank_core:
  assumes "life_inv l" and "l_owner l \<noteq> O_gone" and "slower (l_core l) c'"
  shows "m_pcs c' = m_pcs (l_core l) \<or> life_rank (l\<lparr>l_core := c'\<rparr>) < life_rank l"
proof -
  have "m_pcs (l_core l) t \<noteq> Absent \<Longrightarrow> t \<in> set (l_workers l)" for t
    using assms(1,2) by (simp add: life_inv_def crew_def)
  from slower_sum [OF assms(3) finite_set this] show ?thesis by (auto simp: life_rank_def)
qed

lemma join_progresses:
  assumes "life_reach True l" and inv: "life_inv l" and owner: "l_owner l = O_join ts" and "ended (l_core l)"
  shows "(\<exists>l'. life_step True l l' \<and> life_rank l' < life_rank l) \<or> (\<exists>t \<in> set (l_workers l). m_pcs (l_core l) t = Died)"
proof (cases "\<exists>t. \<not> at_rest (m_pcs (l_core l) t)")
  case True
  then obtain t where "\<not> at_rest (m_pcs (l_core l) t)" by blast
  from worker_can_step [OF assms(4) this] obtain c' where c': "core_step all_loop (l_core l) c'"
    "rank (m_pcs c' t) < rank (m_pcs (l_core l) t)" "\<forall>u. m_pcs (l_core l) u = Absent \<longrightarrow> m_pcs c' u = Absent"
    unfolding gets_on_def by blast
  have "slower (l_core l) c'" using ended_step [OF assms(4) c'(1,3)] ..
  from life_rank_core [OF inv _ this] c'(2) owner have "life_rank (l\<lparr>l_core := c'\<rparr>) < life_rank l" by auto
  with life_step.core [of l c' True] c' owner show ?thesis by auto
next
  case False
  have "m_pcs (l_core l) t \<noteq> Crashed" for t
    using core_reach_inv life_core_reach [OF assms(1)] by (metis pc_ok.simps(5) shot_inv_def)
  moreover have crew: "t \<in> set (l_workers l) \<longleftrightarrow> m_pcs (l_core l) t \<noteq> Absent" for t
    using inv owner by (simp add: life_inv_def crew_def)
  ultimately have rest: "m_pcs (l_core l) t \<in> {Died, Returned}" if "t \<in> set (l_workers l)" for t
    using False that by (auto simp: at_rest_def)
  show ?thesis
  proof (cases ts)
    case Nil
    with owner life_step.join_return [of l True] show ?thesis by (auto simp: life_rank_def)
  next
    case (Cons t ts')
    have "t \<in> set (l_workers l)" and "joinable t l" using inv owner crew by (auto simp: life_inv_def joinable_def Cons)
    with rest [of t] life_step.join_next [of l t ts' True] owner show ?thesis by (auto simp: Cons life_rank_def)
  qed
qed


text \<open>The broadcast of \<open>end\<close> makes the core an ended one.\<close>

lemma broadcast_ends: "m_end (l_core l) \<Longrightarrow> ended (l_core (broadcast_all after l))"
  by (auto simp: broadcast_all_def ended_def waiters_def awaken_def resume_def)

definition demo_life :: life where
  "demo_life = (broadcast_all O_run (end_flag O_run (add_worker 1 (life_new 3 4 0))))\<lparr>l_owner := O_join [1]\<rparr>"

lemma demo_life_reach: "life_reach k demo_life"
proof -
  let ?l0 = "life_new 3 4 0" and ?l1 = "add_worker 1 (life_new 3 4 0)"
  have 1: "life_reach k ?l1"
    by (rule life_reach.step [OF life_reach.new life_step.add_thread]) (simp_all add: life_new_def core_new_def)
  have "life_reach k (end_flag O_run ?l1)"
    by (rule life_reach.step [OF 1 life_step.end_call]) (simp add: life_new_def add_worker_def)
  from life_reach.step [OF this life_step.end_broadcast [of _ O_run]]
  have 2: "life_reach k (broadcast_all O_run (end_flag O_run ?l1))" by (simp add: end_flag_def)
  have "l_workers (broadcast_all O_run (end_flag O_run ?l1)) = [1]"
    by (simp add: broadcast_all_def end_flag_def add_worker_def life_new_def)
  with life_reach.step [OF 2 life_step.join_call] show ?thesis
    by (simp add: demo_life_def broadcast_all_def end_flag_def add_worker_def life_new_def)
qed


text \<open>
  C10. An owner that joins its workers before it destroys the core, and does not detach them, is safe:
  no thread is joined that cannot be, and once the handler table and the mutex are gone, no worker
  is left that could use them; all have returned.
\<close>

theorem core_joined_before_destroyed:
  assumes "life_reach True l" and "\<not> l_failed l"
  shows "\<not> l_undefined l
    \<and> (l_owner l = O_gone \<or> l_joined l \<longrightarrow> (\<forall>t. m_pcs (l_core l) t = Absent \<or> m_pcs (l_core l) t = Returned))"
  using life_reach_inv [OF assms] by (auto simp: life_inv_def quiet_def)

text \<open>The core \<open>l\<close> after its destructor.\<close>

definition destroyed :: "life \<Rightarrow> life" where
  "destroyed l = (broadcast_all O_delete (broadcast_all O_dtor (end_flag O_dtor l)))\<lparr>l_workers := [], l_owner := O_gone\<rparr>"

lemma destroyed_reach:
  assumes "life_reach k l" and "l_owner l = O_run" and "k \<longrightarrow> l_joined l \<or> l_workers l = []"
  shows "life_reach k (destroyed l)"
proof -
  have "life_reach k (end_flag O_dtor l)" by (rule life_reach.step [OF assms(1) life_step.destructor [OF assms(2,3)]])
  from life_reach.step [OF this life_step.end_broadcast [of _ O_dtor]]
  have "life_reach k (broadcast_all O_dtor (end_flag O_dtor l))" by (simp add: end_flag_def)
  from life_reach.step [OF this life_step.dtor_broadcast]
  have "life_reach k (broadcast_all O_delete (broadcast_all O_dtor (end_flag O_dtor l)))" by (simp add: broadcast_all_def)
  from life_reach.step [OF this life_step.delete] show ?thesis by (simp add: destroyed_def broadcast_all_def)
qed

definition demo_joined :: life where
  "demo_joined = demo_life\<lparr>l_core := at_pc 1 Returned (l_core demo_life), l_owner := O_run, l_joined := True\<rparr>"

lemma demo_joined_reach: "life_reach k demo_joined"
proof -
  let ?l = "demo_life\<lparr>l_core := at_pc 1 Returned (l_core demo_life)\<rparr>"
  have owner: "l_owner demo_life = O_join [1]" by (simp add: demo_life_def)
  have core: "m_pcs (l_core demo_life) 1 = Locking" "m_end (l_core demo_life)" "\<not> l_detached demo_life"
    by (simp_all add: demo_life_def broadcast_all_def end_flag_def add_worker_def life_new_def core_new_def
        awaken_def resume_def waiters_def)
  have "core_step all_loop (l_core demo_life) (at_pc 1 Returned (l_core demo_life))"
    using core_step.locked [where md = all_loop, OF core(1) _ wakes_none] begin_section_end [OF core(2)]
    by (metis awaken_none next_pc.simps(1))
  then have "life_reach k ?l"
    using core owner by (intro life_reach.step [OF demo_life_reach life_step.core]) auto
  from life_reach.step [OF this life_step.join_next [of _ 1 "[]"]]
  have "life_reach k (?l\<lparr>l_owner := O_join []\<rparr>)" using owner core by (simp add: joinable_def)
  from life_reach.step [OF this life_step.join_return] show ?thesis by (simp add: demo_joined_def)
qed

theorem core_joined_before_destroyed_witness:
  "l_owner (destroyed demo_joined) = O_gone \<and> m_pcs (l_core (destroyed demo_joined)) 1 = Returned"
proof -
  have j: "l_owner demo_joined = O_run" "l_joined demo_joined" "\<not> l_failed demo_joined"
    by (simp_all add: demo_joined_def demo_life_def broadcast_all_def end_flag_def add_worker_def life_new_def)
  have "life_reach True (destroyed demo_joined)" using destroyed_reach [OF demo_joined_reach j(1)] j(2) by simp
  moreover have "\<not> l_failed (destroyed demo_joined)" "l_owner (destroyed demo_joined) = O_gone"
    using j by (simp_all add: destroyed_def broadcast_all_def end_flag_def)
  moreover have "m_pcs (l_core (destroyed demo_joined)) 1 \<noteq> Absent"
    by (simp add: destroyed_def demo_joined_def broadcast_all_def end_flag_def awaken_def resume_def)
  ultimately show ?thesis using core_joined_before_destroyed by blast
qed

text \<open>
  The destructor itself does not join: destroyed under a running worker, the core is used after its
  deletion. And a worker whose thread could not be created stays in \<open>m_workers\<close>, where \<open>join\<close> finds it.
\<close>

lemma core_destroyed_under_worker: "\<exists>l. life_reach False l \<and> \<not> l_failed l \<and> l_undefined l"
proof -
  let ?l = "add_worker 1 (life_new 3 4 0)"
  have "life_reach False ?l"
    by (rule life_reach.step [OF life_reach.new life_step.add_thread]) (simp_all add: life_new_def core_new_def)
  from destroyed_reach [OF this] have d: "life_reach False (destroyed ?l)" by (simp add: add_worker_def life_new_def)
  have "\<not> at_rest (m_pcs (l_core (destroyed ?l)) 1)" "l_owner (destroyed ?l) = O_gone" "\<not> l_failed (destroyed ?l)"
    by (auto simp: destroyed_def broadcast_all_def end_flag_def add_worker_def life_new_def core_new_def
        awaken_def waiters_def resume_def at_rest_def)
  with life_reach.step [OF d life_step.use_after_delete [of _ 1]] show ?thesis
    by (intro exI [of _ "destroyed ?l\<lparr>l_undefined := True\<rparr>"]) simp
qed

lemma failed_thread_is_joined: "\<exists>l. life_reach True l \<and> l_failed l \<and> l_undefined l"
proof -
  let ?l = "add_worker_failed 1 (life_new 3 4 0)"
  have "life_reach True ?l"
    by (rule life_reach.step [OF life_reach.new life_step.add_thread_throws]) (simp_all add: life_new_def core_new_def)
  from life_reach.step [OF this life_step.join_call]
  have j: "life_reach True (?l\<lparr>l_owner := O_join [1]\<rparr>)" by (simp add: add_worker_failed_def life_new_def)
  from life_reach.step [OF this life_step.join_undefined [of _ 1 "[]"]] show ?thesis
    by (intro exI [of _ "?l\<lparr>l_owner := O_join [], l_undefined := True\<rparr>"])
      (simp add: joinable_def add_worker_failed_def life_new_def core_new_def)
qed

end
