(* ===== verification/Wavy_Net.thy ===== *)
theory Wavy_Net
  imports Prelude
begin

text \<open>
  Who owns a descriptor: \<open>basic_handler\<close> and \<open>handler\<close> of \<^verbatim>\<open>src/mp/wavy/core.pre.h\<close>, the
  registration of handlers, the listening, connecting, timer and signal handlers of
  \<^verbatim>\<open>src/mpsrc/wavy_listen.cc\<close>, \<^verbatim>\<open>wavy_connect.cc\<close>, \<^verbatim>\<open>wavy_timer.cc\<close> and \<^verbatim>\<open>wavy_signal.cc\<close>, and
  \<open>accepted\<close> of the two gates.

  The system calls are a parameter that says for the \<open>n\<close>-th call whether it fails: 0, or \<open>errno\<close>. The
  model keeps the open descriptors, every call of \<open>close\<close>, and the table of handlers with what their
  destructor does. Descriptors are numbered in the order in which they are opened.
\<close>

section \<open>Descriptors and handlers\<close>

datatype syscall =
    Sys_socket | Sys_setsockopt | Sys_bind | Sys_listen | Sys_fcntl | Sys_connect | Sys_sockerr
  | Sys_getsockopt | Sys_epoll_add | Sys_timer_create | Sys_timer_set | Sys_signalfd | Sys_sigprocmask
  | Sys_new | Sys_malloc | Sys_count | Sys_errno | Sys_signal

type_synonym os = "nat \<Rightarrow> syscall \<Rightarrow> int"
type_synonym fd = int

text \<open>
  \<open>n_hands\<close> is \<open>m_state\<close>: \<open>True\<close> for a \<open>handler\<close>, whose destructor closes the descriptor, \<open>False\<close> for
  a \<open>basic_handler\<close>, whose destructor does not. \<open>n_cb\<close> are the calls of the callbacks.
\<close>

record net =
  n_next :: fd
  n_open :: "fd set"
  n_closed :: "fd list"
  n_hands :: "fd \<Rightarrow> bool option"
  n_armed :: "fd set"
  n_calls :: nat
  n_end :: bool
  n_cb :: "(fd \<times> int) list"

definition ask :: "os \<Rightarrow> syscall \<Rightarrow> net \<Rightarrow> int \<times> net" where
  "ask os s w = (os (n_calls w) s, w\<lparr>n_calls := n_calls w + 1\<rparr>)"

definition new_fd :: "net \<Rightarrow> fd \<times> net" where
  "new_fd w = (n_next w, w\<lparr>n_next := n_next w + 1, n_open := insert (n_next w) (n_open w)\<rparr>)"

definition open_fd :: "os \<Rightarrow> syscall \<Rightarrow> net \<Rightarrow> (int + fd) \<times> net" where
  "open_fd os s w =
    (case ask os s w of (e, w1) \<Rightarrow>
       if e \<noteq> 0 then (Inl e, w1) else (case new_fd w1 of (x, w2) \<Rightarrow> (Inr x, w2)))"

definition net_close :: "fd \<Rightarrow> net \<Rightarrow> net" where
  "net_close x w = w\<lparr>n_open := n_open w - {x}, n_closed := n_closed w @ [x], n_armed := n_armed w - {x}\<rparr>"

text \<open>The destructors: \<open>~basic_handler\<close> does nothing, \<open>~handler\<close> closes.\<close>

definition handler_destroy :: "bool \<Rightarrow> fd \<Rightarrow> net \<Rightarrow> net" where
  "handler_destroy owns x w = (if owns then net_close x w else w)"

definition table_set :: "fd \<Rightarrow> bool \<Rightarrow> net \<Rightarrow> net" where
  "table_set x owns w =
    (let w1 = w\<lparr>n_hands := (n_hands w)(x \<mapsto> owns)\<rparr> in
     case n_hands w x of None \<Rightarrow> w1 | Some old \<Rightarrow> handler_destroy old x w1)"

definition table_reset :: "fd \<Rightarrow> net \<Rightarrow> net" where
  "table_reset x w =
    (case n_hands w x of
       None \<Rightarrow> w
     | Some owns \<Rightarrow> handler_destroy owns x (w\<lparr>n_hands := (n_hands w)(x := None)\<rparr>))"

text \<open>
  \<open>add_handler_impl\<close>: when it throws, the last reference to the handler is dropped. The result of
  \<open>add_fd\<close> is not looked at.
\<close>

definition add_handler_impl :: "os \<Rightarrow> bool \<Rightarrow> fd \<Rightarrow> net \<Rightarrow> bool \<times> net" where
  "add_handler_impl os owns x w =
    (case ask os Sys_fcntl w of (e, w1) \<Rightarrow>
       if e \<noteq> 0 then (False, handler_destroy owns x w1)
       else
         (case ask os Sys_epoll_add (table_set x owns w1) of
            (e2, w3) \<Rightarrow> (True, if e2 = 0 then w3\<lparr>n_armed := insert x (n_armed w3)\<rparr> else w3)))"

text \<open>
  \<open>add_handler<Handler>\<close>: the object is allocated and constructed, with \<open>buffer\<close> when it has a buffer to
  allocate, and given to a \<open>shared_ptr\<close>. A constructor that throws has constructed its base class.
\<close>

definition add_handler :: "os \<Rightarrow> bool \<Rightarrow> bool \<Rightarrow> fd \<Rightarrow> net \<Rightarrow> bool \<times> net" where
  "add_handler os owns buffer x w =
    (case ask os Sys_new w of (e1, w1) \<Rightarrow>
       if e1 \<noteq> 0 then (False, w1)
       else
         (case (if buffer then ask os Sys_malloc w1 else (0, w1)) of (e2, w2) \<Rightarrow>
            if e2 \<noteq> 0 then (False, handler_destroy owns x w2)
            else
              (case ask os Sys_count w2 of (e3, w3) \<Rightarrow>
                 if e3 \<noteq> 0 then (False, handler_destroy owns x w3)
                 else add_handler_impl os owns x w3)))"

text \<open>The end of an event whose handler did not return true.\<close>

definition after_event :: "fd \<Rightarrow> bool \<Rightarrow> net \<Rightarrow> net" where
  "after_event x cont w =
    (if cont then w\<lparr>n_armed := insert x (n_armed w)\<rparr>
     else table_reset x (w\<lparr>n_armed := n_armed w - {x}\<rparr>))"

section \<open>Listening\<close>

definition listen_event :: "os \<Rightarrow> net \<Rightarrow> fd option \<times> net" where
  "listen_event os w =
    (case open_fd os Sys_socket w of
       (Inl e, w1) \<Rightarrow> (None, w1)
     | (Inr lsock, w1) \<Rightarrow>
         (case ask os Sys_setsockopt w1 of (e2, w2) \<Rightarrow>
            if e2 \<noteq> 0 then (None, net_close lsock w2)
            else
              (case ask os Sys_bind w2 of (e3, w3) \<Rightarrow>
                 if e3 \<noteq> 0 then (None, net_close lsock w3)
                 else
                   (case ask os Sys_listen w3 of (e4, w4) \<Rightarrow>
                      if e4 \<noteq> 0 then (None, net_close lsock w4)
                      else
                        (case add_handler os True False lsock w4 of (ok, w5) \<Rightarrow>
                           if ok then (Some lsock, w5) else (None, net_close lsock w5))))))"

text \<open>
  \<open>listen_handler::read_event\<close>. The list is what \<open>accept\<close> finds: connections and hard errors; its
  end is \<open>EAGAIN\<close> or \<open>EINTR\<close>. The callback returns false when it throws.
\<close>

datatype accept_result = Conn | Accept_error int

fun accept_loop :: "(fd \<Rightarrow> int \<Rightarrow> net \<Rightarrow> bool \<times> net) \<Rightarrow> accept_result list \<Rightarrow> net \<Rightarrow> bool \<times> net" where
  "accept_loop cb [] w = (True, w)"
| "accept_loop cb (Accept_error e # rest) w = (case cb (-1) e w of (ok, w1) \<Rightarrow> (False, w1))"
| "accept_loop cb (Conn # rest) w =
    (case new_fd w of (sock, w1) \<Rightarrow>
       (case cb sock 0 w1 of (ok, w2) \<Rightarrow> accept_loop cb rest (if ok then w2 else net_close sock w2)))"

definition listen_read :: "(fd \<Rightarrow> int \<Rightarrow> net \<Rightarrow> bool \<times> net) \<Rightarrow> fd \<Rightarrow> accept_result list \<Rightarrow> net \<Rightarrow> net" where
  "listen_read cb lsock pend w = (case accept_loop cb pend w of (ok, w1) \<Rightarrow> after_event lsock ok w1)"

text \<open>
  \<open>accepted\<close> of the text gate: the options are set without looking at the result. \<open>accepted\<close> of the control
  gate is the same code, for a handler class that has a buffer as well.
\<close>

definition accepted :: "os \<Rightarrow> fd \<Rightarrow> int \<Rightarrow> net \<Rightarrow> bool \<times> net" where
  "accepted os x err w =
    (if x < 0 then (True, w\<lparr>n_end := True\<rparr>)
     else
       (case ask os Sys_setsockopt w of (_, w1) \<Rightarrow>
          (case ask os Sys_setsockopt w1 of (_, w2) \<Rightarrow> add_handler os True True x w2)))"

definition control_accepted :: "os \<Rightarrow> fd \<Rightarrow> int \<Rightarrow> net \<Rightarrow> bool \<times> net" where
  "control_accepted = accepted"

text \<open>
  A descriptor is open because a \<open>handler\<close> owns it, or because it is one of \<open>B\<close>, which something
  outside of these functions owns.
\<close>

definition tidy :: "fd set \<Rightarrow> net \<Rightarrow> bool" where
  "tidy B w \<longleftrightarrow> n_open w = B \<union> {x. n_hands w x = Some True} \<and> (\<forall>x \<in> B. n_hands w x \<noteq> Some True)
    \<and> 0 \<le> n_next w \<and> (\<forall>x. n_next w \<le> x \<longrightarrow> x \<notin> B \<and> n_hands w x = None)"

lemma ask_simps [simp]:
  "n_open (snd (ask os s w)) = n_open w" "n_hands (snd (ask os s w)) = n_hands w"
  "n_next (snd (ask os s w)) = n_next w" "n_closed (snd (ask os s w)) = n_closed w"
  "n_cb (snd (ask os s w)) = n_cb w" "n_end (snd (ask os s w)) = n_end w" "n_armed (snd (ask os s w)) = n_armed w"
  by (simp_all add: ask_def)

lemma askD: "ask os s w = (e, w') \<Longrightarrow> w' = w\<lparr>n_calls := n_calls w + 1\<rparr>"
  by (auto simp: ask_def)

text \<open>What \<open>add_handler\<close> does with a descriptor that nobody owns yet.\<close>

lemma add_handler_result:
  assumes "add_handler os owns buffer x w = (ok, w')" and "n_hands w x = None"
  shows "n_next w' = n_next w" and "n_end w' = n_end w" and "n_cb w' = n_cb w"
    and "ok \<Longrightarrow> n_hands w' = (n_hands w)(x \<mapsto> owns) \<and> n_open w' = n_open w \<and> n_closed w' = n_closed w"
    and "\<not> ok \<Longrightarrow> n_hands w' = n_hands w \<and> (w' = w\<lparr>n_calls := n_calls w + 1\<rparr> \<or>
       (\<exists>n. w' = handler_destroy owns x (w\<lparr>n_calls := n\<rparr>)))"
  using assms
  by (auto simp: add_handler_def add_handler_impl_def table_set_def handler_destroy_def net_close_def Let_def ask_def
      split: if_splits)

text \<open>The same descriptors, closed once or twice.\<close>

lemma add_handler_failed:
  assumes "add_handler os True buffer x w = (False, w')" and "n_hands w x = None"
  shows "n_open (net_close x w') = n_open w - {x}" and "n_hands (net_close x w') = n_hands w"
    and "n_closed (net_close x w') = n_closed w @ [x] \<or> n_closed (net_close x w') = n_closed w @ [x, x]"
  using add_handler_result(5) [OF assms] by (auto simp: net_close_def handler_destroy_def)


lemma accepted_is_add:
  assumes "0 \<le> x"
  shows "\<exists>n. accepted os x err w = add_handler os True True x (w\<lparr>n_calls := n\<rparr>)"
  using assms by (auto simp: accepted_def ask_def)

text \<open>One connection: it has a handler, or it is closed.\<close>

lemma accept_one:
  assumes "tidy B w" and "new_fd w = (x, w1)" and "accepted os x 0 w1 = (ok, w2)"
  shows "tidy B (if ok then w2 else net_close x w2)" and "x = n_next w"
    and "n_hands (if ok then w2 else net_close x w2) = (if ok then (n_hands w)(x \<mapsto> True) else n_hands w)"
    and "n_end (if ok then w2 else net_close x w2) = n_end w"
    and "n_next (if ok then w2 else net_close x w2) = n_next w + 1"
proof -
  have x: "x = n_next w" "w1 = w\<lparr>n_next := n_next w + 1, n_open := insert x (n_open w)\<rparr>"
    using assms(2) by (auto simp: new_fd_def)
  then show "x = n_next w" by simp
  have t: "n_open w = B \<union> {y. n_hands w y = Some True}" "\<forall>y \<in> B. n_hands w y \<noteq> Some True" "0 \<le> n_next w"
    "\<And>y. n_next w \<le> y \<Longrightarrow> y \<notin> B \<and> n_hands w y = None"
    using assms(1) by (auto simp: tidy_def)
  obtain n where add: "add_handler os True True x (w1\<lparr>n_calls := n\<rparr>) = (ok, w2)"
    using accepted_is_add [of x os 0 w1] assms(3) x(1) t(3) by auto
  have none: "n_hands (w1\<lparr>n_calls := n\<rparr>) x = None" using t(4) [of x] x by simp
  note r = add_handler_result [OF add none]
  have fresh: "x \<notin> B" "n_hands w x = None" using t(4) [of x] x(1) by simp_all
  have nxt: "n_next w2 = n_next w + 1" "n_end w2 = n_end w" using r(1,2) x(2) by simp_all
  let ?w = "if ok then w2 else net_close x w2"
  show hands: "n_hands ?w = (if ok then (n_hands w)(x \<mapsto> True) else n_hands w)"
    using r(4,5) x(2) by (auto simp: net_close_def handler_destroy_def)
  show "n_end ?w = n_end w" "n_next ?w = n_next w + 1" using nxt by (simp_all add: net_close_def)
  have "n_open ?w = (if ok then insert x (n_open w) else n_open w - {x})"
  proof (cases ok)
    case False
    then have "n_open (net_close x w2) = n_open (w1\<lparr>n_calls := n\<rparr>) - {x}"
      using add_handler_failed(1) [OF _ none, of os True w2] add by simp
    then show ?thesis using False x(2) by auto
  qed (use r(4) x(2) in simp)
  then show "tidy B ?w"
    unfolding tidy_def hands using t fresh nxt x(1) by (auto simp: net_close_def)
qed

lemma accept_loop_errors:
  "accept_loop cb pend w = (False, w') \<Longrightarrow> \<exists>e. Accept_error e \<in> set pend"
  by (induction cb pend w rule: accept_loop.induct) (auto split: prod.splits if_splits)

lemma accept_loop_tidy:
  assumes "tidy B w" and "accept_loop (accepted os) pend w = (ok, w')"
  shows "tidy B w' \<and> (\<forall>x < n_next w. n_hands w' x = n_hands w x)
    \<and> (if ok then (\<forall>e. Accept_error e \<notin> set pend) \<and> n_end w' = n_end w else n_end w')"
  using assms
proof (induction pend arbitrary: w)
  case (Cons a pend)
  show ?case
  proof (cases a)
    case Conn
    obtain x w1 where n: "new_fd w = (x, w1)" by (cases "new_fd w")
    obtain ok1 w2 where a: "accepted os x 0 w1 = (ok1, w2)" by (cases "accepted os x 0 w1")
    note one = accept_one [OF Cons.prems(1) n a]
    have run: "accept_loop (accepted os) pend (if ok1 then w2 else net_close x w2) = (ok, w')"
      using Cons.prems(2) Conn n a by (auto split: prod.splits)
    from Cons.IH [OF one(1) run] one(2-5) Conn show ?thesis by auto
  next
    case (Accept_error e)
    with Cons.prems show ?thesis by (auto simp: accepted_def tidy_def)
  qed
qed simp

text \<open>
  C19. The listener leaks no connection: whatever fails on the way, after an event of a listening
  socket every accepted descriptor either has a registered handler, which owns it, or is closed, and
  nothing else changed owner. A hard error of \<open>accept\<close> closes the listening socket as well and ends
  the service; otherwise it stays.
\<close>

theorem listener_keeps_descriptors:
  assumes "tidy B w" and "n_hands w lsock = Some True" and "lsock < n_next w"
  shows "tidy B (listen_read (accepted os) lsock pend w)
    \<and> (\<forall>x < n_next w. x \<noteq> lsock \<longrightarrow> n_hands (listen_read (accepted os) lsock pend w) x = n_hands w x)
    \<and> (if \<exists>e. Accept_error e \<in> set pend
       then n_hands (listen_read (accepted os) lsock pend w) lsock = None
         \<and> lsock \<notin> n_open (listen_read (accepted os) lsock pend w) \<and> n_end (listen_read (accepted os) lsock pend w)
       else n_hands (listen_read (accepted os) lsock pend w) lsock = Some True
         \<and> n_end (listen_read (accepted os) lsock pend w) = n_end w)"
proof -
  obtain ok w1 where run: "accept_loop (accepted os) pend w = (ok, w1)" by (cases "accept_loop (accepted os) pend w")
  note loop = accept_loop_tidy [OF assms(1) run]
  have l: "n_hands w1 lsock = Some True" using loop assms(2,3) by simp
  have B: "lsock \<notin> B" using assms(1,2) by (auto simp: tidy_def)
  have eq: "listen_read (accepted os) lsock pend w = after_event lsock ok w1"
    by (simp add: listen_read_def run)
  show ?thesis
  proof (cases ok)
    case True
    then show ?thesis using loop l unfolding eq by (auto simp: after_event_def tidy_def)
  next
    case False
    then have "\<exists>e. Accept_error e \<in> set pend" "n_end w1"
      using loop accept_loop_errors run by auto
    with False show ?thesis using loop l B unfolding eq
      by (auto simp: after_event_def table_reset_def handler_destroy_def net_close_def tidy_def)
  qed
qed


definition no_net :: net where
  "no_net = \<lparr>n_next = 0, n_open = {}, n_closed = [], n_hands = (\<lambda>_. None), n_armed = {}, n_calls = 0,
     n_end = False, n_cb = []\<rparr>"

definition listening :: net where
  "listening = no_net\<lparr>n_next := 4, n_open := {3}, n_hands := [3 \<mapsto> True]\<rparr>"

lemma listening_tidy: "tidy {} listening"
  by (auto simp: tidy_def listening_def no_net_def split: if_splits)

theorem listener_keeps_descriptors_witness:
  "tidy {} (listen_read (accepted (\<lambda>n s. if s = Sys_malloc \<and> n < 5 then 12 else 0)) 3 [Conn, Conn, Accept_error 24] listening)
    \<and> 3 \<notin> n_open (listen_read (accepted (\<lambda>n s. if s = Sys_malloc \<and> n < 5 then 12 else 0)) 3
        [Conn, Conn, Accept_error 24] listening)"
  using listener_keeps_descriptors [OF listening_tidy, of 3 "\<lambda>n s. if s = Sys_malloc \<and> n < 5 then 12 else 0"
      "[Conn, Conn, Accept_error 24]"]
  by (simp add: listening_def no_net_def)

text \<open>
  When the handler of a new connection was constructed and \<open>add_handler\<close> fails afterwards, the
  descriptor is closed by the destructor of the handler and again by the listener.
\<close>

lemma rejected_closed_twice:
  "n_closed (listen_read (accepted (\<lambda>n s. if s = Sys_fcntl then 9 else 0)) 3 [Conn] listening) = [4, 4]"
  by (simp add: listen_read_def accepted_def add_handler_def add_handler_impl_def ask_def new_fd_def net_close_def
      handler_destroy_def after_event_def listening_def no_net_def)

text \<open>\<open>listen_event\<close> itself: a socket with a handler, or nothing.\<close>

lemma listen_event_cases:
  assumes "listen_event os w = (r, w')"
  obtains n where "r = None" "w' = w\<lparr>n_calls := n\<rparr>"
  | n where "r = None" "w' = net_close (n_next w)
      (w\<lparr>n_next := n_next w + 1, n_open := insert (n_next w) (n_open w), n_calls := n\<rparr>)"
  | n ok v where "add_handler os True False (n_next w)
      (w\<lparr>n_next := n_next w + 1, n_open := insert (n_next w) (n_open w), n_calls := n\<rparr>) = (ok, v)"
      "r = (if ok then Some (n_next w) else None)" "w' = (if ok then v else net_close (n_next w) v)"
proof -
  let ?w = "\<lambda>n. w\<lparr>n_next := n_next w + 1, n_open := insert (n_next w) (n_open w), n_calls := n\<rparr>"
  obtain ok v where add: "add_handler os True False (n_next w) (?w (n_calls w + 4)) = (ok, v)"
    by (cases "add_handler os True False (n_next w) (?w (n_calls w + 4))")
  consider "\<exists>n. r = None \<and> w' = w\<lparr>n_calls := n\<rparr>" | "\<exists>n. r = None \<and> w' = net_close (n_next w) (?w n)"
    | "r = (if ok then Some (n_next w) else None)" "w' = (if ok then v else net_close (n_next w) v)"
    using assms add by (auto simp: listen_event_def open_fd_def ask_def new_fd_def numeral_eq_Suc split: if_splits)
  then show thesis
  proof cases
    case 3
    with add show ?thesis by (rule that(3))
  qed (use that in blast)+
qed

lemma listen_event_new: "listen_event os w = (Some l, w') \<Longrightarrow> l = n_next w"
  by (elim listen_event_cases) (auto split: if_splits)

lemma listen_event_tidy:
  assumes "tidy B w" and "listen_event os w = (r, w')"
  shows "tidy B w' \<and> n_hands w' = (case r of None \<Rightarrow> n_hands w | Some l \<Rightarrow> (n_hands w)(l \<mapsto> True))"
  using assms(2)
proof (cases rule: listen_event_cases)
  case (1 n)
  then show ?thesis using assms(1) by (simp add: tidy_def)
next
  case (2 n)
  then show ?thesis using assms(1) by (auto simp: tidy_def net_close_def)
next
  case (3 n ok v)
  let ?v = "w\<lparr>n_next := n_next w + 1, n_open := insert (n_next w) (n_open w), n_calls := n\<rparr>"
  have fresh: "n_next w \<notin> B" "n_hands w (n_next w) = None" using assms(1) by (simp_all add: tidy_def)
  then have none: "n_hands ?v (n_next w) = None" by simp
  note r = add_handler_result [OF 3(1) none]
  show ?thesis
  proof (cases ok)
    case True
    then show ?thesis using r 3(2,3) assms(1) fresh by (auto simp: tidy_def)
  next
    case False
    then have "add_handler os True False (n_next w) ?v = (False, v)" using 3(1) by simp
    note f = add_handler_failed(1,2) [OF this none]
    show ?thesis using False r(1) f 3(2,3) assms(1) fresh by (auto simp: tidy_def net_close_def)
  qed
qed


section \<open>Connecting in a task\<close>

definition EINPROGRESS :: int where "EINPROGRESS = 115"
definition ETIMEDOUT :: int where "ETIMEDOUT = 110"

datatype poll_result = Poll_eintr | Poll_error int | Poll_timeout | Poll_ready

text \<open>
  The result of the task is what it calls the callback with. \<open>err\<close> is 0 at first: after a time-out
  only \<open>errno\<close> is set. \<open>None\<close>: \<open>poll\<close> is interrupted for ever.
\<close>

definition socket_error :: "os \<Rightarrow> fd \<Rightarrow> net \<Rightarrow> (fd \<times> int) \<times> net" where
  "socket_error os x w =
    (case ask os Sys_getsockopt w of (e, w1) \<Rightarrow>
       if e \<noteq> 0 then ((-1, e), net_close x w1)
       else (case ask os Sys_sockerr w1 of (v, w2) \<Rightarrow>
         if v \<noteq> 0 then ((-1, v), net_close x w2) else ((x, 0), w2)))"

fun connect_poll :: "os \<Rightarrow> fd \<Rightarrow> poll_result list \<Rightarrow> net \<Rightarrow> ((fd \<times> int) \<times> net) option" where
  "connect_poll os x [] w = None"
| "connect_poll os x (Poll_eintr # ps) w = connect_poll os x ps w"
| "connect_poll os x (Poll_error e # ps) w = Some ((-1, e), net_close x w)"
| "connect_poll os x (Poll_timeout # ps) w = Some ((-1, 0), net_close x w)"
| "connect_poll os x (Poll_ready # ps) w = Some (socket_error os x w)"

definition connect_fd :: "os \<Rightarrow> poll_result list \<Rightarrow> net \<Rightarrow> ((fd \<times> int) \<times> net) option" where
  "connect_fd os polls w =
    (case open_fd os Sys_socket w of
       (Inl e, w1) \<Rightarrow> Some ((-1, e), w1)
     | (Inr x, w1) \<Rightarrow>
         (case ask os Sys_fcntl w1 of (e2, w2) \<Rightarrow>
            if e2 \<noteq> 0 then Some ((-1, e2), net_close x w2)
            else
              (case ask os Sys_connect w2 of (e3, w3) \<Rightarrow>
                 if e3 = 0 then Some ((x, 0), w3)
                 else if e3 \<noteq> EINPROGRESS then Some ((-1, e3), net_close x w3)
                 else connect_poll os x polls w3)))"

definition run_callback :: "fd \<times> int \<Rightarrow> net \<Rightarrow> net" where
  "run_callback r w = w\<lparr>n_cb := n_cb w @ [r]\<rparr>"

definition connect_task :: "os \<Rightarrow> poll_result list \<Rightarrow> net \<Rightarrow> net option" where
  "connect_task os polls w = map_option (\<lambda>(r, w'). run_callback r w') (connect_fd os polls w)"

text \<open>What a callback gets: the descriptor, open, or \<open>-1\<close> with everything closed.\<close>

definition handed :: "net \<Rightarrow> fd \<times> int \<Rightarrow> net \<Rightarrow> bool" where
  "handed w r w' \<longleftrightarrow> (r = (n_next w, 0) \<and> n_open w' = insert (n_next w) (n_open w)
    \<or> fst r = -1 \<and> n_open w' = n_open w) \<and> n_hands w' = n_hands w \<and> n_cb w' = n_cb w"

lemma socket_error_cases:
  "socket_error os x w = (r, w') \<Longrightarrow>
    (r = (x, 0) \<and> n_open w' = n_open w \<or> fst r = -1 \<and> snd r \<noteq> 0 \<and> n_open w' = n_open w - {x})
    \<and> n_hands w' = n_hands w \<and> n_cb w' = n_cb w \<and> n_next w' = n_next w"
  by (auto simp: socket_error_def net_close_def ask_def split: if_splits)

lemma connect_poll_cases:
  "connect_poll os x ps w = Some (r, w') \<Longrightarrow>
    (r = (x, 0) \<and> n_open w' = n_open w
      \<or> fst r = -1 \<and> (snd r = 0 \<longrightarrow> Poll_timeout \<in> set ps \<or> Poll_error 0 \<in> set ps) \<and> n_open w' = n_open w - {x})
    \<and> n_hands w' = n_hands w \<and> n_cb w' = n_cb w"
proof (induction os x ps w rule: connect_poll.induct)
  case (5 os x ps w)
  then show ?case using socket_error_cases [of os x w r w'] by auto
qed (auto simp: net_close_def)

lemma connect_poll_returns: "\<exists>p \<in> set ps. p \<noteq> Poll_eintr \<Longrightarrow> connect_poll os x ps w \<noteq> None"
  by (induction os x ps w rule: connect_poll.induct) auto

text \<open>
  C31. A connecting task calls its callback exactly once, unless \<open>poll\<close> is interrupted for ever:
  with the new descriptor, which is open, or with \<open>-1\<close>, and then the task has left no descriptor open.
\<close>

theorem connect_task_calls_back:
  assumes "n_next w \<notin> n_open w" and "\<exists>p \<in> set polls. p \<noteq> Poll_eintr"
  shows "\<exists>w' x e. connect_task os polls w = Some w' \<and> n_cb w' = n_cb w @ [(x, e)] \<and> n_hands w' = n_hands w
    \<and> (x = n_next w \<and> e = 0 \<and> n_open w' = insert x (n_open w) \<or> x = -1 \<and> n_open w' = n_open w)"
proof -
  have "\<exists>r w'. connect_fd os polls w = Some (r, w') \<and> handed w r w'"
  proof (cases "os (n_calls w) Sys_socket = 0 \<and> os (n_calls w + 1) Sys_fcntl = 0 \<and> os (n_calls w + 2) Sys_connect = EINPROGRESS")
    case True
    let ?w = "w\<lparr>n_next := n_next w + 1, n_open := insert (n_next w) (n_open w), n_calls := n_calls w + 3\<rparr>"
    have eq: "connect_fd os polls w = connect_poll os (n_next w) polls ?w"
      using True by (simp add: connect_fd_def open_fd_def ask_def new_fd_def EINPROGRESS_def numeral_eq_Suc)
    obtain r w' where r: "connect_poll os (n_next w) polls ?w = Some (r, w')"
      using connect_poll_returns [OF assms(2), of os "n_next w" ?w] by auto
    have "handed w r w'" using connect_poll_cases [OF r] assms(1) by (auto simp: handed_def)
    with eq r show ?thesis by auto
  next
    case False
    then show ?thesis using assms(1)
      by (auto simp: connect_fd_def open_fd_def ask_def new_fd_def handed_def net_close_def)
  qed
  then obtain r w' where r: "connect_fd os polls w = Some (r, w')" "handed w r w'" by blast
  obtain x e where "r = (x, e)" by (cases r)
  with r show ?thesis by (auto simp: connect_task_def run_callback_def handed_def)
qed

theorem connect_task_calls_back_witness:
  "\<exists>w' x e. connect_task (\<lambda>_ s. if s = Sys_connect then EINPROGRESS else 0) [Poll_eintr, Poll_timeout] listening = Some w'
    \<and> n_cb w' = [(x, e)]"
  using connect_task_calls_back [of listening "[Poll_eintr, Poll_timeout]"
      "\<lambda>_ s. if s = Sys_connect then EINPROGRESS else 0"]
  by (auto simp: listening_def no_net_def)

text \<open>After a time-out the callback is told \<open>-1\<close> and no error.\<close>

lemma connect_timeout_without_error:
  "map_option n_cb (connect_task (\<lambda>_ s. if s = Sys_connect then EINPROGRESS else 0) [Poll_timeout] listening)
    = Some [(-1, 0)]"
  by (simp add: connect_task_def connect_fd_def open_fd_def ask_def new_fd_def net_close_def run_callback_def
      EINPROGRESS_def listening_def no_net_def)


section \<open>Timers and signals\<close>

text \<open>
  A \<open>port::timer\<close> or \<open>port::signal\<close> object holds the descriptor until \<open>add_timer\<close> or \<open>add_signal\<close>
  succeeds; its destructor closes what it still holds. \<open>create\<close> is the list of calls that configure
  the new descriptor.
\<close>

fun configure :: "os \<Rightarrow> syscall list \<Rightarrow> net \<Rightarrow> bool \<times> net" where
  "configure os [] w = (True, w)"
| "configure os (s # ss) w = (case ask os s w of (e, w1) \<Rightarrow> if e \<noteq> 0 then (False, w1) else configure os ss w1)"

definition install_shot :: "os \<Rightarrow> syscall \<Rightarrow> syscall list \<Rightarrow> syscall list \<Rightarrow> net \<Rightarrow> fd option \<times> net" where
  "install_shot os create conf construct w =
    (case open_fd os create w of
       (Inl e, w1) \<Rightarrow> (None, w1)
     | (Inr x, w1) \<Rightarrow>
         (case configure os (conf @ construct) w1 of (ok, w2) \<Rightarrow>
            if \<not> ok then (None, net_close x w2)
            else
              (case ask os Sys_epoll_add (table_set x False w2) of (e, w3) \<Rightarrow>
                 if e \<noteq> 0 then (None, net_close x (table_reset x w3))
                 else (Some x, w3\<lparr>n_armed := insert x (n_armed w3)\<rparr>))))"

text \<open>
  \<open>core::timer_event\<close>: the handler is periodic when the interval is given and zero. \<open>None\<close> is the
  null pointer.
\<close>

definition timer_periodic :: "(int \<times> int) option \<Rightarrow> bool" where
  "timer_periodic interval \<longleftrightarrow> interval = Some (0, 0)"

definition timer_event :: "os \<Rightarrow> (int \<times> int) option \<Rightarrow> net \<Rightarrow> (fd \<times> bool) option \<times> net" where
  "timer_event os interval w =
    (case install_shot os Sys_timer_create [Sys_fcntl, Sys_timer_set] [Sys_new, Sys_count] w of
       (r, w') \<Rightarrow> (map_option (\<lambda>x. (x, timer_periodic interval)) r, w'))"

text \<open>\<open>timer_handler\<close>: an expiration. A callback that throws ends the timer.\<close>

definition timer_handler :: "bool \<Rightarrow> bool \<Rightarrow> fd \<Rightarrow> net \<Rightarrow> net" where
  "timer_handler periodic callback_ok x w = after_event x (callback_ok \<and> periodic) w"

definition signal_event :: "os \<Rightarrow> net \<Rightarrow> fd option \<times> net" where
  "signal_event os w = install_shot os Sys_signalfd [Sys_fcntl] [Sys_new, Sys_sigprocmask, Sys_count] w"

definition signal_handler :: "(nat \<Rightarrow> bool) \<Rightarrow> nat \<Rightarrow> fd \<Rightarrow> net \<Rightarrow> net" where
  "signal_handler callback signo x w = after_event x (callback signo) w"

text \<open>
  The tasks that wait in a thread of their own: \<open>timer_task\<close> submits its callback once per interval
  until the core ends, \<open>signal_task\<close> runs its callback per signal until it returns false. The lists
  are the answers of \<open>is_end\<close>, and of \<open>is_end\<close> and \<open>sigwait\<close>; the result of \<open>timer_task\<close> is the
  number of submissions, of \<open>signal_task\<close> the signals delivered and whether it threw.
\<close>

fun timer_task :: "bool list \<Rightarrow> nat" where
  "timer_task [] = 0"
| "timer_task (ended # rest) = (if ended then 0 else Suc (timer_task rest))"

fun signal_task :: "(nat \<Rightarrow> bool) \<Rightarrow> (bool \<times> int \<times> nat) list \<Rightarrow> nat list \<times> bool" where
  "signal_task cb [] = ([], False)"
| "signal_task cb ((ended, err, signo) # rest) =
    (if ended then ([], False)
     else if err \<noteq> 0 then ([], True)
     else if cb signo then (case signal_task cb rest of (l, t) \<Rightarrow> (signo # l, t))
     else ([signo], False))"

lemma signal_task_prefix:
  "\<exists>n. fst (signal_task cb l) = take n (map (snd \<circ> snd) l)"
proof (induction cb l rule: signal_task.induct)
  case (2 cb ended err signo rest)
  show ?case
  proof (cases "\<not> ended \<and> err = 0")
    case True
    show ?thesis
    proof (cases "cb signo")
      case c: True
      with 2 True obtain n where "fst (signal_task cb rest) = take n (map (snd \<circ> snd) rest)" by blast
      with True c show ?thesis by (auto simp: comp_def intro!: exI [of _ "Suc n"] split: prod.splits)
    next
      case False
      with True show ?thesis by (auto intro!: exI [of _ "Suc 0"])
    qed
  next
    case False
    then show ?thesis by (auto intro!: exI [of _ 0])
  qed
qed simp

lemma configure_frame: "configure os ss w = (ok, w') \<Longrightarrow> \<exists>n. w' = w\<lparr>n_calls := n\<rparr>"
proof (induction os ss w rule: configure.induct)
  case (1 os w)
  then show ?case by (auto intro!: exI [of _ "n_calls w"])
next
  case (2 os s ss w)
  then show ?case by (auto simp: ask_def split: if_splits)
qed

text \<open>An installed handler does not own its descriptor; a failure leaves nothing behind.\<close>

lemma install_shot_result:
  assumes "install_shot os create conf construct w = (r, w')" and "n_next w \<notin> n_open w" and "n_hands w (n_next w) = None"
  shows "case r of
      Some x \<Rightarrow> x = n_next w \<and> n_open w' = insert x (n_open w) \<and> n_hands w' = (n_hands w)(x \<mapsto> False)
        \<and> x \<in> n_armed w' \<and> n_closed w' = n_closed w
    | None \<Rightarrow> n_open w' = n_open w \<and> n_hands w' = n_hands w
        \<and> n_closed w' = n_closed w @ (if n_next w' = n_next w then [] else [n_next w])"
proof -
  obtain e w1 where o: "open_fd os create w = (e, w1)" by (cases "open_fd os create w")
  show ?thesis
  proof (cases e)
    case (Inl a)
    with o assms(1) show ?thesis by (auto simp: install_shot_def open_fd_def ask_def new_fd_def split: if_splits)
  next
    case (Inr x)
    then have w1: "x = n_next w" "w1 = w\<lparr>n_next := n_next w + 1, n_open := insert x (n_open w), n_calls := n_calls w + 1\<rparr>"
      using o by (auto simp: open_fd_def ask_def new_fd_def split: if_splits)
    obtain ok w2 where c: "configure os (conf @ construct) w1 = (ok, w2)" by (cases "configure os (conf @ construct) w1")
    from configure_frame [OF c] obtain n where "w2 = w1\<lparr>n_calls := n\<rparr>" ..
    with w1 Inr o c assms show ?thesis
      by (auto simp: install_shot_def table_set_def table_reset_def handler_destroy_def net_close_def ask_def Let_def
          fun_upd_idem split: if_splits)
  qed
qed

lemma install_shot_next:
  "install_shot os create conf construct w = (r, w') \<Longrightarrow> n_next w' = n_next w + 1 \<or> r = None \<and> n_next w' = n_next w"
  by (auto simp: install_shot_def open_fd_def ask_def new_fd_def table_set_def table_reset_def handler_destroy_def
      net_close_def Let_def dest!: configure_frame split: if_splits prod.splits option.splits sum.splits)

lemma install_shot_cb: "install_shot os create conf construct w = (r, w') \<Longrightarrow> n_cb w' = n_cb w"
  by (auto simp: install_shot_def open_fd_def ask_def new_fd_def table_set_def table_reset_def handler_destroy_def
      net_close_def Let_def dest!: configure_frame split: if_splits prod.splits option.splits sum.splits)

text \<open>
  A timer with an interval fires once, whatever the interval is, unless it is zero; after that
  its handler is gone and its descriptor stays open, owned by nobody.
\<close>

theorem timer_event_fires_once:
  assumes "timer_event os interval w = (Some (x, periodic), w')" and "interval \<noteq> Some (0, 0)"
    and "n_next w \<notin> n_open w" and "n_hands w (n_next w) = None"
  shows "\<not> periodic \<and> n_hands w' x = Some False \<and> n_hands (timer_handler periodic ok x w') x = None
    \<and> x \<notin> n_armed (timer_handler periodic ok x w') \<and> x \<in> n_open (timer_handler periodic ok x w')
    \<and> n_closed (timer_handler periodic ok x w') = n_closed w"
proof -
  obtain r where i: "install_shot os Sys_timer_create [Sys_fcntl, Sys_timer_set] [Sys_new, Sys_count] w = (r, w')"
    "r = Some x" "periodic = timer_periodic interval"
    using assms(1) by (auto simp: timer_event_def split: prod.splits)
  from install_shot_result [OF i(1) assms(3,4)] i(2,3) assms(2) show ?thesis
    by (simp add: timer_periodic_def timer_handler_def after_event_def table_reset_def handler_destroy_def)
qed

theorem timer_event_fires_once_witness:
  "4 \<in> n_open (timer_handler False True 4 (snd (timer_event (\<lambda>_ _. 0) (Some (1, 0)) listening)))
    \<and> n_hands (timer_handler False True 4 (snd (timer_event (\<lambda>_ _. 0) (Some (1, 0)) listening))) 4 = None"
proof -
  obtain r w' where t: "timer_event (\<lambda>_ _. 0) (Some (1, 0)) listening = (r, w')"
    by (cases "timer_event (\<lambda>_ _. 0) (Some (1, 0)) listening")
  then have "r = Some (4, False)"
    by (simp add: timer_event_def install_shot_def open_fd_def ask_def new_fd_def listening_def no_net_def
        timer_periodic_def table_set_def)
  with timer_event_fires_once [of "\<lambda>_ _. 0" "Some (1, 0)" listening 4 False w' True] t show ?thesis
    by (simp add: listening_def no_net_def)
qed

section \<open>Connecting with events\<close>

text \<open>
  \<open>core::connect_event\<close>. The result says whether the callback was submitted at once, with what, or a
  handler waits, and with which timer. The value of \<open>errno\<close> after \<open>add_handler\<close> threw is \<open>Sys_errno\<close>.
\<close>

datatype connecting = Submitted fd int | Pending fd "fd option"

definition connect_event :: "os \<Rightarrow> net \<Rightarrow> connecting \<times> net" where
  "connect_event os w =
    (case open_fd os Sys_socket w of
       (Inl e, w1) \<Rightarrow> (Submitted (-1) e, w1)
     | (Inr x, w1) \<Rightarrow>
         (case ask os Sys_connect w1 of (e2, w2) \<Rightarrow>
            if e2 = 0 then (Submitted x 0, w2)
            else if e2 \<noteq> EINPROGRESS then (Submitted (-1) e2, net_close x w2)
            else
              (case add_handler os False False x w2 of (ok, w3) \<Rightarrow>
                 if ok then
                   (case install_shot os Sys_timer_create [Sys_fcntl, Sys_timer_set] [Sys_new, Sys_count] w3 of
                      (tm, w4) \<Rightarrow> (Pending x tm, w4))
                 else
                   (case ask os Sys_errno w3 of (e4, w4) \<Rightarrow> (Submitted (-1) e4, net_close x w4)))))"

text \<open>
  \<open>connect_handler\<close> and its time-out share \<open>m_done\<close>, which the first to come sets.
\<close>

datatype connect_ev = Ev_ready | Ev_timeout

definition connect_ready :: "os \<Rightarrow> fd \<Rightarrow> bool \<times> net \<Rightarrow> bool \<times> net" where
  "connect_ready os x s =
    (case s of (m_done, w) \<Rightarrow>
       if m_done then (True, after_event x False (net_close x w))
       else (case socket_error os x w of (r, w1) \<Rightarrow> (True, after_event x False (run_callback r w1))))"

definition connect_timeout :: "fd option \<Rightarrow> bool \<times> net \<Rightarrow> bool \<times> net" where
  "connect_timeout tm s =
    (case s of (m_done, w) \<Rightarrow>
       (True, (case tm of None \<Rightarrow> id | Some t \<Rightarrow> after_event t False)
         (if m_done then w else run_callback (-1, ETIMEDOUT) w)))"

fun connect_run :: "os \<Rightarrow> fd \<Rightarrow> fd option \<Rightarrow> connect_ev list \<Rightarrow> bool \<times> net \<Rightarrow> bool \<times> net" where
  "connect_run os x tm [] s = s"
| "connect_run os x tm (Ev_ready # evs) s = connect_run os x tm evs (connect_ready os x s)"
| "connect_run os x tm (Ev_timeout # evs) s = connect_run os x tm evs (connect_timeout tm s)"

lemma after_event_basic:
  assumes "n_hands w y = None \<or> n_hands w y = Some False"
  shows "n_open (after_event y False w) = n_open w" "n_cb (after_event y False w) = n_cb w"
    "n_hands (after_event y False w) = (n_hands w)(y := None)"
  using assms by (auto simp: after_event_def table_reset_def handler_destroy_def)

lemma connect_events:
  assumes "distinct evs" and "evs \<noteq> []"
  shows "evs \<in> {[Ev_ready], [Ev_timeout], [Ev_ready, Ev_timeout], [Ev_timeout, Ev_ready]}"
proof -
  have "set evs \<subseteq> {Ev_ready, Ev_timeout}" using connect_ev.exhaust by auto
  then have "length evs \<le> 2"
    using distinct_card [OF assms(1)] card_mono [of "{Ev_ready, Ev_timeout}" "set evs"] by auto
  with assms show ?thesis
    by (cases evs; cases "tl evs"; cases "hd evs"; cases "hd (tl evs)") auto
qed

lemma connect_run_once:
  assumes "n_hands w x = Some False" and "\<forall>t. tm = Some t \<longrightarrow> n_hands w t = Some False \<and> t \<noteq> x"
    and "x \<in> n_open w" and "0 \<le> x" and "distinct evs" and "evs \<noteq> []"
  shows "\<exists>r. n_cb (snd (connect_run os x tm evs (False, w))) = n_cb w @ [r]
    \<and> (r = (x, 0) \<and> x \<in> n_open (snd (connect_run os x tm evs (False, w)))
      \<or> fst r = -1 \<and> (Ev_ready \<in> set evs \<longrightarrow> x \<notin> n_open (snd (connect_run os x tm evs (False, w)))))"
proof -
  note evs = connect_events [OF assms(5,6)]
  obtain r w1 where r: "socket_error os x w = (r, w1)" by (cases "socket_error os x w")
  note rc = socket_error_cases [OF r]
  let ?a = "after_event x False (run_callback r w1)"
  have a: "n_open ?a = n_open w1" "n_cb ?a = n_cb w @ [r]" "n_hands ?a = (n_hands w)(x := None)"
    using after_event_basic [of "run_callback r w1" x] rc assms(1) by (simp_all add: run_callback_def)
  let ?t = "\<lambda>w. (case tm of None \<Rightarrow> id | Some t \<Rightarrow> after_event t False) w"
  have t: "n_open (?t v) = n_open v" "n_cb (?t v) = n_cb v" "n_hands (?t v) x = n_hands v x"
    if "\<And>y. y \<noteq> x \<Longrightarrow> n_hands v y = n_hands w y" for v
    using that assms(2) by (auto simp: after_event_basic split: option.split)
  let ?c = "?t (run_callback (-1, ETIMEDOUT) w)"
  have c: "n_open ?c = n_open w" "n_cb ?c = n_cb w @ [(-1, ETIMEDOUT)]" "n_hands ?c x = Some False"
    using t [of "run_callback (-1, ETIMEDOUT) w"] assms(1) by (simp_all add: run_callback_def)
  have d: "n_open (after_event x False (net_close x ?c)) = n_open w - {x}"
    "n_cb (after_event x False (net_close x ?c)) = n_cb w @ [(-1, ETIMEDOUT)]"
    using after_event_basic [of "net_close x ?c" x] c by (simp_all add: net_close_def)
  have e: "n_open (?t ?a) = n_open w1" "n_cb (?t ?a) = n_cb w @ [r]"
    using t [of ?a] a by simp_all
  have ready: "connect_ready os x (False, w) = (True, ?a)" by (simp add: connect_ready_def r)
  have timeout: "connect_timeout tm (False, w) = (True, ?c)" by (simp add: connect_timeout_def)
  have both: "connect_timeout tm (True, ?a) = (True, ?t ?a)"
    "connect_ready os x (True, ?c) = (True, after_event x False (net_close x ?c))"
    by (simp_all add: connect_timeout_def connect_ready_def)
  have first: "r = (x, 0) \<and> x \<in> n_open w1 \<or> fst r = -1 \<and> x \<notin> n_open w1" using rc assms(3) by auto
  from evs consider "evs = [Ev_ready]" | "evs = [Ev_timeout]" | "evs = [Ev_ready, Ev_timeout]"
    | "evs = [Ev_timeout, Ev_ready]" by blast
  then show ?thesis
  proof cases
    case 1
    then show ?thesis using a first by (simp add: ready)
  next
    case 2
    then show ?thesis using c by (simp add: timeout)
  next
    case 3
    then show ?thesis using e first by (simp add: ready both(1))
  next
    case 4
    then show ?thesis using d by (simp add: timeout both(2))
  qed
qed


lemma connecting_net_pending: "connect_event (\<lambda>_ s. if s = Sys_connect then EINPROGRESS else 0) listening
    = (Pending 4 (Some 5), listening\<lparr>n_next := 6, n_open := {3, 4, 5}, n_hands := [3 \<mapsto> True, 4 \<mapsto> False, 5 \<mapsto> False],
        n_armed := {4, 5}, n_calls := 12\<rparr>)"
  by (simp add: connect_event_def install_shot_def open_fd_def ask_def new_fd_def add_handler_def add_handler_impl_def
      table_set_def EINPROGRESS_def listening_def no_net_def insert_commute)

text \<open>
  \<open>connect_event\<close> itself never makes its socket non-blocking before it connects: a failure of
  \<open>add_handler\<close> reports whatever \<open>errno\<close> is by then, 0 included.
\<close>

lemma connect_event_reports_success:
  "connect_event (\<lambda>_ s. if s = Sys_connect then EINPROGRESS else if s = Sys_new then 1 else 0) listening
    = (Submitted (-1) 0, listening\<lparr>n_next := 5, n_open := {3}, n_closed := [4], n_calls := 4\<rparr>)"
  by (simp add: connect_event_def open_fd_def ask_def new_fd_def add_handler_def net_close_def EINPROGRESS_def
      listening_def no_net_def)


definition after_socket :: "net \<Rightarrow> net" where
  "after_socket w = w\<lparr>n_next := n_next w + 1, n_open := insert (n_next w) (n_open w), n_calls := n_calls w + 2\<rparr>"

lemma connect_event_cases:
  assumes run: "connect_event os w = (c, w')" and fresh: "n_next w \<notin> n_open w"
    and a: "add_handler os False False (n_next w) (after_socket w) = (ok, w3)"
    and i: "install_shot os Sys_timer_create [Sys_fcntl, Sys_timer_set] [Sys_new, Sys_count] w3 = (tm', w4)"
    and w3: "n_open w3 = insert (n_next w) (n_open w)"
  shows "(\<exists>e. c = Submitted (-1) e) \<and> n_open w' = n_open w
    \<or> c = Submitted (n_next w) 0 \<and> n_open w' = insert (n_next w) (n_open w)
    \<or> ok \<and> c = Pending (n_next w) tm' \<and> w' = w4"
proof (cases "os (n_calls w) Sys_socket = 0 \<and> os (n_calls w + 1) Sys_connect = EINPROGRESS")
  case True
  let ?x = "n_next w"
  from True have "connect_event os w = (if ok then (Pending ?x tm', w4)
      else (case ask os Sys_errno w3 of (e4, w4) \<Rightarrow> (Submitted (-1) e4, net_close ?x w4)))"
    using a i
    by (simp add: connect_event_def open_fd_def ask_def new_fd_def EINPROGRESS_def after_socket_def numeral_eq_Suc)
  with run have run': "(if ok then (Pending ?x tm', w4)
      else (case ask os Sys_errno w3 of (e4, w4) \<Rightarrow> (Submitted (-1) e4, net_close ?x w4))) = (c, w')" by simp
  show ?thesis
  proof (cases ok)
    case True
    with run' show ?thesis by simp
  next
    case False
    with run' have "c = Submitted (-1) (os (n_calls w3) Sys_errno)" "n_open w' = n_open w3 - {?x}"
      by (auto simp: ask_def net_close_def)
    with w3 fresh show ?thesis by simp
  qed
next
  case False
  with run fresh show ?thesis
    by (auto simp: connect_event_def open_fd_def ask_def new_fd_def net_close_def split: if_splits)
qed

lemma connect_event_result:
  assumes "tidy B w" and run: "connect_event os w = (c, w')"
  obtains (failed) e where "c = Submitted (-1) e" "n_open w' = n_open w"
  | (connected) "c = Submitted (n_next w) 0" "n_open w' = insert (n_next w) (n_open w)"
  | (pending) tm where "c = Pending (n_next w) tm" "n_hands w' (n_next w) = Some False"
      "\<forall>t. tm = Some t \<longrightarrow> n_hands w' t = Some False \<and> t \<noteq> n_next w"
      "n_next w \<in> n_open w'" "0 \<le> n_next w" "n_cb w' = n_cb w"
proof -
  let ?x = "n_next w"
  have fresh: "?x \<notin> n_open w" "n_hands w ?x = None" "?x + 1 \<notin> n_open w" "n_hands w (?x + 1) = None" "0 \<le> ?x"
    using assms(1) by (auto simp: tidy_def)
  obtain ok w3 where a: "add_handler os False False ?x (after_socket w) = (ok, w3)"
    by (cases "add_handler os False False ?x (after_socket w)")
  obtain tm' w4 where i: "install_shot os Sys_timer_create [Sys_fcntl, Sys_timer_set] [Sys_new, Sys_count] w3 = (tm', w4)"
    by (cases "install_shot os Sys_timer_create [Sys_fcntl, Sys_timer_set] [Sys_new, Sys_count] w3")
  have "n_hands (after_socket w) ?x = None" using fresh by (simp add: after_socket_def)
  note r = add_handler_result [OF a this, unfolded after_socket_def, simplified]
  have w3: "n_open w3 = insert ?x (n_open w)" using r by (cases ok) (auto simp: handler_destroy_def)
  show thesis
  proof (cases "ok \<and> c = Pending ?x tm' \<and> w' = w4")
    case True
    then have w3': "n_next w3 = ?x + 1" "n_hands w3 = (n_hands w)(?x \<mapsto> False)" "n_cb w3 = n_cb w"
      using r by simp_all
    have "n_next w3 \<notin> n_open w3" "n_hands w3 (n_next w3) = None" using w3 w3' fresh by simp_all
    note shot = install_shot_result [OF i this] install_shot_cb [OF i]
    then show thesis using True pending [of tm'] w3 w3' fresh(5) by (auto split: option.splits)
  next
    case False
    with connect_event_cases [OF run fresh(1) a i w3] failed connected show thesis by blast
  qed
qed



end
