(* ===== verification/Connect_Thread.thy ===== *)
theory Connect_Thread
  imports Wavy_Core Wavy_Net
begin

text \<open>
  \<open>core::connect_thread\<close> (\<^verbatim>\<open>src/mpsrc/wavy_connect.cc\<close>): the arguments of a connection travel to a worker
  in a \<open>pack\<close> on the heap, whose address is part of the submitted task. The task queue is the one of
  \<open>Wavy_Core\<close>, what the task does to the descriptors is \<open>connect_task\<close> of \<open>Wavy_Net\<close>. Who owns a pack,
  and when it is freed.
\<close>

section \<open>State\<close>

text \<open>The \<open>addrlen\<close> bytes of the address are copied behind the fields.\<close>

record pack =
  cp_family :: c_int
  cp_type :: c_int
  cp_protocol :: c_int
  cp_addrlen :: nat
  cp_timeout :: c_int
  cp_addr :: "byte list"

text \<open>
  A task is named by the address of its pack, an allocation by its number. \<open>cn_mine\<close> are the tasks of
  \<open>connect_thread\<close> that were submitted, \<open>cn_lost\<close> the packs whose task was not, \<open>cn_asked\<close> what the
  calls asked for; \<open>cn_done\<close> the tasks that called their callback, with the pack they read. \<open>cn_fault\<close>:
  a task used a pack that is not allocated.
\<close>

record connecting =
  cn_core :: core_state
  cn_net :: net
  cn_packs :: "task \<rightharpoonup> pack"
  cn_next :: task
  cn_mine :: "task set"
  cn_lost :: "task set"
  cn_asked :: "task \<rightharpoonup> pack"
  cn_done :: "(task \<times> pack) list"
  cn_fault :: bool

definition connecting_new :: "c_int \<Rightarrow> c_int \<Rightarrow> handler_id \<Rightarrow> net \<Rightarrow> connecting" where
  "connecting_new ep out_fd h w =
    \<lparr>cn_core = core_new ep out_fd h, cn_net = w\<lparr>n_cb := []\<rparr>, cn_packs = (\<lambda>_. None), cn_next = 0,
     cn_mine = {}, cn_lost = {}, cn_asked = (\<lambda>_. None), cn_done = [], cn_fault = False\<rparr>"

section \<open>Operations\<close>

text \<open>The constructor of the task: \<open>None\<close> is \<open>std::bad_alloc\<close>.\<close>

definition connect_task_new :: "bool \<Rightarrow> c_int \<Rightarrow> c_int \<Rightarrow> c_int \<Rightarrow> byte list \<Rightarrow> c_int \<Rightarrow> connecting \<Rightarrow>
    (task \<times> connecting) option" where
  "connect_task_new granted family type protocol addr timeout c =
    (if \<not> granted then None
     else
       let m = \<lparr>cp_family = family, cp_type = type, cp_protocol = protocol, cp_addrlen = length addr,
                cp_timeout = timeout, cp_addr = addr\<rparr>
       in Some (cn_next c, c\<lparr>cn_packs := (cn_packs c)(cn_next c \<mapsto> m), cn_next := cn_next c + 1,
                             cn_asked := (cn_asked c)(cn_next c \<mapsto> m)\<rparr>))"

text \<open>
  The result says whether the call returned or threw. The task has no destructor: when \<open>submit\<close> throws
  (the copy of the functor or the queue finds no memory), the pack stays where it is.
\<close>

definition connect_thread :: "bool \<Rightarrow> bool \<Rightarrow> (tid \<Rightarrow> mode) \<Rightarrow> tid set \<Rightarrow> c_int \<Rightarrow> c_int \<Rightarrow> c_int \<Rightarrow> byte list \<Rightarrow>
    c_int \<Rightarrow> connecting \<Rightarrow> bool \<times> connecting" where
  "connect_thread granted queued md ts family type protocol addr timeout c =
    (case connect_task_new granted family type protocol addr timeout c of
       None \<Rightarrow> (False, c)
     | Some (p, c1) \<Rightarrow>
         if queued
         then (True, c1\<lparr>cn_core := awaken md ts (submit_impl p (cn_core c1)), cn_mine := insert p (cn_mine c1)\<rparr>)
         else (False, c1\<lparr>cn_lost := insert p (cn_lost c1)\<rparr>))"

text \<open>
  The task, run to its end: it reads its pack, connects, frees the pack and calls the callback. What
  the kernel answers depends on the arguments in the pack. \<open>None\<close>: \<open>poll\<close> is interrupted for ever.
\<close>

definition run_connect_task :: "(pack \<Rightarrow> os) \<Rightarrow> poll_result list \<Rightarrow> task \<Rightarrow> connecting \<Rightarrow> connecting option" where
  "run_connect_task os polls p c =
    (case cn_packs c p of
       None \<Rightarrow> Some (c\<lparr>cn_fault := True\<rparr>)
     | Some m \<Rightarrow> map_option (\<lambda>w. c\<lparr>cn_net := w, cn_packs := (cn_packs c)(p := None), cn_done := cn_done c @ [(p, m)]\<rparr>)
         (connect_task (os m) polls (cn_net c)))"

section \<open>Steps\<close>

text \<open>
  Steps of the loop that neither submit nor end a task of \<open>connect_thread\<close>, other submissions, and the
  rest of the program, which may do anything with descriptors but call these callbacks.
\<close>

inductive connecting_step :: "(tid \<Rightarrow> mode) \<Rightarrow> connecting \<Rightarrow> connecting \<Rightarrow> bool" for md where
  core: "core_step md (cn_core c) d \<Longrightarrow> submitted d = submitted (cn_core c) \<Longrightarrow>
    \<forall>t k. k \<in> cn_mine c \<longrightarrow> m_pcs (cn_core c) t = Running k \<longrightarrow> m_pcs d t = Running k \<Longrightarrow>
    connecting_step md c (c\<lparr>cn_core := d\<rparr>)"
| other_task: "wakes True ts (cn_core c) \<Longrightarrow>
    connecting_step md c (c\<lparr>cn_core := awaken md ts (submit_impl (cn_next c) (cn_core c)), cn_next := cn_next c + 1\<rparr>)"
| connect_call: "wakes True ts (cn_core c) \<Longrightarrow> connect_thread granted queued md ts family type protocol addr timeout c = (returned, c') \<Longrightarrow>
    connecting_step md c c'"
| connect_run: "m_pcs (cn_core c) t = Running p \<Longrightarrow> p \<in> cn_mine c \<Longrightarrow> run_connect_task os polls p c = Some c' \<Longrightarrow>
    connecting_step md c (c'\<lparr>cn_core := at_pc t (resume (md t)) (cn_core c)\<rparr>)"
| other_net: "n_cb w = n_cb (cn_net c) \<Longrightarrow> connecting_step md c (c\<lparr>cn_net := w\<rparr>)"

inductive connecting_reach :: "(tid \<Rightarrow> mode) \<Rightarrow> connecting \<Rightarrow> bool" for md where
  new: "connecting_reach md (connecting_new ep out_fd h w)"
| step: "connecting_reach md c \<Longrightarrow> connecting_step md c c' \<Longrightarrow> connecting_reach md c'"

section \<open>Tasks on their way\<close>

definition under_way :: "core_state \<Rightarrow> task \<Rightarrow> bool" where
  "under_way c k \<longleftrightarrow> k \<in> set (m_tasks c) \<or> (\<exists>t. m_pcs c t = Running k)"

definition tasks_inv :: "core_state \<Rightarrow> bool" where
  "tasks_inv c \<longleftrightarrow> distinct (submitted c) \<and> fifo c
    \<and> (\<forall>t k. m_pcs c t = Running k \<longrightarrow> k \<in> set (started c))
    \<and> (\<forall>t u k. m_pcs c t = Running k \<longrightarrow> m_pcs c u = Running k \<longrightarrow> t = u)"

lemma resume_not_running [simp]: "resume md \<noteq> Running k"
  by (simp add: resume_def split: mode.split)

lemma next_pc_running [simp]: "next_pc a = Running k \<longleftrightarrow> a = Do_task k"
  by (cases a) simp_all

text \<open>A step starts no task, or the first of the queue, or submits one.\<close>

lemma core_step_tasks:
  assumes "core_step md c d" and pol: "poll_inv c" and "submitted d = submitted c"
  shows "m_tasks d = m_tasks c \<and> (\<forall>t k. m_pcs d t = Running k \<longrightarrow> m_pcs c t = Running k)
    \<or> (\<exists>t k. m_tasks c = k # m_tasks d \<and> m_pcs c t = Locking \<and> m_pcs d t = Running k
        \<and> (\<forall>u j. u \<noteq> t \<longrightarrow> m_pcs d u = Running j \<longrightarrow> m_pcs c u = Running j))"
  using assms(1)
proof cases
  case (locked t outs a sg e ts)
  have res: "section_result c a sg e" by (rule begin_section_result [OF pol locked(3)])
  have pcs: "m_pcs e = m_pcs c" using section_result_frame [OF res] by (rule same_but_queuesD)
  have "m_tasks e = m_tasks c \<and> (\<forall>k. a \<noteq> Do_task k) \<or> (\<exists>k. a = Do_task k \<and> m_tasks c = k # m_tasks e)"
    using res by cases (auto simp: takes_def)
  then show ?thesis using locked(1,2) pcs by (auto simp: awaken_def)
next
  case (relock t n outs a sg e ts)
  then have "0 < n" "n \<le> length (m_backlog c)" using pol by (auto simp: poll_inv_def)
  from after_poll_takes(1) [OF this relock(3)]
  have e: "m_tasks e = m_tasks c" "m_pcs e = m_pcs c" "\<forall>k. a \<noteq> Do_task k"
    by (auto simp: takes_def same_but_queues_def)
  then show ?thesis using relock(1) by (auto simp: awaken_def)
qed (use assms(3) in \<open>auto simp: poll_nothing_def submit_impl_def reset_handler_def set_handler_def
    port_add_fd_def awaken_def split: mode.splits if_splits\<close>)

lemma under_way_step:
  assumes "core_step md c d" and "poll_inv c" and "submitted d = submitted c"
    and "\<forall>t. m_pcs c t = Running k \<longrightarrow> m_pcs d t = Running k"
  shows "under_way d k \<longleftrightarrow> under_way c k"
  using core_step_tasks [OF assms(1-3)]
proof (elim disjE exE conjE)
  assume "m_tasks d = m_tasks c" and "\<forall>t k. m_pcs d t = Running k \<longrightarrow> m_pcs c t = Running k"
  with assms(4) show ?thesis unfolding under_way_def by metis
next
  fix t j assume j: "m_tasks c = j # m_tasks d" "m_pcs d t = Running j" "m_pcs c t = Locking"
    and rest: "\<forall>u i. u \<noteq> t \<longrightarrow> m_pcs d u = Running i \<longrightarrow> m_pcs c u = Running i"
  show ?thesis
  proof (cases "k = j")
    case True
    then show ?thesis using j(1,2) by (auto simp: under_way_def)
  next
    case False
    then have "(\<exists>u. m_pcs d u = Running k) \<longleftrightarrow> (\<exists>u. m_pcs c u = Running k)"
      using rest assms(4) j(2) by (metis pc.inject(1))
    then show ?thesis using False j(1) by (simp add: under_way_def)
  qed
qed

lemma tasks_inv_step:
  assumes "core_step md c d" and pol: "poll_inv c" and "tasks_inv c" and "submitted d = submitted c"
  shows "tasks_inv d"
proof -
  from assms(3) have f: "fifo c" "distinct (submitted c)"
    and run: "\<And>t k. m_pcs c t = Running k \<Longrightarrow> k \<in> set (started c)"
    and one: "\<And>t u k. m_pcs c t = Running k \<Longrightarrow> m_pcs c u = Running k \<Longrightarrow> t = u"
    by (auto simp: tasks_inv_def)
  have fd: "fifo d" by (rule fifo_step [OF assms(1) f(1) pol])
  from core_step_tasks [OF assms(1) pol assms(4)] show ?thesis
  proof (elim disjE exE conjE)
    assume "m_tasks d = m_tasks c" and still: "\<forall>t k. m_pcs d t = Running k \<longrightarrow> m_pcs c t = Running k"
    with f(1) fd assms(4) have "started d = started c" by (simp add: fifo_def)
    with still run one f(2) fd assms(4) show ?thesis unfolding tasks_inv_def by metis
  next
    fix t k assume k: "m_tasks c = k # m_tasks d" "m_pcs d t = Running k"
      and rest: "\<forall>u j. u \<noteq> t \<longrightarrow> m_pcs d u = Running j \<longrightarrow> m_pcs c u = Running j"
    with f(1) fd assms(4) have s: "started d = started c @ [k]" by (simp add: fifo_def)
    with f fd assms(4) have new: "k \<notin> set (started c)" by (auto simp: fifo_def)
    show ?thesis unfolding tasks_inv_def
    proof (intro conjI allI impI)
      show "distinct (submitted d)" "fifo d" using f fd assms(4) by simp_all
    next
      fix u j assume "m_pcs d u = Running j"
      then show "j \<in> set (started d)" using run rest k(2) s by (cases "u = t") auto
    next
      fix u v j assume "m_pcs d u = Running j" "m_pcs d v = Running j"
      then show "u = v" using one [of u j v] run [of u j] run [of v j] rest k(2) new
        by (cases "u = t"; cases "v = t") auto
    qed
  qed
qed

lemma tasks_inv_submit:
  assumes "tasks_inv c" and "k \<notin> set (submitted c)" and "wakes True ts c"
  shows "tasks_inv (awaken md ts (submit_impl k c))"
    and "under_way (awaken md ts (submit_impl k c)) j \<longleftrightarrow> j = k \<or> under_way c j"
proof -
  have pcs: "m_pcs (awaken md ts (submit_impl k c)) t = Running i \<longleftrightarrow> m_pcs c t = Running i" for t i
    using wakesD [OF assms(3), of t] by (auto simp: awaken_def submit_impl_def)
  show "tasks_inv (awaken md ts (submit_impl k c))"
    using assms(1,2) unfolding tasks_inv_def pcs by (auto simp: submit_impl_def fifo_def)
  show "under_way (awaken md ts (submit_impl k c)) j \<longleftrightarrow> j = k \<or> under_way c j"
    unfolding under_way_def pcs by (auto simp: submit_impl_def)
qed

lemma tasks_inv_done:
  assumes "tasks_inv c" and t: "m_pcs c t = Running p"
  shows "tasks_inv (at_pc t (resume md) c)"
    and "under_way (at_pc t (resume md) c) j \<longleftrightarrow> j \<noteq> p \<and> under_way c j"
proof -
  show "tasks_inv (at_pc t (resume md) c)" using assms(1) by (auto simp: tasks_inv_def fifo_def)
  from assms(1) have f: "distinct (started c @ m_tasks c)" unfolding tasks_inv_def fifo_def by metis
  have "p \<in> set (started c)" and one: "\<And>u. m_pcs c u = Running p \<Longrightarrow> u = t"
    using assms(1) t unfolding tasks_inv_def by blast+
  with f have queue: "p \<notin> set (m_tasks c)" by auto
  have "m_pcs (at_pc t (resume md) c) u = Running j \<longleftrightarrow> j \<noteq> p \<and> m_pcs c u = Running j" for u
    using one [of u] t by (cases "u = t") auto
  with queue show "under_way (at_pc t (resume md) c) j \<longleftrightarrow> j \<noteq> p \<and> under_way c j"
    by (auto simp: under_way_def)
qed

section \<open>Packs\<close>

lemma connect_fd_cb:
  assumes "connect_fd os polls w = Some (r, v)"
  shows "n_cb v = n_cb w"
proof -
  have "n_cb v = n_cb u" if "connect_poll os x polls u = Some (r, v)" for x u
    using connect_poll_cases [OF that] by simp
  from this [of "n_next w"] assms show ?thesis
    by (fastforce simp: connect_fd_def open_fd_def ask_def new_fd_def net_close_def split: if_splits)
qed

lemma connect_task_one_call:
  assumes "connect_task os polls w = Some w'"
  shows "length (n_cb w') = Suc (length (n_cb w))"
proof -
  from assms obtain r v where v: "connect_fd os polls w = Some (r, v)" "w' = run_callback r v"
    by (auto simp: connect_task_def)
  have "n_cb v = n_cb w"
    by (rule connect_fd_cb [OF v(1)])
  then show ?thesis using v(2) by (simp add: run_callback_def)
qed

definition connecting_inv :: "(tid \<Rightarrow> mode) \<Rightarrow> connecting \<Rightarrow> bool" where
  "connecting_inv md c \<longleftrightarrow> core_reach md (cn_core c) \<and> tasks_inv (cn_core c)
    \<and> (\<forall>k \<in> set (submitted (cn_core c)) \<union> cn_lost c. k < cn_next c)
    \<and> cn_mine c \<subseteq> set (submitted (cn_core c)) \<and> cn_lost c \<inter> set (submitted (cn_core c)) = {}
    \<and> dom (cn_packs c) = cn_lost c \<union> {k \<in> cn_mine c. under_way (cn_core c) k}
    \<and> distinct (map fst (cn_done c)) \<and> fst ` set (cn_done c) = {k \<in> cn_mine c. \<not> under_way (cn_core c) k}
    \<and> cn_packs c \<subseteq>\<^sub>m cn_asked c \<and> (\<forall>(k, m) \<in> set (cn_done c). cn_asked c k = Some m)
    \<and> length (n_cb (cn_net c)) = length (cn_done c) \<and> \<not> cn_fault c"

text \<open>A submitted task is new, and so is not one of those under way.\<close>

lemma under_way_submitted: "tasks_inv c \<Longrightarrow> under_way c k \<Longrightarrow> k \<in> set (submitted c)"
  by (auto simp: tasks_inv_def under_way_def fifo_def)

lemma submitting:
  assumes inv: "connecting_inv md c" and w: "wakes True ts (cn_core c)"
  defines "d \<equiv> awaken md ts (submit_impl (cn_next c) (cn_core c))"
  shows "core_reach md d" and "tasks_inv d" and "submitted d = submitted (cn_core c) @ [cn_next c]"
    and "\<And>k. under_way d k \<longleftrightarrow> k = cn_next c \<or> under_way (cn_core c) k"
    and "cn_next c \<notin> set (submitted (cn_core c)) \<union> cn_lost c" and "\<not> under_way (cn_core c) (cn_next c)"
proof -
  show new: "cn_next c \<notin> set (submitted (cn_core c)) \<union> cn_lost c"
    using inv unfolding connecting_inv_def by (meson nat_less_le)
  show "core_reach md d" unfolding d_def
    by (rule core_reach.step [OF _ core_step.submit [OF w]]) (use inv in \<open>simp add: connecting_inv_def\<close>)
  have t: "tasks_inv (cn_core c)" using inv by (simp add: connecting_inv_def)
  from new tasks_inv_submit [OF t _ w] show "tasks_inv d"
    and "\<And>k. under_way d k \<longleftrightarrow> k = cn_next c \<or> under_way (cn_core c) k" by (auto simp: d_def)
  show "submitted d = submitted (cn_core c) @ [cn_next c]" by (simp add: d_def submit_impl_def)
  show "\<not> under_way (cn_core c) (cn_next c)" using new under_way_submitted [OF t] by blast
qed

lemma asked_later:
  assumes "\<forall>(k, m) \<in> set ps. f k = Some m" and "x \<notin> fst ` set ps"
  shows "\<forall>(k, m) \<in> set ps. (f(x \<mapsto> y)) k = Some m"
  using assms by force

lemma map_le_insert: "f \<subseteq>\<^sub>m g \<Longrightarrow> f(x \<mapsto> y) \<subseteq>\<^sub>m g(x \<mapsto> y)"
  by (auto simp: map_le_def)

lemma connect_call_inv:
  assumes inv: "connecting_inv md c" and w: "wakes True ts (cn_core c)"
    and call: "connect_thread granted queued md ts family type protocol addr timeout c = (returned, c')"
  shows "connecting_inv md c'"
proof (cases granted)
  case True
  obtain m where new: "connect_task_new granted family type protocol addr timeout c =
      Some (cn_next c, c\<lparr>cn_packs := (cn_packs c)(cn_next c \<mapsto> m), cn_next := cn_next c + 1,
        cn_asked := (cn_asked c)(cn_next c \<mapsto> m)\<rparr>)"
    using True by (simp add: connect_task_new_def Let_def)
  note sub = submitting [OF inv w]
  define A where "A = (cn_asked c)(cn_next c \<mapsto> m)"
  define P where "P = (cn_packs c)(cn_next c \<mapsto> m)"
  have "cn_next c \<notin> fst ` set (cn_done c)" using inv sub(5) by (auto simp: connecting_inv_def)
  with inv have A: "\<forall>(k, p) \<in> set (cn_done c). A k = Some p"
    unfolding A_def by (intro asked_later) (simp_all add: connecting_inv_def)
  have P: "P \<subseteq>\<^sub>m A" "dom P = insert (cn_next c) (dom (cn_packs c))"
    using inv unfolding P_def A_def by (simp_all add: connecting_inv_def map_le_insert)
  note made = new [folded A_def P_def]
  show ?thesis
  proof (cases queued)
    case True
    from call made True have "c' = c\<lparr>cn_packs := P, cn_next := cn_next c + 1, cn_asked := A,
        cn_core := awaken md ts (submit_impl (cn_next c) (cn_core c)), cn_mine := insert (cn_next c) (cn_mine c)\<rparr>"
      by (simp add: connect_thread_def)
    with sub inv A P show ?thesis by (auto simp: connecting_inv_def less_Suc_eq)
  next
    case False
    from call made False have "c' = c\<lparr>cn_packs := P, cn_next := cn_next c + 1, cn_asked := A,
        cn_lost := insert (cn_next c) (cn_lost c)\<rparr>"
      by (simp add: connect_thread_def)
    with sub(5,6) inv A P show ?thesis by (auto simp: connecting_inv_def less_Suc_eq)
  qed
next
  case False
  with call inv show ?thesis by (simp add: connect_thread_def connect_task_new_def)
qed

lemma connect_run_inv:
  assumes inv: "connecting_inv md c" and t: "m_pcs (cn_core c) t = Running p" and p: "p \<in> cn_mine c"
    and run: "run_connect_task os polls p c = Some c'"
  shows "connecting_inv md (c'\<lparr>cn_core := at_pc t (resume (md t)) (cn_core c)\<rparr>)"
proof -
  have ti: "tasks_inv (cn_core c)" and reach: "core_reach md (cn_core c)" using inv by (simp_all add: connecting_inv_def)
  have uw: "under_way (cn_core c) p" using t by (auto simp: under_way_def)
  with inv p have "p \<in> dom (cn_packs c)" by (simp add: connecting_inv_def)
  then obtain m where m: "cn_packs c p = Some m" by blast
  with run obtain w where w: "connect_task (os m) polls (cn_net c) = Some w"
    "c' = c\<lparr>cn_net := w, cn_packs := (cn_packs c)(p := None), cn_done := cn_done c @ [(p, m)]\<rparr>"
    by (auto simp: run_connect_task_def)
  have lost: "p \<notin> cn_lost c" using inv p by (auto simp: connecting_inv_def)
  have undone: "p \<notin> fst ` set (cn_done c)" using inv uw by (simp add: connecting_inv_def)
  have le: "cn_packs c \<subseteq>\<^sub>m cn_asked c" using inv by (simp add: connecting_inv_def)
  with m have asked: "cn_asked c p = Some m" by (metis domI map_le_def)
  have left: "(cn_packs c)(p := None) \<subseteq>\<^sub>m cn_asked c" using le by (auto simp: map_le_def)
  from tasks_inv_done [OF ti t, of "md t"] core_reach.step [OF reach core_step.task_done [OF t]]
    connect_task_one_call [OF w(1)] inv p uw lost undone asked left
  show ?thesis unfolding connecting_inv_def w(2) by auto
qed

lemma connecting_inv_step:
  assumes "connecting_step md c c'" and inv: "connecting_inv md c"
  shows "connecting_inv md c'"
  using assms(1)
proof cases
  case (core d)
  have ti: "tasks_inv (cn_core c)" and reach: "core_reach md (cn_core c)" using inv by (simp_all add: connecting_inv_def)
  have pol: "poll_inv (cn_core c)" using core_reach_inv [OF reach] by simp
  have "under_way d k = under_way (cn_core c) k" if "k \<in> cn_mine c" for k
    using under_way_step [OF core(2) pol core(3), of k] core(4) that by blast
  with core tasks_inv_step [OF core(2) pol ti core(3)] core_reach.step [OF reach core(2)] inv
  show ?thesis by (auto simp: connecting_inv_def)
next
  case (other_task ts)
  from submitting [OF inv other_task(2)] inv show ?thesis
    unfolding other_task(1) connecting_inv_def by (auto simp: less_Suc_eq)
next
  case (connect_call ts granted queued family type protocol addr timeout returned)
  then show ?thesis using connect_call_inv [OF inv] by blast
next
  case (connect_run t p os polls d)
  then show ?thesis using connect_run_inv [OF inv connect_run(2-4)] by simp
next
  case (other_net w)
  then show ?thesis using inv by (simp add: connecting_inv_def)
qed

lemma connecting_reach_inv: "connecting_reach md c \<Longrightarrow> connecting_inv md c"
proof (induction rule: connecting_reach.induct)
  case (new ep out_fd h w)
  have "core_reach md (core_new ep out_fd h)" by (rule core_reach.init)
  then show ?case
    by (simp add: connecting_inv_def connecting_new_def tasks_inv_def under_way_def core_new_def fifo_def)
next
  case (step c c')
  then show ?case using connecting_inv_step by blast
qed

section \<open>Properties\<close>

text \<open>
  C32. The packs of \<open>connect_thread\<close>, in any interleaving of its callers, the workers and the rest of the
  program. No task reads or frees a pack that is not allocated; the packs on the heap are those of the
  tasks that wait in the queue or run, and those of calls whose \<open>submit\<close> threw, which nothing frees; every
  other task has called its callback, once, and had read what its call asked for; no callback was called
  for any other reason.
\<close>

theorem connect_packs_freed_once:
  assumes "connecting_reach md c"
  shows "\<not> cn_fault c
    \<and> dom (cn_packs c) = cn_lost c \<union> {k \<in> cn_mine c. under_way (cn_core c) k}
    \<and> distinct (map fst (cn_done c)) \<and> fst ` set (cn_done c) = {k \<in> cn_mine c. \<not> under_way (cn_core c) k}
    \<and> (\<forall>(k, m) \<in> set (cn_done c). cn_asked c k = Some m)
    \<and> length (n_cb (cn_net c)) = length (cn_done c)"
  using connecting_reach_inv [OF assms] by (simp add: connecting_inv_def)

text \<open>A call whose \<open>submit\<close> succeeds, one whose \<open>submit\<close> throws.\<close>

definition demo_connecting :: "bool \<Rightarrow> connecting" where
  "demo_connecting queued =
    snd (connect_thread True queued (\<lambda>_. Loop) {} 2 1 0 [2, 0, 43, 203] 1000 (connecting_new 3 4 8 listening))"

lemma demo_connecting_reach: "connecting_reach (\<lambda>_. Loop) (demo_connecting queued)"
proof -
  have "wakes True {} (cn_core (connecting_new 3 4 8 listening))"
    by (simp add: wakes_def waiters_def connecting_new_def core_new_def)
  from connecting_step.connect_call [OF this] show ?thesis
    unfolding demo_connecting_def by (rule connecting_reach.step [OF connecting_reach.new]) (rule surjective_pairing)
qed

theorem connect_packs_freed_once_witness:
  "dom (cn_packs (demo_connecting True)) = {0} \<and> cn_lost (demo_connecting True) = {}
    \<and> cn_done (demo_connecting True) = []"
  using connect_packs_freed_once [OF demo_connecting_reach [of True]]
  by (auto simp: demo_connecting_def connect_thread_def connect_task_new_def connecting_new_def under_way_def
      core_new_def submit_impl_def awaken_def Let_def)

text \<open>A pack whose \<open>submit\<close> threw is there for ever.\<close>

lemma lost_pack_stays:
  assumes "connecting_step md c c'" and "k \<in> cn_lost c"
  shows "k \<in> cn_lost c'"
  using assms(1)
  by cases (use assms(2) in \<open>auto simp: connect_thread_def connect_task_new_def run_connect_task_def Let_def
    split: if_splits option.splits\<close>)

lemma submit_failure_leaks:
  "\<exists>c. connecting_reach (\<lambda>_. Loop) c \<and> cn_lost c \<noteq> {} \<and> cn_lost c \<subseteq> dom (cn_packs c) \<and> \<not> under_way (cn_core c) 0"
proof (intro exI [of _ "demo_connecting False"] conjI)
  show "connecting_reach (\<lambda>_. Loop) (demo_connecting False)" by (rule demo_connecting_reach)
qed (simp_all add: demo_connecting_def connect_thread_def connect_task_new_def connecting_new_def under_way_def
    core_new_def Let_def)

end
