(* ===== verification/Proxy_Client.thy ===== *)
theory Proxy_Client
  imports Prelude
begin

text \<open>
  \<^verbatim>\<open>src/proxy_client.cc\<close>: one libmemcached handle per worker thread, each behind a mutex, and
  \<open>set_servers\<close>, which replaces them all while the workers use them.

  First the functions as they run alone, on the heap objects they create and release; then the
  threads that run them, whose steps are what happens between two operations on a mutex.
  libmemcached is a parameter: which calls of \<open>memcached_create\<close> and \<open>memcached_server_push\<close>
  succeed, by their number, and what \<open>memcached_servers_parse\<close> makes of a string.
\<close>

section \<open>State\<close>

record 's memcached_lib =
  lib_create :: "nat \<Rightarrow> bool"
  lib_push :: "nat \<Rightarrow> bool"
  lib_parse :: "byte list \<Rightarrow> 's option"
  lib_memory :: "nat \<Rightarrow> bool"

text \<open>
  \<open>px_list\<close> is \<open>s_thread_list\<close>, \<open>px_tls\<close> the thread's own \<open>exclusive_t\<close>; \<open>px_obj\<close> are the
  \<open>exclusive_t\<close> objects with the handle each guards, \<open>px_mc\<close> the live handles with the servers pushed
  to them, \<open>px_servers\<close> the parsed server lists, \<open>px_calls\<close> counts the calls that may fail.
\<close>

type_synonym obj_id = nat
type_synonym mc_id = nat
type_synonym thread = nat

record 's proxy =
  px_list :: "obj_id list option"
  px_tls :: "thread \<Rightarrow> obj_id option"
  px_obj :: "obj_id \<Rightarrow> mc_id option option"
  px_mc :: "mc_id \<Rightarrow> 's list option"
  px_servers :: "'s list"
  px_fresh :: nat
  px_calls :: nat

text \<open>\<open>Px_null\<close> is a use of a null pointer.\<close>

datatype px_result = Px_done | Px_bad_alloc | Px_invalid | Px_null

section \<open>The functions\<close>

definition memcached_create :: "'s memcached_lib \<Rightarrow> 's proxy \<Rightarrow> mc_id option \<times> 's proxy" where
  "memcached_create lib p =
    (if lib_create lib (px_calls p)
     then (Some (px_fresh p), p\<lparr>px_mc := (px_mc p)(px_fresh p \<mapsto> []), px_fresh := px_fresh p + 1,
        px_calls := px_calls p + 1\<rparr>)
     else (None, p\<lparr>px_calls := px_calls p + 1\<rparr>))"

definition memcached_server_push :: "'s memcached_lib \<Rightarrow> mc_id \<Rightarrow> 's \<Rightarrow> 's proxy \<Rightarrow> bool \<times> 's proxy" where
  "memcached_server_push lib m ss p =
    (if lib_push lib (px_calls p)
     then (True, p\<lparr>px_mc := (px_mc p)(m := map_option (\<lambda>l. l @ [ss]) (px_mc p m)), px_calls := px_calls p + 1\<rparr>)
     else (False, p\<lparr>px_calls := px_calls p + 1\<rparr>))"

definition memcached_free :: "mc_id \<Rightarrow> 's proxy \<Rightarrow> 's proxy" where
  "memcached_free m p = p\<lparr>px_mc := (px_mc p)(m := None)\<rparr>"

definition proxy_init :: "'s proxy \<Rightarrow> 's proxy" where
  "proxy_init p = p\<lparr>px_list := Some []\<rparr>"

text \<open>\<open>thread_init_func\<close>: the result of \<open>memcached_create\<close> is stored as it is, null included.\<close>

definition thread_create :: "'s memcached_lib \<Rightarrow> thread \<Rightarrow> 's proxy \<Rightarrow> (px_result + obj_id) \<times> 's proxy" where
  "thread_create lib t p =
    (case memcached_create lib p of (mc, p1) \<Rightarrow>
       if lib_memory lib (px_calls p1)
       then (Inr (px_fresh p1),
         p1\<lparr>px_obj := (px_obj p1)(px_fresh p1 \<mapsto> mc), px_tls := (px_tls p1)(t \<mapsto> px_fresh p1),
            px_fresh := px_fresh p1 + 1, px_calls := px_calls p1 + 1\<rparr>)
       else (Inl Px_bad_alloc, p1\<lparr>px_calls := px_calls p1 + 1\<rparr>))"

definition thread_push :: "obj_id \<Rightarrow> 's proxy \<Rightarrow> px_result \<times> 's proxy" where
  "thread_push e p = (case px_list p of None \<Rightarrow> (Px_null, p) | Some es \<Rightarrow> (Px_done, p\<lparr>px_list := Some (es @ [e])\<rparr>))"

definition thread_init_func :: "'s memcached_lib \<Rightarrow> thread \<Rightarrow> 's proxy \<Rightarrow> px_result \<times> 's proxy" where
  "thread_init_func lib t p =
    (case thread_create lib t p of (Inl r, p1) \<Rightarrow> (r, p1) | (Inr e, p1) \<Rightarrow> thread_push e p1)"

text \<open>
  \<open>set_servers\<close>: the string is duplicated and parsed; then, for every thread, a new handle with the
  servers, which takes the place of the old one.
\<close>

definition parse_servers :: "'s memcached_lib \<Rightarrow> byte list \<Rightarrow> 's proxy \<Rightarrow> (px_result + 's) \<times> 's proxy" where
  "parse_servers lib str p =
    (if \<not> lib_memory lib (px_calls p) then (Inl Px_bad_alloc, p\<lparr>px_calls := px_calls p + 1\<rparr>)
     else
       case lib_parse lib str of
         None \<Rightarrow> (Inl Px_invalid, p\<lparr>px_calls := px_calls p + 1\<rparr>)
       | Some ss \<Rightarrow> (Inr ss, p\<lparr>px_servers := px_servers p @ [ss], px_calls := px_calls p + 1\<rparr>))"

definition new_client :: "'s memcached_lib \<Rightarrow> 's \<Rightarrow> 's proxy \<Rightarrow> mc_id option \<times> 's proxy" where
  "new_client lib ss p =
    (case memcached_create lib p of
       (None, p1) \<Rightarrow> (None, p1)
     | (Some m, p1) \<Rightarrow> (case memcached_server_push lib m ss p1 of (ok, p2) \<Rightarrow> (if ok then Some m else None, p2)))"

definition install :: "obj_id \<Rightarrow> mc_id \<Rightarrow> 's proxy \<Rightarrow> px_result \<times> 's proxy" where
  "install e m p =
    (case px_obj p e of
       Some (Some old) \<Rightarrow> (Px_done, (memcached_free old p)\<lparr>px_obj := (px_obj p)(e \<mapsto> Some m)\<rparr>)
     | _ \<Rightarrow> (Px_null, p))"

fun replace_clients :: "'s memcached_lib \<Rightarrow> 's \<Rightarrow> obj_id list \<Rightarrow> 's proxy \<Rightarrow> px_result \<times> 's proxy" where
  "replace_clients lib ss [] p = (Px_done, p)"
| "replace_clients lib ss (e # es) p =
    (case new_client lib ss p of
       (None, p1) \<Rightarrow> (Px_bad_alloc, p1)
     | (Some m, p1) \<Rightarrow>
         (case install e m p1 of
            (Px_done, p2) \<Rightarrow> replace_clients lib ss es p2
          | (r, p2) \<Rightarrow> (r, p2)))"

definition set_servers :: "'s memcached_lib \<Rightarrow> byte list \<Rightarrow> 's proxy \<Rightarrow> px_result \<times> 's proxy" where
  "set_servers lib str p =
    (case parse_servers lib str p of
       (Inl r, p1) \<Rightarrow> (r, p1)
     | (Inr ss, p1) \<Rightarrow>
         (case px_list p1 of None \<Rightarrow> (Px_null, p1) | Some es \<Rightarrow> replace_clients lib ss es p1))"

definition get_client :: "thread \<Rightarrow> 's proxy \<Rightarrow> obj_id option" where
  "get_client t p = px_tls p t"

section \<open>Handles are not lost\<close>

text \<open>
  Every object guards a handle of its own, which is live; \<open>extra\<close> are the live handles that no
  object guards.
\<close>

definition px_ok :: "'s proxy \<Rightarrow> mc_id set \<Rightarrow> bool" where
  "px_ok p extra \<longleftrightarrow>
    (\<forall>e m. px_obj p e = Some (Some m) \<longrightarrow> px_mc p m \<noteq> None \<and> m \<notin> extra)
    \<and> (\<forall>e e' m. px_obj p e = Some (Some m) \<longrightarrow> px_obj p e' = Some (Some m) \<longrightarrow> e = e')
    \<and> (\<forall>m \<in> extra. px_mc p m \<noteq> None)
    \<and> (\<forall>m. px_mc p m \<noteq> None \<longrightarrow> m < px_fresh p)
    \<and> (\<forall>e. px_obj p e \<noteq> None \<longrightarrow> e < px_fresh p)
    \<and> (\<forall>t e. px_tls p t = Some e \<longrightarrow> px_obj p e \<noteq> None)
    \<and> (\<forall>es. px_list p = Some es \<longrightarrow> (\<forall>e \<in> set es. px_obj p e \<noteq> None))"

definition guarded :: "'s proxy \<Rightarrow> mc_id set" where
  "guarded p = {m. \<exists>e. px_obj p e = Some (Some m)}"

lemma px_okD:
  assumes "px_ok p X"
  shows "px_obj p e = Some (Some m) \<Longrightarrow> px_mc p m \<noteq> None"
    and "px_obj p e = Some (Some m) \<Longrightarrow> m \<notin> X"
    and "px_obj p e = Some (Some m) \<Longrightarrow> px_obj p e' = Some (Some m) \<Longrightarrow> e = e'"
    and "m \<in> X \<Longrightarrow> px_mc p m \<noteq> None"
    and "px_mc p m \<noteq> None \<Longrightarrow> m < px_fresh p"
    and "px_obj p e \<noteq> None \<Longrightarrow> e < px_fresh p"
    and "px_tls p t = Some e \<Longrightarrow> px_obj p e \<noteq> None"
    and "px_list p = Some es \<Longrightarrow> e \<in> set es \<Longrightarrow> px_obj p e \<noteq> None"
  using assms unfolding px_ok_def by blast+

lemma new_client_ok:
  assumes "px_ok p X" and "new_client lib ss p = (r, p')"
  shows "case r of
      Some m \<Rightarrow> px_ok p' (insert m X) \<and> m \<notin> X \<and> px_mc p' m = Some [ss] \<and> m = px_fresh p
    | None \<Rightarrow> \<exists>Y \<subseteq> {px_fresh p}. px_ok p' (X \<union> Y)"
    and "px_obj p' = px_obj p" and "px_list p' = px_list p" and "px_tls p' = px_tls p"
    and "px_servers p' = px_servers p" and "x < px_fresh p \<Longrightarrow> px_mc p' x = px_mc p x"
    and "px_fresh p \<le> px_fresh p'"
proof -
  have new: "px_mc p (px_fresh p) = None" using px_okD(5) [OF assms(1), of "px_fresh p"] by blast
  have notX: "px_fresh p \<notin> X" using px_okD(4) [OF assms(1)] new by blast
  have ob: "px_obj p e \<noteq> Some (Some (px_fresh p))" for e using px_okD(1) [OF assms(1)] new by metis
  note d = new_client_def memcached_create_def memcached_server_push_def
  show "px_obj p' = px_obj p" "px_list p' = px_list p" "px_tls p' = px_tls p" "px_servers p' = px_servers p"
    "px_fresh p \<le> px_fresh p'" "x < px_fresh p \<Longrightarrow> px_mc p' x = px_mc p x"
    using assms(2) by (auto simp: d split: if_splits)
  show "case r of
      Some m \<Rightarrow> px_ok p' (insert m X) \<and> m \<notin> X \<and> px_mc p' m = Some [ss] \<and> m = px_fresh p
    | None \<Rightarrow> \<exists>Y \<subseteq> {px_fresh p}. px_ok p' (X \<union> Y)"
  proof (cases "lib_create lib (px_calls p)")
    case False
    then have "r = None" "p' = p\<lparr>px_calls := px_calls p + 1\<rparr>" using assms(2) by (auto simp: d)
    moreover have "px_ok (p\<lparr>px_calls := px_calls p + 1\<rparr>) (X \<union> {})" using assms(1) by (simp add: px_ok_def)
    ultimately show ?thesis by (auto intro!: exI [of _ "{}"])
  next
    case True
    have "px_ok (p\<lparr>px_mc := (px_mc p)(px_fresh p \<mapsto> l), px_fresh := px_fresh p + 1, px_calls := n\<rparr>)
        (insert (px_fresh p) X)" for l n
      using assms(1) new notX ob unfolding px_ok_def by (auto simp: less_Suc_eq)
    note ok = this
    show ?thesis
    proof (cases "lib_push lib (px_calls p + 1)")
      case True
      then have "r = Some (px_fresh p)"
        "p' = p\<lparr>px_mc := (px_mc p)(px_fresh p \<mapsto> [ss]), px_fresh := px_fresh p + 1, px_calls := px_calls p + 2\<rparr>"
        using assms(2) \<open>lib_create lib (px_calls p)\<close> by (auto simp: d)
      then show ?thesis using ok notX by simp
    next
      case False
      then have "r = None"
        "p' = p\<lparr>px_mc := (px_mc p)(px_fresh p \<mapsto> []), px_fresh := px_fresh p + 1, px_calls := px_calls p + 2\<rparr>"
        using assms(2) \<open>lib_create lib (px_calls p)\<close> by (auto simp: d)
      with ok [where l = "[]" and n = "px_calls p + 2"] show ?thesis by (auto intro!: exI [of _ "{px_fresh p}"])
    qed
  qed
qed

lemma install_ok:
  assumes "px_ok p (insert m X)" and "m \<notin> X" and "install e m p = (r, p')" and "px_obj p e = Some (Some old)"
  shows "r = Px_done" and "px_ok p' X" and "px_obj p' = (px_obj p)(e \<mapsto> Some m)"
    and "px_mc p' = (px_mc p)(old := None)" and "px_list p' = px_list p" and "px_tls p' = px_tls p"
    and "px_servers p' = px_servers p" and "px_fresh p' = px_fresh p" and "old \<noteq> m"
proof -
  have "old \<noteq> m" using px_okD(2) [OF assms(1,4)] by simp
  then show "old \<noteq> m" .
  have p': "p' = p\<lparr>px_mc := (px_mc p)(old := None), px_obj := (px_obj p)(e \<mapsto> Some m)\<rparr>" "r = Px_done"
    using assms(3,4) by (simp_all add: install_def memcached_free_def)
  then show "r = Px_done" "px_obj p' = (px_obj p)(e \<mapsto> Some m)" "px_mc p' = (px_mc p)(old := None)"
    "px_list p' = px_list p" "px_tls p' = px_tls p" "px_servers p' = px_servers p" "px_fresh p' = px_fresh p"
    by simp_all
  note D = px_okD [OF assms(1)]
  have "old \<notin> insert m X" by (rule D(2) [OF assms(4)])
  moreover have "px_obj p x \<noteq> Some (Some m)" for x using D(2) by blast
  moreover have "px_obj p x = Some (Some old) \<Longrightarrow> x = e" for x using D(3) [OF _ assms(4)] .
  ultimately show "px_ok p' X"
    using assms(1,2,4) D unfolding p'(1) px_ok_def by (auto simp: fun_upd_def split: if_splits)
qed

definition has_client :: "'s proxy \<Rightarrow> obj_id \<Rightarrow> 's list \<Rightarrow> bool" where
  "has_client p e l \<longleftrightarrow> (\<exists>m. px_obj p e = Some (Some m) \<and> px_mc p m = Some l)"

lemma install_keeps:
  assumes "px_ok p (insert m X)" and "m \<notin> X" and "install e m p = (r, p')" and "px_obj p e = Some (Some old)"
    and "x \<noteq> e" and "has_client p x l"
  shows "has_client p' x l"
proof -
  note io = install_ok [OF assms(1-4)]
  from assms(6) obtain y where y: "px_obj p x = Some (Some y)" "px_mc p y = Some l"
    by (auto simp: has_client_def)
  with assms(5) px_okD(3) [OF assms(1) _ assms(4)] have "y \<noteq> old" by blast
  with y assms(5) io(3,4) show ?thesis by (simp add: has_client_def)
qed

lemma replace_clients_ok:
  assumes "px_ok p X" and "distinct es" and "\<forall>e \<in> set es. \<exists>m. px_obj p e = Some (Some m)"
    and "replace_clients lib ss es p = (r, p')"
  shows "\<exists>k Y. k \<le> length es \<and> r = (if k = length es then Px_done else Px_bad_alloc)
    \<and> px_ok p' (X \<union> Y) \<and> (k = length es \<longrightarrow> Y = {})
    \<and> (\<forall>e \<in> set (take k es). has_client p' e [ss])
    \<and> (\<forall>e. e \<notin> set (take k es) \<longrightarrow> px_obj p' e = px_obj p e)
    \<and> (\<forall>e l. e \<notin> set (take k es) \<longrightarrow> has_client p e l \<longrightarrow> has_client p' e l)
    \<and> px_list p' = px_list p \<and> px_tls p' = px_tls p"
  using assms
proof (induction es arbitrary: p)
  case Nil
  then show ?case by (auto intro!: exI [of _ "{}"])
next
  case (Cons e es)
  obtain c p1 where c: "new_client lib ss p = (c, p1)" by (cases "new_client lib ss p")
  note n = new_client_ok [OF Cons.prems(1) c]
  have same: "has_client p1 x l" if "has_client p x l" for x l
    using that n(2,6) px_okD(5) [OF Cons.prems(1)] unfolding has_client_def by (metis option.distinct(1))
  show ?case
  proof (cases c)
    case None
    then obtain Y where Y: "px_ok p1 (X \<union> Y)" using n(1) by auto
    show ?thesis
      using None c Cons.prems(4) Y n(2-4) same
      by (intro exI [of _ 0] exI [of _ Y]) auto
  next
    case (Some m)
    with n(1) have m: "px_ok p1 (insert m X)" "m \<notin> X" "px_mc p1 m = Some [ss]" by auto
    obtain old where old: "px_obj p1 e = Some (Some old)" using Cons.prems(3) n(2) by auto
    obtain r1 p2 where i: "install e m p1 = (r1, p2)" by (cases "install e m p1")
    note io = install_ok [OF m(1,2) i old]
    have run: "replace_clients lib ss es p2 = (r, p')" using Cons.prems(4) c Some i io(1) by simp
    have objs: "\<forall>x \<in> set es. \<exists>m. px_obj p2 x = Some (Some m)" using Cons.prems(2,3) io(3) n(2) by auto
    from Cons.IH [OF io(2) _ objs run] Cons.prems(2) obtain k Y where k:
      "k \<le> length es" "r = (if k = length es then Px_done else Px_bad_alloc)" "px_ok p' (X \<union> Y)"
      "k = length es \<longrightarrow> Y = {}" "\<forall>e \<in> set (take k es). has_client p' e [ss]"
      "\<forall>e. e \<notin> set (take k es) \<longrightarrow> px_obj p' e = px_obj p2 e"
      "\<forall>e l. e \<notin> set (take k es) \<longrightarrow> has_client p2 e l \<longrightarrow> has_client p' e l"
      "px_list p' = px_list p2" "px_tls p' = px_tls p2" by auto
    have e: "e \<notin> set (take k es)" using Cons.prems(2) in_set_takeD by fastforce
    have "has_client p2 e [ss]" using io(3,4,9) m(3) by (auto simp: has_client_def)
    then have new: "has_client p' e [ss]" using k(7) e by blast
    note keep = install_keeps [OF m(1,2) i old]
    show ?thesis
    proof (intro exI [of _ "Suc k"] exI [of _ Y] conjI)
      show "\<forall>x l. x \<notin> set (take (Suc k) (e # es)) \<longrightarrow> has_client p x l \<longrightarrow> has_client p' x l"
        using k(7) keep same by auto
    qed (use k new io(3,5,6) n(2-4) in auto)
  qed
qed

text \<open>
  C28. \<open>set_servers\<close>, when the list parses: the threads get handles with the new servers one
  after the other. On success all have one and the old handles are released. When memory runs out on
  the way, the first \<open>k\<close> threads use the new servers and the others the old ones; every thread
  still has a live handle of its own.
\<close>

theorem set_servers_replaces:
  assumes "px_ok p X" and "px_list p = Some es" and "distinct es"
    and "\<forall>e \<in> set es. \<exists>m. px_obj p e = Some (Some m)"
    and "lib_memory lib (px_calls p)" and "lib_parse lib str = Some ss"
    and "set_servers lib str p = (r, p')"
  shows "\<exists>k Y. k \<le> length es \<and> r = (if k = length es then Px_done else Px_bad_alloc)
    \<and> px_ok p' (X \<union> Y) \<and> (k = length es \<longrightarrow> Y = {})
    \<and> (\<forall>e \<in> set (take k es). has_client p' e [ss])
    \<and> (\<forall>e l. e \<notin> set (take k es) \<longrightarrow> has_client p e l \<longrightarrow> has_client p' e l)"
proof -
  define p1 where "p1 = p\<lparr>px_servers := px_servers p @ [ss], px_calls := px_calls p + 1\<rparr>"
  have same: "px_ok p1 X" "px_list p1 = Some es" "\<forall>e \<in> set es. \<exists>m. px_obj p1 e = Some (Some m)"
    using assms(1,2,4) by (simp_all add: p1_def px_ok_def)
  have "replace_clients lib ss es p1 = (r, p')"
    using assms(2,5-7) by (simp add: set_servers_def parse_servers_def p1_def)
  from replace_clients_ok [OF same(1) assms(3) same(3) this] obtain k Y where k:
    "k \<le> length es" "r = (if k = length es then Px_done else Px_bad_alloc)" "px_ok p' (X \<union> Y)"
    "k = length es \<longrightarrow> Y = {}" "\<forall>e \<in> set (take k es). has_client p' e [ss]"
    "\<forall>e l. e \<notin> set (take k es) \<longrightarrow> has_client p1 e l \<longrightarrow> has_client p' e l" by blast
  have "has_client p1 e l = has_client p e l" for e l by (simp add: has_client_def p1_def)
  with k show ?thesis by (intro exI [of _ k] exI [of _ Y]) simp
qed

definition demo_memcached :: "nat memcached_lib" where
  "demo_memcached = \<lparr>lib_create = (\<lambda>n. n \<noteq> 5), lib_push = (\<lambda>_. True), lib_parse = (\<lambda>s. Some (length s)),
     lib_memory = (\<lambda>_. True)\<rparr>"

definition no_clients :: "nat proxy" where
  "no_clients = \<lparr>px_list = None, px_tls = (\<lambda>_. None), px_obj = (\<lambda>_. None), px_mc = (\<lambda>_. None),
     px_servers = [], px_fresh = 0, px_calls = 0\<rparr>"

definition two_clients :: "nat proxy" where
  "two_clients = \<lparr>px_list = Some [1, 3], px_tls = [0 \<mapsto> 1, 1 \<mapsto> 3], px_obj = [1 \<mapsto> Some 0, 3 \<mapsto> Some 2],
     px_mc = [0 \<mapsto> [], 2 \<mapsto> []], px_servers = [], px_fresh = 4, px_calls = 2\<rparr>"

lemma two_clients_ok: "px_ok two_clients {}"
  by (auto simp: px_ok_def two_clients_def split: if_splits)

theorem set_servers_replaces_witness:
  "\<exists>(k :: nat) Y. k \<le> 2 \<and> px_ok (snd (set_servers demo_memcached (bytes_of ''h:1'') two_clients)) ({} \<union> Y)
    \<and> fst (set_servers demo_memcached (bytes_of ''h:1'') two_clients) = (if k = 2 then Px_done else Px_bad_alloc)"
proof -
  obtain r p' where run: "set_servers demo_memcached (bytes_of ''h:1'') two_clients = (r, p')"
    by (cases "set_servers demo_memcached (bytes_of ''h:1'') two_clients")
  have "px_list two_clients = Some [1, 3]" "\<forall>e \<in> set [1, 3]. \<exists>m. px_obj two_clients e = Some (Some m)"
    "lib_memory demo_memcached (px_calls two_clients)" "lib_parse demo_memcached (bytes_of ''h:1'') = Some 3"
    by (simp_all add: two_clients_def demo_memcached_def)
  from set_servers_replaces [OF two_clients_ok this(1) _ this(2-4) run]
  obtain k :: nat and Y where "k \<le> 2" "r = (if k = 2 then Px_done else Px_bad_alloc)" "px_ok p' ({} \<union> Y)"
    by (auto simp: numeral_2_eq_2)
  with run show ?thesis by (intro exI [of _ k] exI [of _ Y]) simp
qed


section \<open>The threads\<close>

text \<open>
  A worker runs \<open>thread_init_func\<close> and then callbacks that use its own handle under its mutex; a
  thread in \<open>set_servers\<close> holds the mutex of the list during the loop and takes the mutex of each
  object to replace its handle. \<open>C_using e m\<close> is a callback inside libmemcached with handle \<open>m\<close>.
\<close>

datatype 's client_pc =
    C_start
  | C_push obj_id
  | C_idle
  | C_using obj_id mc_id
  | C_waiting 's
  | C_loop "obj_id list" 's
  | C_fresh obj_id "obj_id list" 's mc_id
  | C_swap obj_id "obj_id list" 's mc_id
  | C_null

record 's clients =
  cl_px :: "'s proxy"
  cl_list_lock :: "thread option"
  cl_lock :: "obj_id \<Rightarrow> thread option"
  cl_pc :: "thread \<Rightarrow> 's client_pc"

definition goes :: "thread \<Rightarrow> 's client_pc \<Rightarrow> 's clients \<Rightarrow> 's clients" where
  "goes t pc c = c\<lparr>cl_pc := (cl_pc c)(t := pc)\<rparr>"

inductive client_step :: "'s memcached_lib \<Rightarrow> thread \<Rightarrow> 's clients \<Rightarrow> 's clients \<Rightarrow> bool" for lib t where
  created: "cl_pc c t = C_start \<Longrightarrow> thread_create lib t (cl_px c) = (Inr e, p) \<Longrightarrow>
    client_step lib t c (goes t (C_push e) (c\<lparr>cl_px := p\<rparr>))"
| not_created: "cl_pc c t = C_start \<Longrightarrow> thread_create lib t (cl_px c) = (Inl r, p) \<Longrightarrow>
    client_step lib t c (goes t C_start (c\<lparr>cl_px := p\<rparr>))"
| pushed: "cl_pc c t = C_push e \<Longrightarrow> cl_list_lock c = None \<Longrightarrow> thread_push e (cl_px c) = (r, p) \<Longrightarrow>
    client_step lib t c (goes t (if r = Px_done then C_idle else C_null) (c\<lparr>cl_px := p\<rparr>))"
| use_handle: "cl_pc c t = C_idle \<Longrightarrow> get_client t (cl_px c) = Some e \<Longrightarrow> cl_lock c e = None \<Longrightarrow>
    px_obj (cl_px c) e = Some (Some m) \<Longrightarrow>
    client_step lib t c (goes t (C_using e m) (c\<lparr>cl_lock := (cl_lock c)(e \<mapsto> t)\<rparr>))"
| used: "cl_pc c t = C_using e m \<Longrightarrow>
    client_step lib t c (goes t C_idle (c\<lparr>cl_lock := (cl_lock c)(e := None)\<rparr>))"
| parsed: "cl_pc c t = C_idle \<Longrightarrow> parse_servers lib str (cl_px c) = (Inr ss, p) \<Longrightarrow>
    client_step lib t c (goes t (C_waiting ss) (c\<lparr>cl_px := p\<rparr>))"
| not_parsed: "cl_pc c t = C_idle \<Longrightarrow> parse_servers lib str (cl_px c) = (Inl r, p) \<Longrightarrow>
    client_step lib t c (c\<lparr>cl_px := p\<rparr>)"
| list_locked: "cl_pc c t = C_waiting ss \<Longrightarrow> cl_list_lock c = None \<Longrightarrow> px_list (cl_px c) = Some es \<Longrightarrow>
    client_step lib t c (goes t (C_loop es ss) (c\<lparr>cl_list_lock := Some t\<rparr>))"
| list_null: "cl_pc c t = C_waiting ss \<Longrightarrow> px_list (cl_px c) = None \<Longrightarrow> client_step lib t c (goes t C_null c)"
| loop_end: "cl_pc c t = C_loop [] ss \<Longrightarrow> client_step lib t c (goes t C_idle (c\<lparr>cl_list_lock := None\<rparr>))"
| loop_new: "cl_pc c t = C_loop (e # es) ss \<Longrightarrow> new_client lib ss (cl_px c) = (Some m, p) \<Longrightarrow>
    client_step lib t c (goes t (C_fresh e es ss m) (c\<lparr>cl_px := p\<rparr>))"
| loop_throw: "cl_pc c t = C_loop (e # es) ss \<Longrightarrow> new_client lib ss (cl_px c) = (None, p) \<Longrightarrow>
    client_step lib t c (goes t C_idle (c\<lparr>cl_px := p, cl_list_lock := None\<rparr>))"
| obj_locked: "cl_pc c t = C_fresh e es ss m \<Longrightarrow> cl_lock c e = None \<Longrightarrow>
    client_step lib t c (goes t (C_swap e es ss m) (c\<lparr>cl_lock := (cl_lock c)(e \<mapsto> t)\<rparr>))"
| swapped: "cl_pc c t = C_swap e es ss m \<Longrightarrow> install e m (cl_px c) = (r, p) \<Longrightarrow>
    client_step lib t c
      (goes t (if r = Px_done then C_loop es ss else C_null) (c\<lparr>cl_px := p, cl_lock := (cl_lock c)(e := None)\<rparr>))"

definition clients_new :: "'s proxy \<Rightarrow> thread set \<Rightarrow> 's clients" where
  "clients_new p workers = \<lparr>cl_px = proxy_init p, cl_list_lock = None, cl_lock = (\<lambda>_. None),
     cl_pc = (\<lambda>t. if t \<in> workers then C_start else C_idle)\<rparr>"

inductive client_reach :: "'s memcached_lib \<Rightarrow> 's clients \<Rightarrow> bool" for lib where
  init: "px_ok p {} \<Longrightarrow> (\<forall>t. px_tls p t = None) \<Longrightarrow> client_reach lib (clients_new p workers)"
| step: "client_reach lib c \<Longrightarrow> client_step lib t c c' \<Longrightarrow> client_reach lib c'"

text \<open>What a thread holds, and what its place says of the heap.\<close>

fun in_loop :: "'s client_pc \<Rightarrow> bool" where
  "in_loop (C_loop es ss) = True"
| "in_loop (C_fresh e es ss m) = True"
| "in_loop (C_swap e es ss m) = True"
| "in_loop _ = False"

fun holds_obj :: "'s client_pc \<Rightarrow> obj_id \<Rightarrow> bool" where
  "holds_obj (C_using e m) x = (e = x)"
| "holds_obj (C_swap e es ss m) x = (e = x)"
| "holds_obj _ x = False"

fun own_new :: "'s client_pc \<Rightarrow> mc_id set" where
  "own_new (C_fresh e es ss m) = {m}"
| "own_new (C_swap e es ss m) = {m}"
| "own_new _ = {}"

definition locks_ok :: "'s clients \<Rightarrow> bool" where
  "locks_ok c \<longleftrightarrow>
    (\<forall>t. in_loop (cl_pc c t) \<longrightarrow> cl_list_lock c = Some t)
    \<and> (\<forall>t e. holds_obj (cl_pc c t) e \<longrightarrow> cl_lock c e = Some t)
    \<and> (\<forall>e t. cl_lock c e = Some t \<longrightarrow> holds_obj (cl_pc c t) e \<or> cl_pc c t = C_null)
    \<and> (\<forall>t. cl_list_lock c = Some t \<longrightarrow> in_loop (cl_pc c t) \<or> cl_pc c t = C_null)"

definition clients_ok :: "'s clients \<Rightarrow> bool" where
  "clients_ok c \<longleftrightarrow> locks_ok c
    \<and> (\<forall>t e m. cl_pc c t = C_using e m \<longrightarrow> px_obj (cl_px c) e = Some (Some m))
    \<and> (\<forall>t e. cl_pc c t = C_push e \<longrightarrow> px_obj (cl_px c) e \<noteq> None)
    \<and> (\<exists>X. px_ok (cl_px c) X \<and> (\<forall>t. own_new (cl_pc c t) \<subseteq> X))"

lemma thread_create_ok:
  assumes "px_ok p X" and "thread_create lib t p = (r, p')"
  shows "\<exists>Y. px_ok p' (X \<union> Y)" and "px_list p' = px_list p"
    and "px_obj p x \<noteq> None \<Longrightarrow> px_obj p' x = px_obj p x" and "r = Inr e \<Longrightarrow> px_obj p' e \<noteq> None"
proof -
  have new: "px_mc p (px_fresh p) = None" "px_obj p (px_fresh p) = None" "px_obj p (Suc (px_fresh p)) = None"
    using px_okD(5,6) [OF assms(1), of "px_fresh p"] px_okD(6) [OF assms(1), of "Suc (px_fresh p)"]
    by (metis less_irrefl, metis less_irrefl, metis Suc_n_not_le_n less_or_eq_imp_le)
  have notX: "px_fresh p \<notin> X" using px_okD(4) [OF assms(1)] new by blast
  have ob: "px_obj p e \<noteq> Some (Some (px_fresh p))" for e using px_okD(1) [OF assms(1)] new by metis
  note d = thread_create_def memcached_create_def
  show "px_list p' = px_list p" "px_obj p x \<noteq> None \<Longrightarrow> px_obj p' x = px_obj p x"
    "r = Inr e \<Longrightarrow> px_obj p' e \<noteq> None"
    using assms(2) new by (auto simp: d split: if_splits)
  show "\<exists>Y. px_ok p' (X \<union> Y)"
  proof (cases "lib_create lib (px_calls p)")
    case True
    show ?thesis
    proof (cases "lib_memory lib (px_calls p + 1)")
      case m: True
      have "px_ok p' (X \<union> {})" using assms True m new notX ob unfolding px_ok_def
        by (auto simp: d less_Suc_eq split: if_splits)
      then show ?thesis by blast
    next
      case m: False
      have "px_ok p' (X \<union> {px_fresh p})" using assms True m new notX ob unfolding px_ok_def
        by (auto simp: d less_Suc_eq split: if_splits)
      then show ?thesis by blast
    qed
  next
    case False
    have "px_ok p' (X \<union> {})" using assms False new notX ob unfolding px_ok_def
      by (auto simp: d less_Suc_eq split: if_splits)
    then show ?thesis by blast
  qed
qed

lemma locks_okD:
  assumes "locks_ok c"
  shows "in_loop (cl_pc c t) \<Longrightarrow> cl_list_lock c = Some t"
    and "holds_obj (cl_pc c t) e \<Longrightarrow> cl_lock c e = Some t"
    and "cl_lock c e = Some t \<Longrightarrow> cl_pc c t \<noteq> C_null \<Longrightarrow> holds_obj (cl_pc c t) e"
    and "cl_list_lock c = Some t \<Longrightarrow> cl_pc c t \<noteq> C_null \<Longrightarrow> in_loop (cl_pc c t)"
  using assms unfolding locks_ok_def by blast+

lemma locks_goes:
  assumes "locks_ok c" and "cl_pc c' = cl_pc c" and "in_loop pc \<Longrightarrow> cl_list_lock c' = Some t"
    and "cl_list_lock c' = Some t \<Longrightarrow> in_loop pc \<or> pc = C_null"
    and "\<And>e. holds_obj pc e \<Longrightarrow> cl_lock c' e = Some t"
    and "\<And>e. cl_lock c' e = Some t \<Longrightarrow> holds_obj pc e \<or> pc = C_null"
    and "\<And>u. u \<noteq> t \<Longrightarrow> cl_list_lock c' = Some u \<longleftrightarrow> cl_list_lock c = Some u"
    and "\<And>u e. u \<noteq> t \<Longrightarrow> cl_lock c' e = Some u \<longleftrightarrow> cl_lock c e = Some u"
  shows "locks_ok (goes t pc c')"
  using assms by (auto simp: locks_ok_def goes_def)

lemma locks_step:
  assumes "client_step lib t c c'" and "locks_ok c"
  shows "locks_ok c'"
proof -
  have D: "cl_pc c t \<noteq> C_null \<Longrightarrow> cl_lock c e = Some t \<longleftrightarrow> holds_obj (cl_pc c t) e"
    "cl_pc c t \<noteq> C_null \<Longrightarrow> cl_list_lock c = Some t \<longleftrightarrow> in_loop (cl_pc c t)" for e
    using locks_okD [OF assms(2)] by blast+
  have L: "cl_pc c t = C_swap e es ss m \<Longrightarrow> cl_lock c e = Some u \<longleftrightarrow> u = t"
    "cl_pc c t = C_using e m \<Longrightarrow> cl_lock c e = Some u \<longleftrightarrow> u = t"
    "cl_pc c t = C_loop es ss \<Longrightarrow> cl_list_lock c = Some u \<longleftrightarrow> u = t" for e es ss m u
    using D(1) [of e] D(2) by auto
  show ?thesis
    using assms(1)
  proof cases
    case (not_parsed str r p)
    then show ?thesis using assms(2) by (simp add: locks_ok_def)
  next
    case (swapped e es ss m r p)
    then show ?thesis
      by (auto simp: D L(1) intro!: locks_goes [OF assms(2)] split: if_splits)
  next
    case (used e m)
    then show ?thesis
      by (auto simp: D L(2) intro!: locks_goes [OF assms(2)] split: if_splits)
  qed (auto simp: D L(3) intro!: locks_goes [OF assms(2)] split: if_splits)
qed


text \<open>What a step does to the objects of the other threads.\<close>

lemma step_other:
  assumes "client_step lib t c c'" and "u \<noteq> t"
  shows "cl_pc c' u = cl_pc c u"
  using assms by cases (simp_all add: goes_def)

lemma step_obj:
  assumes "client_step lib t c c'" and "locks_ok c" and "px_ok (cl_px c) X"
    and "holds_obj (cl_pc c u) e" and "u \<noteq> t" and "px_obj (cl_px c) e = Some v"
  shows "px_obj (cl_px c') e = Some v"
  using assms(1)
proof cases
  case (created e' p)
  then show ?thesis using thread_create_ok(3) [OF assms(3), of lib t _ p] assms(6) by (auto simp: goes_def)
next
  case (not_created r p)
  then show ?thesis using thread_create_ok(3) [OF assms(3), of lib t _ p] assms(6) by (auto simp: goes_def)
next
  case (swapped e' es ss m r p)
  have "cl_lock c e' = Some t" "cl_lock c e = Some u"
    using locks_okD(2) [OF assms(2), of t e'] locks_okD(2) [OF assms(2,4)] swapped by auto
  then have "e \<noteq> e'" using assms(5) by auto
  then show ?thesis using swapped assms(6)
    by (auto simp: goes_def install_def memcached_free_def split: option.splits)
qed (use assms(6) in \<open>auto simp: goes_def thread_push_def parse_servers_def new_client_def memcached_create_def
    memcached_server_push_def split: option.splits if_splits\<close>)


lemma step_obj_stays:
  assumes "client_step lib t c c'" and "px_ok (cl_px c) X" and "px_obj (cl_px c) e \<noteq> None"
  shows "px_obj (cl_px c') e \<noteq> None"
  using assms(1)
proof cases
  case (created e' p)
  then show ?thesis using thread_create_ok(3) [OF assms(2), of lib t _ p] assms(3) by (auto simp: goes_def)
next
  case (not_created r p)
  then show ?thesis using thread_create_ok(3) [OF assms(2), of lib t _ p] assms(3) by (auto simp: goes_def)
qed (use assms(3) in \<open>auto simp: goes_def thread_push_def parse_servers_def new_client_def memcached_create_def
    memcached_server_push_def install_def memcached_free_def split: option.splits if_splits\<close>)

lemma parse_servers_ok: "px_ok p X \<Longrightarrow> parse_servers lib str p = (r, p') \<Longrightarrow> px_ok p' X"
  by (auto simp: parse_servers_def px_ok_def split: if_splits option.splits)

lemma thread_push_ok: "px_ok p X \<Longrightarrow> px_obj p e \<noteq> None \<Longrightarrow> thread_push e p = (r, p') \<Longrightarrow> px_ok p' X"
  by (auto simp: thread_push_def px_ok_def split: option.splits)

lemma own_new_in_loop: "own_new pc \<noteq> {} \<Longrightarrow> in_loop pc"
  by (cases pc) simp_all

text \<open>A step whose thread may make new handles \<open>Y\<close>; the others keep what they own.\<close>

lemma px_joined:
  assumes "client_step lib t c c'" and "\<forall>u. own_new (cl_pc c u) \<subseteq> X"
    and "px_ok (cl_px c') (X \<union> Y)" and "own_new (cl_pc c' t) \<subseteq> X \<union> Y"
  shows "\<exists>X'. px_ok (cl_px c') X' \<and> (\<forall>u. own_new (cl_pc c' u) \<subseteq> X')"
proof -
  have "own_new (cl_pc c' u) \<subseteq> X \<union> Y" for u
    using assms(2,4) step_other [OF assms(1), of u] by (cases "u = t") auto
  with assms(3) show ?thesis by blast
qed

text \<open>In the loop of \<open>set_servers\<close> no other thread owns a new handle.\<close>

lemma loop_owns_alone:
  assumes "client_step lib t c c'" and "locks_ok c" and "u \<noteq> t" and "in_loop (cl_pc c t)"
  shows "own_new (cl_pc c' u) = {}"
  using locks_okD(1) [OF assms(2), of t] locks_okD(1) [OF assms(2), of u] own_new_in_loop [of "cl_pc c u"] assms(3,4)
    step_other [OF assms(1,3)] by auto

lemma swapped_px:
  assumes step: "client_step lib t c c'" and "locks_ok c" and px: "px_ok (cl_px c) X"
    and own: "\<forall>u. own_new (cl_pc c u) \<subseteq> X"
    and pc: "cl_pc c t = C_swap e es ss m" and r: "install e m (cl_px c) = (r, p)"
    and c': "cl_px c' = p" "own_new (cl_pc c' t) = {}"
  shows "\<exists>X'. px_ok (cl_px c') X' \<and> (\<forall>u. own_new (cl_pc c' u) \<subseteq> X')"
proof (cases "\<exists>old. px_obj (cl_px c) e = Some (Some old)")
  case True
  then obtain old where old: "px_obj (cl_px c) e = Some (Some old)" ..
  have "m \<in> X" using own pc by (metis own_new.simps(2) singletonI subsetD)
  then have "insert m (X - {m}) = X" by blast
  then have "px_ok p (X - {m})"
    using install_ok(2) [of "cl_px c" m "X - {m}" e r p old] px r old by simp
  moreover have "own_new (cl_pc c' u) \<subseteq> X - {m}" for u
    using loop_owns_alone [OF step assms(2), of u] pc c'(2) by (cases "u = t") simp_all
  ultimately show ?thesis using c'(1) by blast
next
  case False
  then have "p = cl_px c" using r by (auto simp: install_def split: option.splits)
  with px c' show ?thesis by (intro px_joined [OF step own, of "{}"]) simp_all
qed

lemma step_px:
  assumes "client_step lib t c c'" and "locks_ok c" and "px_ok (cl_px c) X" and "\<forall>u. own_new (cl_pc c u) \<subseteq> X"
    and "\<forall>e. cl_pc c t = C_push e \<longrightarrow> px_obj (cl_px c) e \<noteq> None"
  shows "\<exists>X'. px_ok (cl_px c') X' \<and> (\<forall>u. own_new (cl_pc c' u) \<subseteq> X')"
proof -
  note join = px_joined [OF assms(1,4)]
  show ?thesis
    using assms(1)
  proof cases
    case (created e p)
    from thread_create_ok(1) [OF assms(3) created(3)] obtain Y where "px_ok p (X \<union> Y)" by blast
    then show ?thesis using created by (intro join [of Y]) (simp_all add: goes_def)
  next
    case (not_created r p)
    from thread_create_ok(1) [OF assms(3) not_created(3)] obtain Y where "px_ok p (X \<union> Y)" by blast
    then show ?thesis using not_created by (intro join [of Y]) (simp_all add: goes_def)
  next
    case (pushed e r p)
    then have "px_ok p X" using thread_push_ok [OF assms(3)] assms(5) by blast
    then show ?thesis using pushed by (intro join [of "{}"]) (simp_all add: goes_def)
  next
    case (parsed str ss p)
    then show ?thesis using parse_servers_ok [OF assms(3)] by (intro join [of "{}"]) (auto simp: goes_def)
  next
    case (not_parsed str r p)
    then show ?thesis using parse_servers_ok [OF assms(3)] by (intro join [of "{}"]) auto
  next
    case (loop_new e es ss m p)
    have "px_ok p (insert m X)" using new_client_ok(1) [OF assms(3) loop_new(3)] by auto
    then have "px_ok p (X \<union> {m})" by simp
    then show ?thesis using loop_new by (intro join [of "{m}"]) (simp_all add: goes_def)
  next
    case (loop_throw e es ss p)
    from new_client_ok(1) [OF assms(3) loop_throw(3)] obtain Y where "px_ok p (X \<union> Y)" by auto
    then show ?thesis using loop_throw by (intro join [of Y]) (simp_all add: goes_def)
  next
    case (swapped e es ss m r p)
    then show ?thesis by (intro swapped_px [OF assms(1-4)]) (auto simp: goes_def)
  next
    case (obj_locked e es ss m)
    have "m \<in> X" using assms(4) obj_locked(2) by (metis own_new.simps(1) singletonI subsetD)
    then show ?thesis using obj_locked assms(3) by (intro join [of "{}"]) (simp_all add: goes_def)
  qed (use assms(3,4) in \<open>auto intro!: join [of "{}"] simp: goes_def\<close>)
qed

lemma clients_step:
  assumes "client_step lib t c c'" and "clients_ok c"
  shows "clients_ok c'"
proof -
  from assms(2) obtain X where inv: "locks_ok c" "px_ok (cl_px c) X" "\<forall>u. own_new (cl_pc c u) \<subseteq> X"
    "\<And>u e m. cl_pc c u = C_using e m \<Longrightarrow> px_obj (cl_px c) e = Some (Some m)"
    "\<And>u e. cl_pc c u = C_push e \<Longrightarrow> px_obj (cl_px c) e \<noteq> None"
    by (auto simp: clients_ok_def)
  have "px_obj (cl_px c') e = Some (Some m)" if "cl_pc c' u = C_using e m" for u e m
  proof (cases "u = t")
    case True
    from assms(1) that True show ?thesis by cases (auto simp: goes_def inv(4) split: if_splits)
  next
    case False
    then have "cl_pc c u = C_using e m" using step_other [OF assms(1)] that by simp
    with step_obj [OF assms(1) inv(1,2) _ False, of e "Some m"] inv(4) show ?thesis by simp
  qed
  moreover have "px_obj (cl_px c') e \<noteq> None" if "cl_pc c' u = C_push e" for u e
  proof (cases "u = t")
    case True
    from assms(1) that True show ?thesis
      by cases (auto simp: goes_def inv(5) dest: thread_create_ok(4) [OF inv(2)] split: if_splits)
  next
    case False
    then have "px_obj (cl_px c) e \<noteq> None" using step_other [OF assms(1)] that inv(5) by simp
    then show ?thesis by (rule step_obj_stays [OF assms(1) inv(2)])
  qed
  ultimately show ?thesis
    using locks_step [OF assms(1) inv(1)] step_px [OF assms(1) inv(1-3)] inv(5) by (simp add: clients_ok_def)
qed

lemma client_reach_ok: "client_reach lib c \<Longrightarrow> clients_ok c"
proof (induction rule: client_reach.induct)
  case (init p workers)
  then show ?case
    by (auto simp: clients_ok_def clients_new_def locks_ok_def proxy_init_def px_ok_def intro!: exI [of _ "{}"])
next
  case (step c t c')
  show ?case by (rule clients_step [OF step.hyps(2) step.IH])
qed

text \<open>
  C14. However the threads interleave with \<open>set_servers\<close>, a handle in use is live, it is the one of
  the thread that uses it, and no other thread uses it or is about to release it.
\<close>

theorem client_handle_not_shared:
  assumes "client_reach lib c" and "cl_pc c t = C_using e m"
  shows "px_mc (cl_px c) m \<noteq> None \<and> px_obj (cl_px c) e = Some (Some m)
    \<and> (\<forall>u. u \<noteq> t \<longrightarrow> (\<forall>e'. cl_pc c u \<noteq> C_using e' m)
        \<and> (\<forall>es ss m'. cl_pc c u \<noteq> C_swap e es ss m') \<and> m \<notin> own_new (cl_pc c u))"
proof -
  from client_reach_ok [OF assms(1)] obtain X where inv: "locks_ok c" "px_ok (cl_px c) X"
    "\<And>u. own_new (cl_pc c u) \<subseteq> X"
    "\<And>u e m. cl_pc c u = C_using e m \<Longrightarrow> px_obj (cl_px c) e = Some (Some m)"
    by (auto simp: clients_ok_def)
  note obj = inv(4) [OF assms(2)]
  have lock: "cl_lock c e = Some t" using locks_okD(2) [OF inv(1), of t e] assms(2) by simp
  have "cl_pc c u \<noteq> C_using e' m" if "u \<noteq> t" for u e'
  proof
    assume use: "cl_pc c u = C_using e' m"
    have "e' = e" by (rule px_okD(3) [OF inv(2) inv(4) [OF use] obj])
    moreover have "cl_lock c e' = Some u" using locks_okD(2) [OF inv(1), of u e'] use by simp
    ultimately show False using lock that by simp
  qed
  moreover have "cl_pc c u \<noteq> C_swap e es ss m'" if "u \<noteq> t" for u es ss m'
    using locks_okD(2) [OF inv(1), of u e] lock that by auto
  moreover have "m \<notin> own_new (cl_pc c u)" for u
    using inv(3) [of u] px_okD(2) [OF inv(2) obj] by blast
  ultimately show ?thesis using obj px_okD(1) [OF inv(2) obj] by blast
qed


text \<open>A worker that has started and uses its handle.\<close>

definition demo_idle :: "nat clients" where
  "demo_idle = \<lparr>cl_px = \<lparr>px_list = Some [1], px_tls = [0 \<mapsto> 1], px_obj = [1 \<mapsto> Some 0], px_mc = [0 \<mapsto> []],
     px_servers = [], px_fresh = 2, px_calls = 2\<rparr>, cl_list_lock = None, cl_lock = (\<lambda>_. None),
     cl_pc = (\<lambda>_. C_idle)\<rparr>"

definition demo_using :: "nat clients" where
  "demo_using = goes 0 (C_using 1 0) (demo_idle\<lparr>cl_lock := [1 \<mapsto> 0]\<rparr>)"

definition demo_parsed :: "nat clients" where
  "demo_parsed = goes 5 (C_waiting 3) (demo_idle\<lparr>cl_px := (cl_px demo_idle)\<lparr>px_servers := [3], px_calls := 3\<rparr>\<rparr>)"

definition demo_loop :: "nat clients" where
  "demo_loop = goes 5 (C_loop [1] 3) (demo_parsed\<lparr>cl_list_lock := Some 5\<rparr>)"

lemma demo_idle_reach: "client_reach demo_memcached demo_idle"
proof -
  let ?p = "\<lparr>px_list = Some [], px_tls = [0 \<mapsto> 1], px_obj = [1 \<mapsto> Some 0], px_mc = [0 \<mapsto> []],
     px_servers = [], px_fresh = 2, px_calls = 2\<rparr> :: nat proxy"
  let ?c0 = "clients_new no_clients {0}"
  let ?c1 = "goes 0 (C_push 1) (?c0\<lparr>cl_px := ?p\<rparr>)"
  let ?c2 = "goes 0 C_idle (?c1\<lparr>cl_px := ?p\<lparr>px_list := Some [1]\<rparr>\<rparr>)"
  have "client_reach demo_memcached ?c0"
    by (rule client_reach.init) (simp_all add: px_ok_def no_clients_def)
  moreover have "client_step demo_memcached 0 ?c0 ?c1"
    by (rule client_step.created) (simp_all add: clients_new_def proxy_init_def no_clients_def
        thread_create_def memcached_create_def demo_memcached_def)
  moreover have "client_step demo_memcached 0 ?c1 ?c2"
    using client_step.pushed [of ?c1 0 1 Px_done "?p\<lparr>px_list := Some [1]\<rparr>" demo_memcached]
    by (simp add: goes_def clients_new_def thread_push_def)
  ultimately have "client_reach demo_memcached ?c2" by (meson client_reach.step)
  moreover have "?c2 = demo_idle"
    by (simp add: goes_def clients_new_def demo_idle_def fun_eq_iff)
  ultimately show ?thesis by simp
qed

lemma demo_using_reach: "client_reach demo_memcached demo_using"
proof (rule client_reach.step [OF demo_idle_reach])
  show "client_step demo_memcached 0 demo_idle demo_using"
    using client_step.use_handle [of demo_idle 0 1 0 demo_memcached]
    by (simp add: demo_using_def demo_idle_def get_client_def)
qed

lemma demo_loop_reach: "client_reach demo_memcached demo_loop"
proof -
  have "client_step demo_memcached 5 demo_idle demo_parsed"
    unfolding demo_parsed_def
    by (rule client_step.parsed [where str = "bytes_of ''h:1''"])
      (simp_all add: demo_idle_def parse_servers_def demo_memcached_def)
  moreover have "client_step demo_memcached 5 demo_parsed demo_loop"
    unfolding demo_loop_def
    by (rule client_step.list_locked) (simp_all add: demo_parsed_def goes_def demo_idle_def)
  ultimately show ?thesis using demo_idle_reach by (meson client_reach.step)
qed

theorem client_handle_not_shared_witness:
  "px_mc (cl_px demo_using) 0 \<noteq> None \<and> px_obj (cl_px demo_using) 1 = Some (Some 0)"
  using client_handle_not_shared [OF demo_using_reach, of 0 1 0] by (simp add: demo_using_def goes_def)

text \<open>
  C29. \<open>set_servers\<close> cannot deadlock with the workers: while a thread holds the mutex of the
  list, that thread can go on, or the worker that holds the mutex it waits for can; and such a
  worker waits for nobody.
\<close>

theorem set_servers_not_stuck:
  assumes "client_reach lib c" and "cl_list_lock c = Some t" and "\<forall>u. cl_pc c u \<noteq> C_null"
  shows "(\<exists>c'. client_step lib t c c')
    \<or> (\<exists>e es ss m u m'. cl_pc c t = C_fresh e es ss m \<and> cl_lock c e = Some u \<and> cl_pc c u = C_using e m'
        \<and> client_step lib u c (goes u C_idle (c\<lparr>cl_lock := (cl_lock c)(e := None)\<rparr>)))"
proof -
  have inv: "locks_ok c" using client_reach_ok [OF assms(1)] by (simp add: clients_ok_def)
  have "in_loop (cl_pc c t)" using locks_okD(4) [OF inv assms(2)] assms(3) by blast
  then show ?thesis
  proof (cases "cl_pc c t")
    case (C_loop es ss)
    show ?thesis
    proof (cases es)
      case Nil
      then have "cl_pc c t = C_loop [] ss" using C_loop by simp
      from client_step.loop_end [OF this] show ?thesis by blast
    next
      case (Cons e es')
      obtain r p where "new_client lib ss (cl_px c) = (r, p)" by (cases "new_client lib ss (cl_px c)")
      then show ?thesis
        using C_loop Cons client_step.loop_new [of c t e es' ss lib _ p] client_step.loop_throw [of c t e es' ss lib p]
        by (cases r) auto
    qed
  next
    case (C_fresh e es ss m)
    show ?thesis
    proof (cases "cl_lock c e")
      case None
      then show ?thesis using client_step.obj_locked [OF C_fresh] by blast
    next
      case (Some u)
      then have h: "holds_obj (cl_pc c u) e" using locks_okD(3) [OF inv] assms(3) by blast
      have "\<not> in_loop (cl_pc c u) \<or> u = t" using locks_okD(1) [OF inv, of u] assms(2) by auto
      with h C_fresh obtain m' where "cl_pc c u = C_using e m'"
        by (cases "cl_pc c u") auto
      with client_step.used [OF this] Some C_fresh show ?thesis by blast
    qed
  next
    case (C_swap e es ss m)
    obtain r p where "install e m (cl_px c) = (r, p)" by (cases "install e m (cl_px c)")
    with client_step.swapped [OF C_swap] show ?thesis by blast
  qed simp_all
qed

theorem set_servers_not_stuck_witness:
  "\<exists>c'. client_step demo_memcached 5 demo_loop c'"
  using set_servers_not_stuck [OF demo_loop_reach, of 5]
  by (simp add: demo_loop_def demo_parsed_def goes_def demo_idle_def)

section \<open>\<open>destroy\<close>\<close>

text \<open>
  What \<open>destroy\<close> does, in its order: \<open>delete *it\<close> comes before the destructor of \<open>r\<close>, which unlocks
  a mutex of the deleted object, and \<open>delete s_thread_list\<close> before the one of \<open>ls\<close>.
\<close>

datatype px_event =
    Lock_list | Unlock_list | Delete_list | Lock_obj obj_id | Unlock_obj obj_id | Delete_obj obj_id
  | Free_mc "mc_id option"

fun destroy_loop :: "obj_id list \<Rightarrow> 's proxy \<Rightarrow> px_event list" where
  "destroy_loop [] p = []"
| "destroy_loop (e # es) p =
    [Lock_obj e, Free_mc (the (px_obj p e)), Delete_obj e, Unlock_obj e] @ destroy_loop es p"

definition proxy_destroy :: "'s proxy \<Rightarrow> px_event list" where
  "proxy_destroy p = (case px_list p of
     None \<Rightarrow> []
   | Some es \<Rightarrow> [Lock_list] @ destroy_loop es p @ [Delete_list, Unlock_list])"

lemma destroy_unlocks_deleted:
  assumes "px_list p = Some es" and "e \<in> set es"
  shows "\<exists>xs ys. proxy_destroy p = xs @ [Delete_obj e, Unlock_obj e] @ ys"
    and "\<exists>xs. proxy_destroy p = xs @ [Delete_list, Unlock_list]"
proof -
  have "\<exists>xs ys. destroy_loop es p = xs @ [Delete_obj e, Unlock_obj e] @ ys" using assms(2)
  proof (induction es)
    case (Cons x es)
    show ?case
    proof (cases "x = e")
      case True
      then show ?thesis
        by (intro exI [of _ "[Lock_obj e, Free_mc (the (px_obj p e))]"] exI [of _ "destroy_loop es p"]) simp
    next
      case False
      with Cons obtain xs ys where "destroy_loop es p = xs @ [Delete_obj e, Unlock_obj e] @ ys" by auto
      then show ?thesis
        by (intro exI [of _ "[Lock_obj x, Free_mc (the (px_obj p x)), Delete_obj x, Unlock_obj x] @ xs"] exI [of _ ys]) simp
    qed
  qed simp
  then obtain xs ys where "destroy_loop es p = xs @ [Delete_obj e, Unlock_obj e] @ ys" by blast
  with assms(1) show "\<exists>xs ys. proxy_destroy p = xs @ [Delete_obj e, Unlock_obj e] @ ys"
    by (intro exI [of _ "Lock_list # xs"] exI [of _ "ys @ [Delete_list, Unlock_list]"]) (simp add: proxy_destroy_def)
  from assms(1) show "\<exists>xs. proxy_destroy p = xs @ [Delete_list, Unlock_list]"
    by (auto simp: proxy_destroy_def)
qed

end
