(* ===== verification/Startup.thy ===== *)
theory Startup
  imports Proxy_Client Wavy_Net
begin

text \<open>
  How the program comes up: the options of \<^verbatim>\<open>src/main.cc\<close>, the start of the worker threads
  (\<open>thread_init\<close> and \<open>coreimpl::add_thread\<close> of \<^verbatim>\<open>src/mpsrc/wavy_base.cc\<close>), \<open>service::init\<close> and
  \<open>service::daemonize\<close> of \<^verbatim>\<open>src/wavy_core.cc\<close>, and \<open>main\<close>, which calls them with the operations of
  \<open>Wavy_Net\<close> and \<open>Proxy_Client\<close>.
\<close>

section \<open>Options\<close>

text \<open>
  What \<open>getopt\<close> returns one after the other, with \<open>optarg\<close>. \<open>atoi\<close> is the one of the C library, for
  numbers that fit: white space, a sign, digits.
\<close>

datatype opt = Opt_t string | Opt_c string | Opt_o string | Opt_d string | Opt_v | Opt_h | Opt_other

record options =
  s_text_port :: "16 word"
  s_ctl_port :: "16 word"
  s_init_servers :: "string option"
  s_pidfile :: "string option"
  s_logfile :: "string option"
  s_trace :: bool

definition is_space :: "char \<Rightarrow> bool" where
  "is_space c \<longleftrightarrow> c = CHR '' '' \<or> (9 \<le> (of_char c :: nat) \<and> (of_char c :: nat) \<le> 13)"

definition digit_of :: "char \<Rightarrow> nat option" where
  "digit_of c = (let n = of_char c in if 48 \<le> n \<and> n \<le> 57 then Some (n - 48) else None)"

fun digits :: "nat \<Rightarrow> string \<Rightarrow> nat" where
  "digits acc [] = acc"
| "digits acc (c # cs) = (case digit_of c of None \<Rightarrow> acc | Some d \<Rightarrow> digits (10 * acc + d) cs)"

definition atoi :: "string \<Rightarrow> int" where
  "atoi s =
    (case dropWhile is_space s of
       [] \<Rightarrow> 0
     | c # cs \<Rightarrow>
         if c = CHR ''-'' then - int (digits 0 cs)
         else if c = CHR ''+'' then int (digits 0 cs)
         else int (digits 0 (c # cs)))"

text \<open>\<open>Inl\<close> is \<open>usage\<close>, which exits, with its message.\<close>

definition default_options :: options where
  "default_options = \<lparr>s_text_port = 11211, s_ctl_port = 11001, s_init_servers = None, s_pidfile = None,
     s_logfile = None, s_trace = False\<rparr>"

fun parse_opts :: "opt list \<Rightarrow> options \<Rightarrow> string option + options" where
  "parse_opts [] st = Inr st"
| "parse_opts (Opt_t a # rest) st =
    (let port = word_of_int (atoi a) in
     if port = 0 then Inl (Some ''-t: invalid port number'') else parse_opts rest (st\<lparr>s_text_port := port\<rparr>))"
| "parse_opts (Opt_c a # rest) st =
    (let port = word_of_int (atoi a) in
     if port = 0 then Inl (Some ''-c: invalid port number'') else parse_opts rest (st\<lparr>s_ctl_port := port\<rparr>))"
| "parse_opts (Opt_o a # rest) st = parse_opts rest (st\<lparr>s_logfile := Some a\<rparr>)"
| "parse_opts (Opt_d a # rest) st = parse_opts rest (st\<lparr>s_pidfile := Some a\<rparr>)"
| "parse_opts (Opt_v # rest) st = parse_opts rest (st\<lparr>s_trace := True\<rparr>)"
| "parse_opts (Opt_h # rest) st = Inl None"
| "parse_opts (Opt_other # rest) st = Inl None"

definition parse_argv :: "opt list \<Rightarrow> string list \<Rightarrow> string option + options" where
  "parse_argv opts rest =
    (case parse_opts opts default_options of
       Inl m \<Rightarrow> Inl m
     | Inr st \<Rightarrow>
         (case rest of
            [] \<Rightarrow> Inr st
          | [a] \<Rightarrow> Inr (st\<lparr>s_init_servers := Some a\<rparr>)
          | _ \<Rightarrow> Inl None))"

text \<open>Where the log goes.\<close>

datatype log_target = Log_stdout | Log_file string | Log_tty

definition log_choice :: "options \<Rightarrow> log_target" where
  "log_choice st =
    (case s_logfile st of
       Some f \<Rightarrow> if f = ''-'' then Log_stdout else Log_file f
     | None \<Rightarrow> if s_pidfile st \<noteq> None then Log_stdout else Log_tty)"

text \<open>The argument of the last \<open>-t\<close>.\<close>

fun last_t :: "opt list \<Rightarrow> 16 word \<Rightarrow> 16 word" where
  "last_t [] p = p"
| "last_t (Opt_t a # rest) p = last_t rest (word_of_int (atoi a))"
| "last_t (_ # rest) p = last_t rest p"

lemma parse_opts_text_port:
  "parse_opts opts st = Inr st' \<Longrightarrow> s_text_port st' = last_t opts (s_text_port st)
    \<and> (\<forall>a. Opt_t a \<in> set opts \<longrightarrow> \<not> 2 ^ 16 dvd atoi a)"
proof (induction opts st rule: parse_opts.induct)
  case (2 a rest st)
  have "(word_of_int (atoi a) :: 16 word) = 0 \<longleftrightarrow> 2 ^ 16 dvd atoi a"
    by (simp add: word_of_int_eq_0_iff)
  with 2 show ?case by (auto simp: Let_def split: if_splits)
qed (auto simp: Let_def split: if_splits)

text \<open>
  The text port is the number of the last \<open>-t\<close> modulo 65536, and 11211 without one; a multiple of
  65536 is rejected, but any other number above 65535 is accepted as another port.
\<close>

theorem parse_argv_text_port:
  assumes "parse_argv opts rest = Inr st"
  shows "s_text_port st = last_t opts 11211 \<and> s_text_port st \<noteq> 0
    \<and> (\<forall>a. Opt_t a \<in> set opts \<longrightarrow> \<not> 2 ^ 16 dvd atoi a)"
proof -
  obtain st0 where st0: "parse_opts opts default_options = Inr st0" "s_text_port st = s_text_port st0"
    using assms by (auto simp: parse_argv_def split: sum.splits list.splits)
  have "p \<noteq> 0 \<Longrightarrow> \<forall>a. Opt_t a \<in> set opts \<longrightarrow> \<not> 2 ^ 16 dvd atoi a \<Longrightarrow> last_t opts p \<noteq> 0" for p
    by (induction opts p rule: last_t.induct) (auto simp: word_of_int_eq_0_iff)
  with parse_opts_text_port [OF st0(1)] st0(2) show ?thesis by (simp add: default_options_def)
qed

lemma atoi_76747: "atoi ''76747'' = 76747"
  by (simp add: atoi_def is_space_def digit_of_def)

theorem parse_argv_text_port_witness:
  "s_text_port default_options = 11211 \<and> last_t [Opt_t ''76747''] 11211 = 11211"
  using parse_argv_text_port [of "[Opt_t ''76747'']" "[]" "default_options"]
  by (simp add: parse_argv_def default_options_def atoi_76747)


section \<open>The worker threads\<close>

text \<open>
  \<open>coreimpl::add_thread\<close> with an initial function: a pack and a thread for each worker, then a wait for
  each pack's \<open>started\<close>, after which the pack is deleted. \<open>sp_alive\<close> are the packs not deleted,
  \<open>sp_lock\<close> says that the worker holds \<open>start_mutex\<close> of its pack. A thread in \<open>T_call\<close> is in the
  initial function, in \<open>T_lock\<close> and \<open>T_set\<close> in \<open>started()\<close>; the flag says that the function threw.
\<close>

datatype main_pc = M_spawn nat | M_wait nat | M_done | M_thrown

datatype thread_pc = T_none | T_call | T_lock bool | T_set bool | T_run | T_dead

record starting =
  sp_main :: main_pc
  sp_pc :: "nat \<Rightarrow> thread_pc"
  sp_alive :: "nat \<Rightarrow> bool"
  sp_started :: "nat \<Rightarrow> bool"
  sp_lock :: "nat \<Rightarrow> bool"

definition starting_new :: starting where
  "starting_new = \<lparr>sp_main = M_spawn 0, sp_pc = (\<lambda>_. T_none), sp_alive = (\<lambda>_. False),
     sp_started = (\<lambda>_. False), sp_lock = (\<lambda>_. False)\<rparr>"

definition thread_at :: "nat \<Rightarrow> thread_pc \<Rightarrow> starting \<Rightarrow> starting" where
  "thread_at i pc s = s\<lparr>sp_pc := (sp_pc s)(i := pc)\<rparr>"

text \<open>\<open>thread_init::set\<close>, \<open>operator()\<close>, \<open>started\<close> and \<open>wait_init\<close>.\<close>

definition init_set :: "nat \<Rightarrow> starting \<Rightarrow> starting" where
  "init_set i s = s\<lparr>sp_alive := (sp_alive s)(i := True), sp_started := (sp_started s)(i := False),
     sp_lock := (sp_lock s)(i := False)\<rparr>"

definition init_started :: "nat \<Rightarrow> bool \<Rightarrow> starting \<Rightarrow> starting" where
  "init_started i threw s =
    thread_at i (if threw then T_dead else T_run)
      (s\<lparr>sp_started := (sp_started s)(i := True), sp_lock := (sp_lock s)(i := False)\<rparr>)"

definition wait_init :: "nat \<Rightarrow> starting \<Rightarrow> starting option" where
  "wait_init i s =
    (if \<not> sp_lock s i \<and> sp_started s i then Some (s\<lparr>sp_alive := (sp_alive s)(i := False)\<rparr>) else None)"

inductive start_step :: "nat \<Rightarrow> starting \<Rightarrow> starting \<Rightarrow> bool" for num where
  spawn: "sp_main s = M_spawn i \<Longrightarrow> i < num \<Longrightarrow>
    start_step num s (thread_at i T_call (init_set i (s\<lparr>sp_main := M_spawn (i + 1)\<rparr>)))"
| spawn_throw: "sp_main s = M_spawn i \<Longrightarrow> i < num \<Longrightarrow>
    start_step num s (s\<lparr>sp_main := M_thrown, sp_alive := (\<lambda>_. False)\<rparr>)"
| spawned: "sp_main s = M_spawn num \<Longrightarrow> start_step num s (s\<lparr>sp_main := M_wait 0\<rparr>)"
| called: "sp_pc s i = T_call \<Longrightarrow> start_step num s (thread_at i (T_lock threw) s)"
| locked: "sp_pc s i = T_lock threw \<Longrightarrow> \<not> sp_lock s i \<Longrightarrow>
    start_step num s (thread_at i (T_set threw) (s\<lparr>sp_lock := (sp_lock s)(i := True)\<rparr>))"
| set: "sp_pc s i = T_set threw \<Longrightarrow> start_step num s (init_started i threw s)"
| waited: "sp_main s = M_wait i \<Longrightarrow> i < num \<Longrightarrow> wait_init i s = Some s' \<Longrightarrow>
    start_step num s (s'\<lparr>sp_main := M_wait (i + 1)\<rparr>)"
| all_waited: "sp_main s = M_wait num \<Longrightarrow> start_step num s (s\<lparr>sp_main := M_done\<rparr>)"

inductive start_reach :: "nat \<Rightarrow> starting \<Rightarrow> bool" for num where
  init: "start_reach num starting_new"
| step: "start_reach num s \<Longrightarrow> start_step num s s' \<Longrightarrow> start_reach num s'"

text \<open>A thread that still reads or writes its pack.\<close>

fun uses_pack :: "thread_pc \<Rightarrow> bool" where
  "uses_pack T_call = True"
| "uses_pack (T_lock b) = True"
| "uses_pack (T_set b) = True"
| "uses_pack _ = False"

fun spawned_to :: "nat \<Rightarrow> main_pc \<Rightarrow> nat" where
  "spawned_to num (M_spawn i) = i"
| "spawned_to num _ = num"

fun waited_to :: "nat \<Rightarrow> main_pc \<Rightarrow> nat" where
  "waited_to num (M_wait i) = i"
| "waited_to num M_done = num"
| "waited_to num _ = 0"

definition start_inv :: "nat \<Rightarrow> starting \<Rightarrow> bool" where
  "start_inv num s \<longleftrightarrow> sp_main s \<noteq> M_thrown \<longrightarrow>
     spawned_to num (sp_main s) \<le> num \<and> waited_to num (sp_main s) \<le> num
     \<and> (\<forall>i. i < spawned_to num (sp_main s) \<longleftrightarrow> sp_pc s i \<noteq> T_none)
     \<and> (\<forall>i. uses_pack (sp_pc s i) \<longrightarrow> sp_alive s i \<and> \<not> sp_started s i)
     \<and> (\<forall>i. sp_lock s i \<longrightarrow> (\<exists>b. sp_pc s i = T_set b))
     \<and> (\<forall>i < waited_to num (sp_main s). \<not> uses_pack (sp_pc s i))"

lemma start_step_inv: "start_step num s s' \<Longrightarrow> start_inv num s \<Longrightarrow> start_inv num s'"
proof (induction rule: start_step.induct)
  case (spawn s i)
  then show ?case by (auto simp: start_inv_def thread_at_def init_set_def less_Suc_eq)
next
  case (called s i threw)
  then show ?case by (auto simp: start_inv_def thread_at_def split: if_splits)
next
  case (locked s i threw)
  then show ?case by (auto simp: start_inv_def thread_at_def split: if_splits)
next
  case (set s i threw)
  then show ?case by (auto simp: start_inv_def thread_at_def init_started_def split: if_splits)
next
  case (waited s i s')
  then have "Suc i \<le> num" by simp
  with waited show ?case by (auto simp: start_inv_def wait_init_def less_Suc_eq simp del: Suc_le_eq split: if_splits)
qed (auto simp: start_inv_def)

lemma start_reach_inv: "start_reach num s \<Longrightarrow> start_inv num s"
proof (induction rule: start_reach.induct)
  case init
  show ?case by (simp add: start_inv_def starting_new_def)
next
  case (step s s')
  show ?case by (rule start_step_inv [OF step.hyps(2) step.IH])
qed



definition one_worker :: starting where
  "one_worker = thread_at 0 T_call (init_set 0 (starting_new\<lparr>sp_main := M_spawn 1\<rparr>))"

lemma one_worker_reach: "start_reach 2 one_worker"
  using start_reach.step [OF start_reach.init, of 2 one_worker] start_step.spawn [of starting_new 0 2]
  by (simp add: one_worker_def starting_new_def)


text \<open>
  When the second thread cannot be created, \<open>add_thread\<close> throws and its packs are deleted under
  the first worker, which is still in its initial function.
\<close>

theorem add_thread_throws_under_workers:
  "\<exists>s. start_reach 2 s \<and> sp_main s = M_thrown \<and> uses_pack (sp_pc s 0) \<and> \<not> sp_alive s 0"
proof -
  let ?s = "one_worker\<lparr>sp_main := M_thrown, sp_alive := (\<lambda>_. False)\<rparr>"
  have "sp_main one_worker = M_spawn 1" by (simp add: one_worker_def thread_at_def init_set_def)
  from start_reach.step [OF one_worker_reach start_step.spawn_throw [OF this]]
  have "start_reach 2 ?s" by simp
  then show ?thesis
    by (intro exI [of _ ?s]) (simp add: one_worker_def thread_at_def init_set_def)
qed


section \<open>\<open>service::init\<close> and \<open>service::daemonize\<close>\<close>

fun signal_events :: "os \<Rightarrow> nat list \<Rightarrow> net \<Rightarrow> bool \<times> net" where
  "signal_events os [] w = (True, w)"
| "signal_events os (signo # rest) w =
    (case signal_event os w of (None, w1) \<Rightarrow> (False, w1) | (Some x, w1) \<Rightarrow> signal_events os rest w1)"

definition service_init :: "os \<Rightarrow> net \<Rightarrow> bool \<times> net" where
  "service_init os w =
    (case ask os Sys_signal w of (e, w1) \<Rightarrow>
       if e \<noteq> 0 then (False, w1) else signal_events os [1, 2, 15] w1)"

text \<open>The callback of the signals: \<open>service::end\<close>; the handler stays.\<close>

definition end_on_signal :: "fd \<Rightarrow> net \<Rightarrow> net" where
  "end_on_signal x w = signal_handler (\<lambda>_. True) 0 x (w\<lparr>n_end := True\<rparr>)"

text \<open>
  \<open>daemonize\<close>, with the results of its system calls; \<open>d_in\<close> and \<open>d_out\<close> are the descriptors of
  the two \<open>open\<close>, whose access modes are \<open>O_RDONLY\<close> and that of \<open>O_APPEND\<close> alone, which is
  \<open>O_RDONLY\<close> too. The state is the table of the open descriptors with their access modes.
\<close>

datatype access = Read_only | Write_only | Read_write
datatype fork_result = Fork_error | Fork_parent | Fork_child

record daemon_os =
  d_fork :: "nat \<Rightarrow> fork_result"
  d_setsid :: bool
  d_fopen :: bool
  d_in :: "fd option"
  d_out :: "fd option"
  d_dup2 :: "nat \<Rightarrow> bool"

datatype daemon_result = Exits nat | Daemon "fd \<Rightarrow> access option"

definition redirect :: "daemon_os \<Rightarrow> (fd \<Rightarrow> access option) \<Rightarrow> daemon_result" where
  "redirect d fds =
    (case d_in d of
       None \<Rightarrow> Exits 1
     | Some r \<Rightarrow>
         (case d_out d of
            None \<Rightarrow> Exits 1
          | Some a \<Rightarrow>
              (let fds1 = fds(r \<mapsto> Read_only, a \<mapsto> Read_only);
                   fds2 = fds1(0 := None, 1 := None, 2 := None)
               in if d_dup2 d 0 \<and> d_dup2 d 1 \<and> d_dup2 d 2
                  then Daemon (fds2(0 := fds2 r, 1 := fds2 a, 2 := fds2 a, r := None, a := None))
                  else Exits 1)))"

definition daemonize :: "daemon_os \<Rightarrow> string option \<Rightarrow> string option \<Rightarrow> (fd \<Rightarrow> access option) \<Rightarrow> daemon_result" where
  "daemonize d pidfile stdio fds =
    (case d_fork d 0 of
       Fork_error \<Rightarrow> Exits 1
     | Fork_parent \<Rightarrow> Exits 0
     | Fork_child \<Rightarrow>
         if \<not> d_setsid d then Exits 1
         else
           (case d_fork d 1 of
              Fork_error \<Rightarrow> Exits 1
            | Fork_parent \<Rightarrow> Exits 0
            | Fork_child \<Rightarrow>
                if pidfile \<noteq> None \<and> \<not> d_fopen d then Exits 1
                else (case stdio of None \<Rightarrow> Daemon fds | Some f \<Rightarrow> redirect d fds)))"

lemma daemon_logs_to_stdout: "s_pidfile st \<noteq> None \<Longrightarrow> s_logfile st = None \<Longrightarrow> log_choice st = Log_stdout"
  by (simp add: log_choice_def)

text \<open>
  After \<open>daemonize\<close> the standard output and error of the daemon are open for reading only: what
  the log, which goes to \<open>cout\<close> with \<open>-d\<close> alone, writes there is lost.
\<close>

theorem daemon_output_not_writable:
  assumes "daemonize d pidfile (Some f) fds = Daemon fds'" and "d_in d = Some r" and "d_out d = Some a"
    and "r \<notin> {0, 1, 2}" and "a \<notin> {0, 1, 2}" and "r \<noteq> a"
  shows "fds' 0 = Some Read_only \<and> fds' 1 = Some Read_only \<and> fds' 2 = Some Read_only \<and> fds' r = None \<and> fds' a = None"
  using assms
  by (auto simp: daemonize_def redirect_def Let_def split: fork_result.splits if_splits)

definition demo_daemon :: daemon_os where
  "demo_daemon = \<lparr>d_fork = (\<lambda>_. Fork_child), d_setsid = True, d_fopen = True, d_in = Some 7, d_out = Some 8,
     d_dup2 = (\<lambda>_. True)\<rparr>"

theorem daemon_output_not_writable_witness:
  "\<exists>fds'. daemonize demo_daemon (Some ''pid'') (Some ''/dev/null'') (\<lambda>_. Some Read_write) = Daemon fds'
    \<and> fds' 1 = Some Read_only"
proof -
  obtain fds' where d: "daemonize demo_daemon (Some ''pid'') (Some ''/dev/null'') (\<lambda>_. Some Read_write) = Daemon fds'"
    by (simp add: daemonize_def redirect_def demo_daemon_def Let_def)
  have "d_in demo_daemon = Some 7" "d_out demo_daemon = Some 8" by (simp_all add: demo_daemon_def)
  from daemon_output_not_writable [OF d this] d show ?thesis by auto
qed

section \<open>\<open>main\<close>\<close>

text \<open>The threads' initial functions, in the order in which they push to the list.\<close>

fun start_workers :: "'s memcached_lib \<Rightarrow> thread list \<Rightarrow> 's proxy \<Rightarrow> 's proxy" where
  "start_workers lib [] p = p"
| "start_workers lib (t # ts) p = start_workers lib ts (snd (thread_init_func lib t p))"

text \<open>
  \<open>Serving\<close>: \<open>main\<close> joins the workers; the log, the sockets of the text and of the control port. \<open>Usage\<close>
  is the exit of \<open>usage\<close> with status 1, \<open>Uncaught\<close> an exception that leaves \<open>main\<close>.
\<close>

datatype 's main_result =
    Usage "string option"
  | Uncaught
  | Daemon_exit nat
  | Serving log_target "fd \<times> 16 word" "fd \<times> 16 word" net "'s proxy"

definition main_prog ::
    "os \<Rightarrow> 's memcached_lib \<Rightarrow> daemon_os \<Rightarrow> bool \<Rightarrow> opt list \<Rightarrow> string list \<Rightarrow> net \<Rightarrow> 's proxy \<Rightarrow> 's main_result" where
  "main_prog os lib d threads_ok opts rest w p =
    (case parse_argv opts rest of
       Inl m \<Rightarrow> Usage m
     | Inr st \<Rightarrow>
         (case service_init os w of (ok, w1) \<Rightarrow>
            if \<not> ok then Uncaught
            else
              (case listen_event os w1 of
                 (None, w2) \<Rightarrow> Uncaught
               | (Some l1, w2) \<Rightarrow>
                   (case listen_event os w2 of
                      (None, w3) \<Rightarrow> Uncaught
                    | (Some l2, w3) \<Rightarrow>
                        (case (case s_pidfile st of
                                 None \<Rightarrow> Daemon (\<lambda>_. Some Read_write)
                               | Some f \<Rightarrow> daemonize d (Some f) (Some ''/dev/null'') (\<lambda>_. Some Read_write)) of
                           Exits n \<Rightarrow> Daemon_exit n
                         | Daemon fds \<Rightarrow>
                             if \<not> threads_ok then Uncaught
                             else
                               (let p1 = start_workers lib [0..<8] (proxy_init p) in
                                case s_init_servers st of
                                  None \<Rightarrow> Serving (log_choice st) (l1, s_text_port st) (l2, s_ctl_port st) w3 p1
                                | Some servers \<Rightarrow>
                                    (case set_servers lib (bytes_of servers) p1 of
                                       (Px_done, p2) \<Rightarrow> Serving (log_choice st) (l1, s_text_port st) (l2, s_ctl_port st) w3 p2
                                     | _ \<Rightarrow> Uncaught)))))))"


text \<open>The workers, when nothing fails: each has an object of its own in the list, with a handle.\<close>

definition lib_works :: "'s memcached_lib \<Rightarrow> bool" where
  "lib_works lib \<longleftrightarrow> (\<forall>n. lib_create lib n \<and> lib_memory lib n)"

definition all_listed :: "'s proxy \<Rightarrow> obj_id list \<Rightarrow> bool" where
  "all_listed p es \<longleftrightarrow> px_ok p {} \<and> px_list p = Some es \<and> distinct es
    \<and> (\<forall>e \<in> set es. \<exists>m. px_obj p e = Some (Some m))"

lemma thread_init_listed:
  assumes "lib_works lib" and "all_listed p es"
  shows "\<exists>e. all_listed (snd (thread_init_func lib t p)) (es @ [e])
    \<and> px_tls (snd (thread_init_func lib t p)) = (px_tls p)(t \<mapsto> e)"
proof -
  obtain r p1 where c: "thread_create lib t p = (r, p1)" by (cases "thread_create lib t p")
  let ?e = "px_fresh p + 1"
  have p1: "r = Inr ?e" "p1 = p\<lparr>px_mc := (px_mc p)(px_fresh p \<mapsto> []), px_obj := (px_obj p)(?e \<mapsto> Some (px_fresh p)),
      px_tls := (px_tls p)(t \<mapsto> ?e), px_fresh := px_fresh p + 2, px_calls := px_calls p + 2\<rparr>"
    using c assms(1) by (auto simp: thread_create_def memcached_create_def lib_works_def)
  have run: "thread_init_func lib t p = (Px_done, p1\<lparr>px_list := Some (es @ [?e])\<rparr>)"
    using c p1 assms(2) by (simp add: thread_init_func_def thread_push_def all_listed_def)
  have ok: "px_ok p {}" using assms(2) by (simp add: all_listed_def)
  have old: "e < px_fresh p" if "px_obj p e \<noteq> None" for e using px_okD(6) [OF ok that] .
  then have new: "?e \<notin> set es" "px_obj p ?e = None" using assms(2) by (fastforce simp: all_listed_def)+
  have mc: "px_obj p e \<noteq> Some (Some (px_fresh p))" for e
    using px_okD(1,5) [OF ok] by (metis less_irrefl)
  have "px_ok (p1\<lparr>px_list := Some (es @ [?e])\<rparr>) {}"
    using assms(2) ok old new mc unfolding px_ok_def all_listed_def p1(2)
    by (auto simp: less_SucI split: if_splits)
  with run new assms(2) show ?thesis by (auto simp: all_listed_def p1(2) intro!: exI [of _ ?e])
qed

lemma start_workers_listed:
  assumes "lib_works lib"
  shows "all_listed p es \<Longrightarrow> \<exists>es'. all_listed (start_workers lib ts p) (es @ es') \<and> length es' = length ts
    \<and> (\<forall>t. t \<notin> set ts \<longrightarrow> px_tls (start_workers lib ts p) t = px_tls p t)
    \<and> (distinct ts \<longrightarrow> (\<forall>t \<in> set ts. \<exists>e \<in> set es'. px_tls (start_workers lib ts p) t = Some e))"
proof (induction ts arbitrary: p es)
  case Nil
  then show ?case by (auto intro!: exI [of _ "[]"])
next
  case (Cons t ts)
  from thread_init_listed [OF assms Cons.prems, of t] obtain e where e:
    "all_listed (snd (thread_init_func lib t p)) (es @ [e])"
    "px_tls (snd (thread_init_func lib t p)) = (px_tls p)(t \<mapsto> e)" by blast
  from Cons.IH [OF e(1)] obtain es' where es':
    "all_listed (start_workers lib (t # ts) p) ((es @ [e]) @ es')" "length es' = length ts"
    "\<forall>u. u \<notin> set ts \<longrightarrow> px_tls (start_workers lib (t # ts) p) u = px_tls (snd (thread_init_func lib t p)) u"
    "distinct ts \<longrightarrow> (\<forall>u \<in> set ts. \<exists>e \<in> set es'. px_tls (start_workers lib (t # ts) p) u = Some e)"
    by auto
  show ?case
    by (rule exI [of _ "e # es'"]) (use es' e(2) in auto)
qed

lemma signal_events_tidy:
  "tidy B w \<Longrightarrow> signal_events os ss w = (ok, w') \<Longrightarrow> \<exists>B'. B \<subseteq> B' \<and> tidy B' w' \<and> (\<forall>x. n_hands w x = Some True \<longrightarrow> n_hands w' x = Some True)"
proof (induction os ss w arbitrary: B rule: signal_events.induct)
  case (2 os signo rest w)
  obtain r w1 where i: "install_shot os Sys_signalfd [Sys_fcntl] [Sys_new, Sys_sigprocmask, Sys_count] w = (r, w1)"
    by (cases "install_shot os Sys_signalfd [Sys_fcntl] [Sys_new, Sys_sigprocmask, Sys_count] w")
  have fresh: "n_next w \<notin> n_open w" "n_hands w (n_next w) = None" using 2(2) by (auto simp: tidy_def)
  note sh = install_shot_result [OF i fresh]
  have nx: "n_next w \<le> n_next w1" "r = Some x \<Longrightarrow> n_next w1 = n_next w + 1" for x
    using install_shot_next [OF i] by auto
  show ?case
  proof (cases r)
    case None
    then have w': "w' = w1" using 2(3) i by (simp add: signal_event_def)
    have "n_open w1 = n_open w" "n_hands w1 = n_hands w" using sh None by simp_all
    with w' 2(2) nx(1) show ?thesis by (intro exI [of _ B]) (auto simp: tidy_def)
  next
    case (Some x)
    then have x: "x = n_next w" "n_open w1 = insert x (n_open w)" "n_hands w1 = (n_hands w)(x \<mapsto> False)" using sh by simp_all
    have t: "tidy (insert x B) w1" using 2(2) x nx(2) [OF Some] by (auto simp: tidy_def)
    have rest: "signal_events os rest w1 = (ok, w')" using 2(3) i Some by (simp add: signal_event_def)
    have eq: "(Some x, w1) = signal_event os w" using i Some by (simp add: signal_event_def)
    from 2(1) [OF eq refl t rest] obtain B' where "insert x B \<subseteq> B'" "tidy B' w'"
      "\<forall>y. n_hands w1 y = Some True \<longrightarrow> n_hands w' y = Some True" by blast
    moreover have "n_hands w1 y = Some True" if "n_hands w y = Some True" for y using that x fresh by auto
    ultimately show ?thesis by blast
  qed
qed auto


lemma set_servers_done:
  assumes "all_listed p es" and "set_servers lib str p = (Px_done, p')"
  shows "\<exists>ss. lib_parse lib str = Some ss \<and> px_ok p' {} \<and> px_tls p' = px_tls p \<and> (\<forall>e \<in> set es. has_client p' e [ss])"
proof -
  have p: "px_ok p {}" "px_list p = Some es" "distinct es" "\<forall>e \<in> set es. \<exists>m. px_obj p e = Some (Some m)"
    using assms(1) by (simp_all add: all_listed_def)
  obtain ss p1 where s: "lib_parse lib str = Some ss" "parse_servers lib str p = (Inr ss, p1)"
    "p1 = p\<lparr>px_servers := px_servers p @ [ss], px_calls := px_calls p + 1\<rparr>"
    using assms(2) by (auto simp: set_servers_def parse_servers_def split: if_splits option.splits)
  have same: "px_ok p1 {}" "px_list p1 = Some es" "\<forall>e \<in> set es. \<exists>m. px_obj p1 e = Some (Some m)"
    using p by (simp_all add: s(3) px_ok_def)
  have run: "replace_clients lib ss es p1 = (Px_done, p')"
    using assms(2) s(2) same(2) by (simp add: set_servers_def)
  from replace_clients_ok [OF same(1) p(3) same(3) run] obtain k Y where k:
    "Px_done = (if k = length es then Px_done else Px_bad_alloc)" "px_ok p' ({} \<union> Y)" "k = length es \<longrightarrow> Y = {}"
    "\<forall>e \<in> set (take k es). has_client p' e [ss]" "px_tls p' = px_tls p1" by blast
  then have "k = length es" by (auto split: if_splits)
  with k s(1,3) show ?thesis by auto
qed



definition working_lib :: "nat memcached_lib" where
  "working_lib = \<lparr>lib_create = (\<lambda>_. True), lib_push = (\<lambda>_. True), lib_parse = (\<lambda>s. Some (length s)),
     lib_memory = (\<lambda>_. True)\<rparr>"

lemma main_prog_serves:
  "\<exists>w'. main_prog (\<lambda>_ _. 0) working_lib demo_daemon True [Opt_t ''80''] [] no_net no_clients
    = Serving Log_tty (3, 80) (4, 11001) w' (start_workers working_lib [0..<8] (proxy_init no_clients))"
proof -
  have argv: "parse_argv [Opt_t ''80''] [] = Inr (default_options\<lparr>s_text_port := 80\<rparr>)"
    by (simp add: parse_argv_def default_options_def atoi_def is_space_def digit_of_def)
  have init: "service_init (\<lambda>_ _. 0) no_net = (True, no_net\<lparr>n_next := 3, n_open := {0, 1, 2},
      n_hands := [0 \<mapsto> False, 1 \<mapsto> False, 2 \<mapsto> False], n_armed := {0, 1, 2}, n_calls := 19\<rparr>)"
    by (simp add: service_init_def signal_event_def install_shot_def open_fd_def new_fd_def ask_def table_set_def
        no_net_def insert_commute)
  have l: "listen_event (\<lambda>_ _. 0) w = (Some (n_next w), snd (listen_event (\<lambda>_ _. 0) w))"
    "n_next (snd (listen_event (\<lambda>_ _. 0) w)) = n_next w + 1" if "n_hands w (n_next w) = None" for w
    using that by (simp_all add: listen_event_def open_fd_def new_fd_def ask_def add_handler_def add_handler_impl_def
        table_set_def)
  let ?w1 = "no_net\<lparr>n_next := 3, n_open := {0, 1, 2}, n_hands := [0 \<mapsto> False, 1 \<mapsto> False, 2 \<mapsto> False],
      n_armed := {0, 1, 2}, n_calls := 19\<rparr>"
  have l1: "listen_event (\<lambda>_ _. 0) ?w1 = (Some 3, snd (listen_event (\<lambda>_ _. 0) ?w1))"
    "n_next (snd (listen_event (\<lambda>_ _. 0) ?w1)) = 4"
    using l [of ?w1] by simp_all
  have "n_hands (snd (listen_event (\<lambda>_ _. 0) ?w1)) 4 = None"
    by (simp add: listen_event_def open_fd_def new_fd_def ask_def add_handler_def add_handler_impl_def table_set_def)
  with l1(2) have "n_hands (snd (listen_event (\<lambda>_ _. 0) ?w1)) (n_next (snd (listen_event (\<lambda>_ _. 0) ?w1))) = None" by simp
  from l(1) [OF this] l1 obtain w2 w3 where l: "listen_event (\<lambda>_ _. 0) ?w1 = (Some 3, w2)"
    "listen_event (\<lambda>_ _. 0) w2 = (Some 4, w3)" by metis
  show ?thesis
    by (rule exI [of _ w3]) (simp add: main_prog_def argv init l, simp add: default_options_def log_choice_def)
qed


end
