(* ===== verification/Control_Session.thy ===== *)
theory Control_Session
  imports Gate_Loops Startup
begin

text \<open>
  The control gate and the proxy client together: what the lists of servers that an operator sends over
  a connection do to the handles of the workers. \<open>control::handler\<close> of \<^verbatim>\<open>src/gate_control.cc\<close> (theory
  \<open>Gate_Loops\<close>) calls \<open>proxy_client::set_servers\<close> of \<^verbatim>\<open>src/proxy_client.cc\<close> (\<open>Proxy_Client\<close>).
\<close>

section \<open>The handler\<close>

text \<open>\<open>set_servers\<close> returns, or throws one of its exceptions. A body is a C string.\<close>

definition gate_set_servers :: "'s memcached_lib \<Rightarrow> byte list \<Rightarrow> 's proxy \<Rightarrow> bool \<times> 's proxy" where
  "gate_set_servers lib str p = (case set_servers lib str p of (r, p') \<Rightarrow> (r = Px_done, p'))"

definition c_string :: "byte list \<Rightarrow> byte list" where
  "c_string b = takeWhile (\<lambda>x. x \<noteq> 0) b"

abbreviation control_body :: "(nat \<Rightarrow> bool) \<Rightarrow> 's memcached_lib \<Rightarrow> byte list \<Rightarrow> 's proxy \<Rightarrow> bool \<times> 's proxy" where
  "control_body memory lib \<equiv> process_body memory (gate_set_servers lib)"

lemma control_body_eq:
  "control_body memory lib b p =
    (if memory (length b + 1) then (case set_servers lib (c_string b) p of (r, p') \<Rightarrow> (r = Px_done, p')) else (False, p))"
  by (simp add: process_body_def gate_set_servers_def c_string_def)

section \<open>The workers while lists come in\<close>

text \<open>Every listed worker has a live handle of its own; handles may have been lost.\<close>

definition armed :: "'s proxy \<Rightarrow> obj_id list \<Rightarrow> bool" where
  "armed p es \<longleftrightarrow> (\<exists>X. px_ok p X) \<and> px_list p = Some es \<and> distinct es \<and> (\<forall>e \<in> set es. \<exists>l. has_client p e l)"

text \<open>The servers of the workers: those of the last list, or what they were.\<close>

definition last_list :: "'s memcached_lib \<Rightarrow> byte list list \<Rightarrow> obj_id list \<Rightarrow> 's proxy \<Rightarrow> 's proxy \<Rightarrow> bool" where
  "last_list lib bs es p p' \<longleftrightarrow>
     (if bs = [] then p' = p
      else \<exists>ss. lib_parse lib (c_string (last bs)) = Some ss \<and> (\<forall>e \<in> set es. has_client p' e [ss]))"

lemma has_clientI: "px_ok p X \<Longrightarrow> px_obj p e = Some (Some m) \<Longrightarrow> \<exists>l. has_client p e l"
  using px_okD(1) unfolding has_client_def by blast

lemma all_listed_armed: "all_listed p es \<Longrightarrow> armed p es"
  unfolding all_listed_def armed_def using has_clientI by blast

lemma has_client_obj: "has_client p e l \<Longrightarrow> \<exists>m. px_obj p e = Some (Some m)"
  by (auto simp: has_client_def)

lemma parse_servers_frame:
  "parse_servers lib str p = (r, p1) \<Longrightarrow> px_obj p1 = px_obj p \<and> px_mc p1 = px_mc p \<and> px_list p1 = px_list p
    \<and> px_tls p1 = px_tls p \<and> (px_ok p1 X = px_ok p X) \<and> has_client p1 = has_client p"
  by (auto simp: parse_servers_def px_ok_def has_client_def fun_eq_iff split: if_splits option.splits)

lemma set_servers_armed:
  assumes "all_listed p es" and "set_servers lib str p = (r, p')"
  shows "px_tls p' = px_tls p \<and> armed p' es \<and> (r = Px_done \<longrightarrow> all_listed p' es)"
proof -
  have p: "px_ok p {}" "px_list p = Some es" "distinct es" "\<forall>e \<in> set es. \<exists>m. px_obj p e = Some (Some m)"
    using assms(1) by (simp_all add: all_listed_def)
  obtain c p1 where c: "parse_servers lib str p = (c, p1)" by (cases "parse_servers lib str p")
  note fr = parse_servers_frame [OF c, of "{}"]
  have listed: "all_listed p1 es" using assms(1) fr by (simp add: all_listed_def)
  show ?thesis
  proof (cases c)
    case (Inl a)
    with c assms(2) have "p' = p1" by (simp add: set_servers_def)
    with listed fr all_listed_armed show ?thesis by blast
  next
    case (Inr ss)
    have objs: "\<forall>e \<in> set es. \<exists>m. px_obj p1 e = Some (Some m)" and ok: "px_ok p1 {}"
      using listed by (simp_all add: all_listed_def)
    have run: "replace_clients lib ss es p1 = (r, p')"
      using assms(2) c Inr fr p(2) by (simp add: set_servers_def)
    from replace_clients_ok [OF ok p(3) objs run] obtain k Y where k: "k \<le> length es"
      "r = (if k = length es then Px_done else Px_bad_alloc)" "px_ok p' ({} \<union> Y)" "k = length es \<longrightarrow> Y = {}"
      "\<forall>e \<in> set (take k es). has_client p' e [ss]"
      "\<forall>e l. e \<notin> set (take k es) \<longrightarrow> has_client p1 e l \<longrightarrow> has_client p' e l"
      "px_list p' = px_list p1" "px_tls p' = px_tls p1" by blast
    have "\<exists>l. has_client p1 e l" if "e \<in> set es" for e using has_clientI [OF ok] objs that by blast
    then have each: "\<forall>e \<in> set es. \<exists>l. has_client p' e l" using k(5,6) by blast
    then have "\<forall>e \<in> set es. \<exists>m. px_obj p' e = Some (Some m)" using has_client_obj by blast
    with each k fr p(2,3) show ?thesis by (auto simp: armed_def all_listed_def split: if_splits)
  qed
qed

lemma control_body_result:
  assumes "all_listed p es" and "control_body memory lib b p = (ok, p')"
  shows "px_tls p' = px_tls p \<and> armed p' es \<and> (ok \<longrightarrow> all_listed p' es \<and> last_list lib [b] es p p')"
proof (cases "memory (length b + 1)")
  case True
  obtain r q where s: "set_servers lib (c_string b) p = (r, q)" by (cases "set_servers lib (c_string b) p")
  with True assms(2) have q: "p' = q" "ok = (r = Px_done)" by (simp_all add: control_body_eq)
  have "last_list lib [b] es p q" if "r = Px_done"
    using set_servers_done [OF assms(1) s [unfolded that]] by (auto simp: last_list_def)
  with set_servers_armed [OF assms(1) s] q show ?thesis by simp
next
  case False
  with assms all_listed_armed show ?thesis by (auto simp: control_body_eq)
qed

lemma process_all_lists:
  assumes "all_listed p es" and "process_all (control_body memory lib) bs p = (ok, p')"
  shows "px_tls p' = px_tls p \<and> armed p' es \<and> (ok \<longrightarrow> all_listed p' es \<and> last_list lib bs es p p')"
  using assms
proof (induction bs arbitrary: p)
  case Nil
  then show ?case using all_listed_armed by (auto simp: last_list_def)
next
  case (Cons b bs)
  obtain ok1 p1 where b: "control_body memory lib b p = (ok1, p1)" by (cases "control_body memory lib b p")
  note r = control_body_result [OF Cons.prems(1) b]
  show ?case
  proof (cases ok1)
    case True
    with r have p1: "all_listed p1 es" "last_list lib [b] es p p1" by simp_all
    have run: "process_all (control_body memory lib) bs p1 = (ok, p')" using Cons.prems(2) b True by simp
    from Cons.IH [OF p1(1) run] r p1(2) show ?thesis by (cases bs) (auto simp: last_list_def)
  next
    case False
    with Cons.prems(2) b r show ?thesis by auto
  qed
qed

section \<open>When the library does what it is asked for\<close>

lemma replace_clients_works:
  assumes "lib_works lib" and "\<forall>n. lib_push lib n" and "\<forall>e \<in> set es. \<exists>m. px_obj p e = Some (Some m)"
  shows "fst (replace_clients lib ss es p) = Px_done"
  using assms(3)
proof (induction es arbitrary: p)
  case (Cons e es)
  obtain m p1 where n: "new_client lib ss p = (Some m, p1)" "px_obj p1 = px_obj p"
    using assms(1,2) by (simp add: new_client_def memcached_create_def memcached_server_push_def lib_works_def)
  obtain p2 where i: "install e m p1 = (Px_done, p2)" "px_obj p2 = (px_obj p)(e \<mapsto> Some m)"
    using Cons.prems n(2) by (auto simp: install_def memcached_free_def)
  have "\<forall>x \<in> set es. \<exists>m. px_obj p2 x = Some (Some m)" using Cons.prems i(2) by auto
  from Cons.IH [OF this] n(1) i(1) show ?case by simp
qed simp

lemma control_body_works:
  assumes "all_listed p es" and "lib_works lib" and "\<forall>n. lib_push lib n" and "\<forall>n. memory n"
    and "lib_parse lib (c_string b) \<noteq> None"
  shows "fst (control_body memory lib b p)"
proof -
  obtain ss p1 where s: "parse_servers lib (c_string b) p = (Inr ss, p1)"
    using assms(2,5) by (auto simp: parse_servers_def lib_works_def)
  note fr = parse_servers_frame [OF s, of "{}"]
  have "\<forall>e \<in> set es. \<exists>m. px_obj p1 e = Some (Some m)" "px_list p1 = Some es"
    using assms(1) fr by (simp_all add: all_listed_def)
  with replace_clients_works [OF assms(2,3), of es p1 ss] s assms(4) show ?thesis
    by (cases "replace_clients lib ss es p1") (simp add: control_body_eq set_servers_def)
qed

lemma process_all_works:
  assumes "all_listed p es" and lib: "lib_works lib" "\<forall>n. lib_push lib n" "\<forall>n. memory n"
    and "\<forall>b \<in> set bs. lib_parse lib (c_string b) \<noteq> None"
  shows "fst (process_all (control_body memory lib) bs p)"
  using assms(1,5)
proof (induction bs arbitrary: p)
  case (Cons b bs)
  obtain ok p1 where b: "control_body memory lib b p = (ok, p1)" by (cases "control_body memory lib b p")
  from control_body_works [OF Cons.prems(1) lib, of b] b Cons.prems(2) have ok: ok by simp
  with control_body_result [OF Cons.prems(1) b] have "all_listed p1 es" by simp
  from Cons.IH [OF this] Cons.prems(2) b ok show ?case by simp
qed simp


section \<open>Properties\<close>

text \<open>
  C15. What an operator sends never takes a worker's handle away. While a connection of the control gate is
  open, every worker has a live handle of its own, with the servers of the last complete list it
  received, and keeps its slot; the next event, whatever it brings and whichever call of the library fails,
  returns, and the workers still have their handles when it closes the connection.
\<close>

theorem control_gate_keeps_handles:
  assumes "allocator_ok grants" and "all_listed p es"
    and "control_reach grants vec_ok (process_body memory (gate_set_servers lib)) p str (s, p')"
    and "sb_fits grants s CONTROL_RESERVE_SIZE" and "sbp.read_ok grants vec_ok s CONTROL_RESERVE_SIZE inp"
  shows "px_tls p' = px_tls p \<and> all_listed p' es \<and> last_list lib (fst (frames str)) es p p'
    \<and> (\<exists>r. sb_control_event grants vec_ok (process_body memory (gate_set_servers lib)) inp (s, p') = Some r
        \<and> (case r of Keep (_, q) \<Rightarrow> all_listed q es | Closed (_, q) \<Rightarrow> armed q es | Event_fault \<Rightarrow> False))"
proof -
  note inv = control_reach_frames [OF assms(1,3)]
  then have holds: "sb_holds s (snd (frames str))"
    and run: "process_all (control_body memory lib) (fst (frames str)) p = (True, p')" by simp_all
  note now = process_all_lists [OF assms(2) run]
  then have p': "all_listed p' es" by simp
  from sbp.control_event_returns [OF holds assms(4,5), of "control_body memory lib" p']
  obtain r where r: "control_read_event (sb_reserve grants vec_ok) fill sb_load take_off
      (control_body memory lib) inp (s, p') = Some r" by blast
  have "case r of Keep (_, q) \<Rightarrow> all_listed q es | Closed (_, q) \<Rightarrow> armed q es | Event_fault \<Rightarrow> False"
    using sbp.control_event [OF holds assms(4,5) r] process_all_lists [OF p'] p' all_listed_armed [OF p']
    by (cases r; cases inp) (fastforce split: prod.splits)+
  with r now show ?thesis by (auto simp: sb_control_event_def)
qed

text \<open>
  C16. An operator sends lists of servers, each in a frame of its own. When the library and the
  allocator give what they are asked for, the last of these lists is what every worker uses after the
  event that brings the last byte, however the bytes were cut into events before.
\<close>

theorem control_gate_installs:
  assumes "allocator_ok grants" and "all_listed p es"
    and "control_reach grants vec_ok (process_body memory (gate_set_servers lib)) p str (s, p')"
    and "sb_fits grants s CONTROL_RESERVE_SIZE" and "sbp.read_ok grants vec_ok s CONTROL_RESERVE_SIZE (Got ys)"
    and "sb_reserve grants vec_ok s CONTROL_RESERVE_SIZE = Done s1"
    and "str @ ys = concat (map frame bs)" and "\<forall>b \<in> set bs. b \<noteq> [] \<and> length b < 2 ^ 32"
    and "lib_works lib" and "\<forall>n. lib_push lib n" and "\<forall>n. memory n"
    and "\<forall>b \<in> set bs. lib_parse lib (c_string b) \<noteq> None"
  shows "\<exists>s' q. sb_control_event grants vec_ok (process_body memory (gate_set_servers lib)) (Got ys) (s, p') = Some (Keep (s', q))
    \<and> sb_load s' = [] \<and> all_listed q es \<and> px_tls q = px_tls p \<and> last_list lib bs es p q"
proof -
  let ?body = "control_body memory lib"
  note inv = control_reach_frames [OF assms(1,3)]
  then have holds: "sb_holds s (snd (frames str))"
    and sofar: "process_all ?body (fst (frames str)) p = (True, p')" by simp_all
  obtain fs r gs r' where fr: "frames str = (fs, r)" "frames (r @ ys) = (gs, r')" by fastforce
  with frames_append [of str ys] frames_bodies [OF assms(8)] assms(7) have bs: "bs = fs @ gs" "r' = []" by auto
  obtain ok q where all: "process_all ?body bs p = (ok, q)" by (cases "process_all ?body bs p")
  with process_all_works [OF assms(2,9-12)] have ok: "ok" by simp
  with all sofar fr(1) bs(1) have run: "process_all ?body gs p' = (True, q)" by (simp add: process_all_append)
  from assms(5,6) have "length ys \<le> sb_room s1" by (simp add: sbp.read_ok_def)
  from sb.reserve_holds [OF holds assms(4), of vec_ok] assms(6) have s1: "sb_holds s1 r" using fr(1) by auto
  from sb.fill_holds [OF s1 \<open>length ys \<le> sb_room s1\<close>] obtain s2 where s2: "fill s1 ys = Some s2" "sb_holds s2 (r @ ys)"
    by auto
  from sbp.control_loop_frames [OF s2(2), of ?body p'] fr(2) run bs(2) obtain s' where
    loop: "control_loop sb_load take_off ?body s2 p' = Some (True, s', q)" "sb_holds s' []" by auto
  have "sb_control_event grants vec_ok ?body (Got ys) (s, p') = Some (Keep (s', q))"
    by (simp add: sb_control_event_def control_read_event_def receive_def assms(6) s2(1) loop(1))
  with process_all_lists [OF assms(2) all] ok sb_load_holds [OF loop(2)] show ?thesis by auto
qed

section \<open>Two workers\<close>

definition two_workers :: "nat proxy" where
  "two_workers = start_workers working_lib [0, 1] (proxy_init no_clients)"

lemma two_workers_listed: "\<exists>es. all_listed two_workers es \<and> (\<exists>e \<in> set es. px_tls two_workers 1 = Some e)"
proof -
  have lib: "lib_works working_lib" by (simp add: lib_works_def working_lib_def)
  have "all_listed (proxy_init no_clients) []" by (simp add: all_listed_def proxy_init_def px_ok_def no_clients_def)
  from start_workers_listed [OF lib this, of "[0, 1]"] show ?thesis by (auto simp: two_workers_def)
qed

lemma new_connection:
  obtains s s1 where "control_reach Stream_Buffer.granting True body w [] (s, w)"
    "sb_fits Stream_Buffer.granting s CONTROL_RESERVE_SIZE"
    "sbp.read_ok Stream_Buffer.granting True s CONTROL_RESERVE_SIZE (Got (frame (bytes_of ''ab'')))"
    "sb_reserve Stream_Buffer.granting True s CONTROL_RESERVE_SIZE = Done s1"
proof -
  obtain s where s: "stream_buffer_init Stream_Buffer.granting no_heap CONTROL_INITIAL_ALLOCATION_SIZE = Some s"
    "sb_holds s []" "sb_fits Stream_Buffer.granting s CONTROL_RESERVE_SIZE"
    "\<And>ys. length ys \<le> CONTROL_RESERVE_SIZE \<Longrightarrow>
      sbp.read_ok Stream_Buffer.granting True s CONTROL_RESERVE_SIZE (Got ys)"
    by (rule new_buffer [of CONTROL_INITIAL_ALLOCATION_SIZE CONTROL_RESERVE_SIZE])
      (auto simp: CONTROL_INITIAL_ALLOCATION_SIZE_def CONTROL_RESERVE_SIZE_def)
  have "heap_ok no_heap" by (simp add: no_heap_def heap_ok_def)
  from control_reach.accept [OF this s(1)] have "control_reach Stream_Buffer.granting True body w [] (s, w)" .
  moreover have "sbp.read_ok Stream_Buffer.granting True s CONTROL_RESERVE_SIZE (Got (frame (bytes_of ''ab'')))"
    by (rule s(4)) (simp add: frame_def CONTROL_RESERVE_SIZE_def bytes_of_def)
  moreover obtain s1 where "sb_reserve Stream_Buffer.granting True s CONTROL_RESERVE_SIZE = Done s1"
    using new_buffer_reserves [OF s(1), of CONTROL_RESERVE_SIZE]
    by (auto simp: CONTROL_INITIAL_ALLOCATION_SIZE_def CONTROL_RESERVE_SIZE_def)
  ultimately show thesis using s(3) that by blast
qed

theorem control_gate_keeps_handles_witness:
  "\<exists>s r. sb_control_event Stream_Buffer.granting True (process_body (\<lambda>_. True) (gate_set_servers working_lib))
    (Got (frame (bytes_of ''ab''))) (s, two_workers) = Some r \<and> r \<noteq> Event_fault"
proof -
  obtain es where es: "all_listed two_workers es" using two_workers_listed by blast
  obtain s s1 where s: "control_reach Stream_Buffer.granting True
      (process_body (\<lambda>_. True) (gate_set_servers working_lib)) two_workers [] (s, two_workers)"
    "sb_fits Stream_Buffer.granting s CONTROL_RESERVE_SIZE"
    "sbp.read_ok Stream_Buffer.granting True s CONTROL_RESERVE_SIZE (Got (frame (bytes_of ''ab'')))"
    by (rule new_connection)
  from control_gate_keeps_handles [OF granting_ok es s] show ?thesis by fastforce
qed

theorem control_gate_installs_witness:
  "\<exists>s s' q e. sb_control_event Stream_Buffer.granting True (process_body (\<lambda>_. True) (gate_set_servers working_lib))
    (Got (frame (bytes_of ''ab''))) (s, two_workers) = Some (Keep (s', q)) \<and> px_tls q 1 = Some e \<and> has_client q e [2]"
proof -
  obtain es e where es: "all_listed two_workers es" "e \<in> set es" "px_tls two_workers 1 = Some e"
    using two_workers_listed by blast
  obtain s s1 where s: "control_reach Stream_Buffer.granting True
      (process_body (\<lambda>_. True) (gate_set_servers working_lib)) two_workers [] (s, two_workers)"
    "sb_fits Stream_Buffer.granting s CONTROL_RESERVE_SIZE"
    "sbp.read_ok Stream_Buffer.granting True s CONTROL_RESERVE_SIZE (Got (frame (bytes_of ''ab'')))"
    "sb_reserve Stream_Buffer.granting True s CONTROL_RESERVE_SIZE = Done s1"
    by (rule new_connection)
  have "[] @ frame (bytes_of ''ab'') = concat (map frame [bytes_of ''ab''])" by simp
  note q = control_gate_installs [OF granting_ok es(1) s this]
  have "c_string (bytes_of ''ab'') = bytes_of ''ab''" by (simp add: c_string_def bytes_of_def)
  then have p: "lib_parse working_lib (c_string (bytes_of ''ab'')) = Some 2"
    by (simp add: working_lib_def bytes_of_def)
  have "lib_works working_lib" "\<forall>n. lib_push working_lib n" by (simp_all add: lib_works_def working_lib_def)
  with q p es(2,3) show ?thesis by (fastforce simp: last_list_def bytes_of_def)
qed

end
