(* ===== verification/Cclog.thy ===== *)
theory Cclog
  imports Heap
begin

text \<open>
  The logger \<^verbatim>\<open>src/cclog/\<close>: the levels, the loggers that throw away, write to a stream, to the system log
  or to a terminal, the global logger with \<open>reset\<close> and \<open>destroy\<close>, and the \<open>log\<close> function with the macros
  around it (\<^verbatim>\<open>cclog.h.erb\<close>). What follows for the rest of the program: a statement that logs returns,
  whatever fails inside it.
\<close>

section \<open>Levels\<close>

datatype level = TRACE | DEBUG | INFO | WARN | ERROR | FATAL

primrec level_num :: "level \<Rightarrow> nat" where
  "level_num TRACE = 0"
| "level_num DEBUG = 1"
| "level_num INFO = 2"
| "level_num WARN = 3"
| "level_num ERROR = 4"
| "level_num FATAL = 5"

lemma level_num_inject [simp]: "level_num a = level_num b \<longleftrightarrow> a = b"
  by (cases a; cases b) simp_all

instantiation level :: linorder
begin

definition less_eq_level :: "level \<Rightarrow> level \<Rightarrow> bool" where
  "a \<le> b \<longleftrightarrow> level_num a \<le> level_num b"

definition less_level :: "level \<Rightarrow> level \<Rightarrow> bool" where
  "a < b \<longleftrightarrow> level_num a < level_num b"

instance
  by standard (auto simp: less_eq_level_def less_level_def)

end

section \<open>State\<close>

text \<open>
  A logger with its runtime level. \<open>le_memory\<close> and \<open>le_stream\<close> say what becomes of the n-th allocation
  and the n-th use of the stream, \<open>le_time\<close> is what \<open>strftime\<close> writes.
\<close>

datatype logger = Null_log | Ostream_log nat | Syslog_log nat | Tty_log nat

datatype stream_result = Takes | Ignores | Raises

record log_env =
  le_memory :: "nat \<Rightarrow> bool"
  le_stream :: "nat \<Rightarrow> stream_result"
  le_time :: "nat \<Rightarrow> byte list"

text \<open>
  \<open>lw_logger\<close> is \<open>s_logger\<close>, \<open>lw_objects\<close> are the loggers that live, \<open>lw_counter\<close> the
  \<open>cclog_initializer_counter\<close> of every file that includes the header, which is static there. Then
  what was written to the stream, the system log and \<open>cerr\<close>, and the buffers allocated and not yet freed.
\<close>

record log_world =
  lw_logger :: "nat option"
  lw_objects :: "nat \<Rightarrow> logger option"
  lw_next :: nat
  lw_counter :: "nat \<Rightarrow> nat"
  lw_out :: "byte list list"
  lw_syslog :: "(nat \<times> byte list) list"
  lw_open :: bool
  lw_err :: "byte list list"
  lw_bufs :: nat
  lw_calls :: nat

fun runtime_level :: "logger \<Rightarrow> nat" where
  "runtime_level Null_log = level_num FATAL + 1"
| "runtime_level (Ostream_log l) = l"
| "runtime_level (Syslog_log l) = l"
| "runtime_level (Tty_log l) = l"

section \<open>Writing\<close>

definition stream_write :: "log_env \<Rightarrow> byte list \<Rightarrow> log_world \<Rightarrow> log_world outcome" where
  "stream_write env bs w =
    (let w1 = w\<lparr>lw_calls := lw_calls w + 1\<rparr> in
     case le_stream env (lw_calls w) of
       Takes \<Rightarrow> Done (w1\<lparr>lw_out := lw_out w @ [bs]\<rparr>)
     | Ignores \<Rightarrow> Done w1
     | Raises \<Rightarrow> Throw w1)"

definition null_log_impl :: "level \<Rightarrow> byte list \<Rightarrow> log_world \<Rightarrow> log_world outcome" where
  "null_log_impl lv str w = Done w"

definition ostream_log_impl :: "log_env \<Rightarrow> byte list \<Rightarrow> log_world \<Rightarrow> log_world outcome" where
  "ostream_log_impl env str w = and_then (stream_write env str w) (stream_write env [10])"

fun syslog_priority :: "level \<Rightarrow> nat" where
  "syslog_priority TRACE = 7"
| "syslog_priority DEBUG = 7"
| "syslog_priority INFO = 6"
| "syslog_priority WARN = 5"
| "syslog_priority ERROR = 3"
| "syslog_priority FATAL = 2"

text \<open>\<open>syslog\<close> gets a C string, which ends at the first NUL.\<close>

definition syslog_log_impl :: "level \<Rightarrow> byte list \<Rightarrow> log_world \<Rightarrow> log_world outcome" where
  "syslog_log_impl lv str w =
    Done (w\<lparr>lw_syslog := lw_syslog w @ [(syslog_priority lv, takeWhile (\<lambda>b. b \<noteq> 0) str)]\<rparr>)"

definition TTY_COLOR :: "string \<Rightarrow> byte list" where
  "TTY_COLOR code = bytes_of (CHR 0x1B # ''['' @ code)"

definition color_table :: "byte list list" where
  "color_table = [TTY_COLOR ''0;39m'', TTY_COLOR ''1;37m'', TTY_COLOR ''1;32m'', TTY_COLOR ''1;33m'',
     TTY_COLOR ''1;35m'', TTY_COLOR ''1;31m'']"

text \<open>\<open>memcpy\<close> into the buffer; \<open>None\<close> when it leaves the buffer.\<close>

definition copy_into :: "byte option list \<Rightarrow> nat \<Rightarrow> byte list \<Rightarrow> byte option list option" where
  "copy_into buf p bs = (if p + length bs \<le> length buf then Some (store_at buf p (map Some bs)) else None)"

definition tty_line :: "byte list \<Rightarrow> byte list \<Rightarrow> byte option list option" where
  "tty_line color str =
    (let reset_line = TTY_COLOR ''0;39m'' @ [10];
         sz = length color + length str + length reset_line in
     Option.bind (copy_into (replicate sz None) 0 color) (\<lambda>b1.
       Option.bind (copy_into b1 (length color) str) (\<lambda>b2.
         copy_into b2 (length color + length str) reset_line)))"

definition tty_log_impl :: "log_env \<Rightarrow> level \<Rightarrow> byte list \<Rightarrow> log_world \<Rightarrow> log_world outcome" where
  "tty_log_impl env lv str w =
    (if length color_table \<le> level_num lv then Fault
     else if \<not> le_memory env (lw_calls w) then Throw (w\<lparr>lw_calls := lw_calls w + 1\<rparr>)
     else
       let w1 = w\<lparr>lw_calls := lw_calls w + 1, lw_bufs := lw_bufs w + 1\<rparr> in
       case tty_line (color_table ! level_num lv) str of
         None \<Rightarrow> Fault
       | Some buf \<Rightarrow>
           (case stream_write env (map the buf) w1 of
              Done w2 \<Rightarrow> Done (w2\<lparr>lw_bufs := lw_bufs w2 - 1\<rparr>)
            | Throw w2 \<Rightarrow> Throw (w2\<lparr>lw_bufs := lw_bufs w2 - 1\<rparr>)
            | r \<Rightarrow> r))"

fun log_impl :: "log_env \<Rightarrow> logger \<Rightarrow> level \<Rightarrow> byte list \<Rightarrow> log_world \<Rightarrow> log_world outcome" where
  "log_impl env Null_log lv str w = null_log_impl lv str w"
| "log_impl env (Ostream_log l) lv str w = ostream_log_impl env str w"
| "log_impl env (Syslog_log l) lv str w = syslog_log_impl lv str w"
| "log_impl env (Tty_log l) lv str w = tty_log_impl env lv str w"

text \<open>
  \<open>log\<close>: the time, the prefix and the arguments as text. The string is built in memory; any exception ends
  in a line on \<open>cerr\<close>.
\<close>

definition log_error :: "byte list \<Rightarrow> log_world \<Rightarrow> log_world" where
  "log_error prefix w = w\<lparr>lw_err := lw_err w @ [prefix @ bytes_of '' log error'' @ [10]]\<rparr>"

definition cclog_log :: "log_env \<Rightarrow> level \<Rightarrow> byte list \<Rightarrow> byte list list \<Rightarrow> log_world \<Rightarrow> log_world outcome" where
  "cclog_log env lv prefix args w =
    (case Option.bind (lw_logger w) (lw_objects w) of
       None \<Rightarrow> Fault
     | Some lg \<Rightarrow>
         if level_num lv < runtime_level lg then Done w
         else
           let w1 = w\<lparr>lw_calls := lw_calls w + 1\<rparr> in
           if \<not> le_memory env (lw_calls w) then Done (log_error prefix w1)
           else (case log_impl env lg lv (le_time env (lw_calls w) @ prefix @ concat args) w1 of
                   Throw w2 \<Rightarrow> Done (log_error prefix w2)
                 | r \<Rightarrow> r))"

text \<open>The macros: a statement below \<open>CCLOG_LEVEL\<close> is not compiled.\<close>

definition LOG :: "nat \<Rightarrow> log_env \<Rightarrow> level \<Rightarrow> byte list \<Rightarrow> byte list list \<Rightarrow> log_world \<Rightarrow> log_world outcome" where
  "LOG CCLOG_LEVEL env lv prefix args w =
    (if CCLOG_LEVEL \<le> level_num lv then cclog_log env lv prefix args w else Done w)"

section \<open>The global logger\<close>

fun is_syslog :: "logger \<Rightarrow> bool" where
  "is_syslog (Syslog_log l) = True"
| "is_syslog _ = False"

definition new_logger :: "logger \<Rightarrow> log_world \<Rightarrow> nat \<times> log_world" where
  "new_logger lg w = (lw_next w, w\<lparr>lw_objects := (lw_objects w)(lw_next w \<mapsto> lg), lw_next := lw_next w + 1,
     lw_open := lw_open w \<or> is_syslog lg\<rparr>)"

definition delete_logger :: "nat \<Rightarrow> log_world \<Rightarrow> log_world outcome" where
  "delete_logger i w =
    (case lw_objects w i of
       None \<Rightarrow> Fault
     | Some lg \<Rightarrow> Done (w\<lparr>lw_objects := (lw_objects w)(i := None), lw_open := lw_open w \<and> \<not> is_syslog lg\<rparr>))"

definition cclog_reset :: "nat \<Rightarrow> log_world \<Rightarrow> log_world outcome" where
  "cclog_reset i w =
    and_then (case lw_logger w of None \<Rightarrow> Done w | Some old \<Rightarrow> delete_logger old w)
      (\<lambda>w1. Done (w1\<lparr>lw_logger := Some i\<rparr>))"

definition cclog_destroy :: "log_world \<Rightarrow> log_world outcome" where
  "cclog_destroy w =
    and_then (case lw_logger w of None \<Rightarrow> Done w | Some old \<Rightarrow> delete_logger old w)
      (\<lambda>w1. Done (w1\<lparr>lw_logger := None\<rparr>))"

definition reset_new :: "logger \<Rightarrow> log_world \<Rightarrow> log_world outcome" where
  "reset_new lg w = (case new_logger lg w of (i, w1) \<Rightarrow> cclog_reset i w1)"

text \<open>The static object of each file: its constructor and its destructor.\<close>

definition initializer_new :: "nat \<Rightarrow> log_world \<Rightarrow> log_world outcome" where
  "initializer_new file w =
    (let w1 = w\<lparr>lw_counter := (lw_counter w)(file := lw_counter w file + 1)\<rparr> in
     if lw_counter w file = 0 \<and> lw_logger w = None then reset_new Null_log w1 else Done w1)"

definition initializer_destroy :: "nat \<Rightarrow> log_world \<Rightarrow> log_world outcome" where
  "initializer_destroy file w =
    (let w1 = w\<lparr>lw_counter := (lw_counter w)(file := lw_counter w file - 1)\<rparr> in
     if lw_counter w file - 1 = 0 then cclog_destroy w1 else Done w1)"

text \<open>A program: its files are initialised, it logs and replaces its logger, its files are torn down.\<close>

datatype log_op = Install logger | Say level "byte list" "byte list list"

fun log_do :: "nat \<Rightarrow> log_env \<Rightarrow> log_op \<Rightarrow> log_world \<Rightarrow> log_world outcome" where
  "log_do CCLOG_LEVEL env (Install lg) w = reset_new lg w"
| "log_do CCLOG_LEVEL env (Say lv prefix args) w = LOG CCLOG_LEVEL env lv prefix args w"

fun each :: "('a \<Rightarrow> log_world \<Rightarrow> log_world outcome) \<Rightarrow> 'a list \<Rightarrow> log_world \<Rightarrow> log_world outcome" where
  "each f [] w = Done w"
| "each f (x # xs) w = and_then (f x w) (each f xs)"

definition log_program :: "nat \<Rightarrow> log_env \<Rightarrow> nat list \<Rightarrow> log_op list \<Rightarrow> log_world \<Rightarrow> log_world outcome" where
  "log_program CCLOG_LEVEL env files ops w =
    and_then (each initializer_new files w) (\<lambda>w1.
      and_then (each (log_do CCLOG_LEVEL env) ops w1) (each initializer_destroy (rev files)))"

section \<open>Logging returns\<close>

text \<open>At most one logger lives, the global one.\<close>

definition log_ok :: "log_world \<Rightarrow> bool" where
  "log_ok w \<longleftrightarrow> (case lw_logger w of
      None \<Rightarrow> lw_objects w = Map.empty
    | Some i \<Rightarrow> i < lw_next w \<and> (\<exists>lg. lw_objects w = [i \<mapsto> lg]))"

lemma log_ok_counter [simp]: "log_ok (w\<lparr>lw_counter := c\<rparr>) = log_ok w"
  by (simp add: log_ok_def split: option.split)

text \<open>The three copies fill the buffer, every byte of it.\<close>

lemma tty_line_full: "tty_line color str = Some (map Some (color @ str @ TTY_COLOR ''0;39m'' @ [10]))"
  by (simp add: tty_line_def copy_into_def store_at_def Let_def)

lemma level_in_table: "level_num lv < length color_table"
  by (cases lv) (simp_all add: color_table_def)

definition log_frame :: "log_world \<Rightarrow> log_world \<Rightarrow> bool" where
  "log_frame w w' \<longleftrightarrow> lw_logger w' = lw_logger w \<and> lw_objects w' = lw_objects w \<and> lw_next w' = lw_next w
     \<and> lw_counter w' = lw_counter w \<and> lw_bufs w' = lw_bufs w \<and> lw_open w' = lw_open w"

lemma stream_write_cases:
  obtains w' where "stream_write env bs w = Done w' \<or> stream_write env bs w = Throw w'" and "log_frame w w'"
    and "lw_out w' = lw_out w \<or> lw_out w' = lw_out w @ [bs]"
  by (cases "le_stream env (lw_calls w)") (auto simp: stream_write_def Let_def log_frame_def)

lemma log_frame_trans: "log_frame w1 w2 \<Longrightarrow> log_frame w2 w3 \<Longrightarrow> log_frame w1 w3"
  by (simp add: log_frame_def)

lemma tty_log_impl_cases:
  obtains w' where "tty_log_impl env lv str w = Done w' \<or> tty_log_impl env lv str w = Throw w'" and "log_frame w w'"
    and "lw_out w' = lw_out w
      \<or> lw_out w' = lw_out w @ [color_table ! level_num lv @ str @ TTY_COLOR ''0;39m'' @ [10]]"
proof (cases "le_memory env (lw_calls w)")
  case True
  let ?w1 = "w\<lparr>lw_calls := lw_calls w + 1, lw_bufs := lw_bufs w + 1\<rparr>"
  let ?l = "color_table ! level_num lv @ str @ TTY_COLOR ''0;39m'' @ [10]"
  obtain w2 where w2: "stream_write env ?l ?w1 = Done w2 \<or> stream_write env ?l ?w1 = Throw w2" "log_frame ?w1 w2"
    "lw_out w2 = lw_out ?w1 \<or> lw_out w2 = lw_out ?w1 @ [?l]" by (rule stream_write_cases)
  have "map the (map Some ?l) = ?l" by (simp add: o_def)
  with w2(1) True level_in_table [of lv]
  have "tty_log_impl env lv str w = Done (w2\<lparr>lw_bufs := lw_bufs w2 - 1\<rparr>)
      \<or> tty_log_impl env lv str w = Throw (w2\<lparr>lw_bufs := lw_bufs w2 - 1\<rparr>)"
    by (auto simp: tty_log_impl_def tty_line_full Let_def)
  then show thesis by (rule that) (use w2(2,3) in \<open>simp_all add: log_frame_def\<close>)
next
  case False
  with level_in_table [of lv] show thesis
    by (intro that [of "w\<lparr>lw_calls := lw_calls w + 1\<rparr>"]) (simp_all add: tty_log_impl_def log_frame_def)
qed

lemma ostream_log_impl_cases:
  obtains w' where "ostream_log_impl env str w = Done w' \<or> ostream_log_impl env str w = Throw w'" and "log_frame w w'"
proof -
  obtain w1 where w1: "stream_write env str w = Done w1 \<or> stream_write env str w = Throw w1" "log_frame w w1"
    by (rule stream_write_cases)
  obtain w2 where w2: "stream_write env [10] w1 = Done w2 \<or> stream_write env [10] w1 = Throw w2" "log_frame w1 w2"
    by (rule stream_write_cases)
  from w1 w2 log_frame_trans that show thesis by (auto simp: ostream_log_impl_def)
qed

lemma log_impl_cases:
  obtains w' where "log_impl env lg lv str w = Done w' \<or> log_impl env lg lv str w = Throw w'" and "log_frame w w'"
proof (cases lg)
  case (Ostream_log l)
  with ostream_log_impl_cases [of env str w] that show thesis by auto
next
  case (Tty_log l)
  with tty_log_impl_cases [of env lv str w] that show thesis by (metis log_impl.simps(4))
qed (use that [of w] that [of "w\<lparr>lw_syslog := lw_syslog w @ [(syslog_priority lv, takeWhile (\<lambda>b. b \<noteq> 0) str)]\<rparr>"]
  in \<open>simp_all add: log_frame_def syslog_log_impl_def null_log_impl_def\<close>)

lemma log_frame_error: "log_frame w (log_error prefix w') = log_frame w w'"
  by (simp add: log_frame_def log_error_def)

lemma log_frame_calls:
  "log_frame (w\<lparr>lw_calls := n\<rparr>) w' = log_frame w w'" "log_frame w (w'\<lparr>lw_calls := n\<rparr>) = log_frame w w'"
  by (simp_all add: log_frame_def)

lemma cclog_log_returns:
  assumes "log_ok w" and "lw_logger w \<noteq> None"
  shows "\<exists>w'. cclog_log env lv prefix args w = Done w' \<and> log_frame w w'"
proof -
  obtain lg where lg: "Option.bind (lw_logger w) (lw_objects w) = Some lg" using assms by (auto simp: log_ok_def)
  let ?w1 = "w\<lparr>lw_calls := lw_calls w + 1\<rparr>"
  obtain w2 where w2: "log_impl env lg lv (le_time env (lw_calls w) @ prefix @ concat args) ?w1 = Done w2
      \<or> log_impl env lg lv (le_time env (lw_calls w) @ prefix @ concat args) ?w1 = Throw w2" "log_frame ?w1 w2"
    by (rule log_impl_cases)
  have "log_frame w w" by (simp add: log_frame_def)
  with lg w2 show ?thesis
    by (auto simp: cclog_log_def Let_def log_frame_error log_frame_calls)
qed

lemma log_frame_ok: "log_frame w w' \<Longrightarrow> log_ok w' = log_ok w"
  by (simp add: log_frame_def log_ok_def split: option.split)

section \<open>The life of the loggers\<close>

lemma reset_new_ok:
  assumes "log_ok w"
  shows "\<exists>w'. reset_new lg w = Done w' \<and> log_ok w' \<and> lw_logger w' \<noteq> None \<and> lw_bufs w' = lw_bufs w
    \<and> lw_counter w' = lw_counter w"
proof (cases "lw_logger w")
  case None
  with assms show ?thesis by (auto simp: log_ok_def reset_new_def new_logger_def cclog_reset_def)
next
  case (Some i)
  with assms obtain old where o: "i < lw_next w" "lw_objects w = [i \<mapsto> old]" by (auto simp: log_ok_def)
  then have "([i \<mapsto> old, lw_next w \<mapsto> lg])(i := None) = [lw_next w \<mapsto> lg]" by auto
  with Some o show ?thesis
    by (auto simp: log_ok_def reset_new_def new_logger_def cclog_reset_def delete_logger_def)
qed

lemma log_do_ok:
  assumes "log_ok w" and "lw_logger w \<noteq> None"
  shows "\<exists>w'. log_do CCLOG_LEVEL env x w = Done w' \<and> log_ok w' \<and> lw_logger w' \<noteq> None \<and> lw_bufs w' = lw_bufs w
    \<and> lw_counter w' = lw_counter w"
proof (cases x)
  case (Install lg)
  with reset_new_ok [OF assms(1)] show ?thesis by simp
next
  case (Say lv prefix args)
  obtain w' where w': "cclog_log env lv prefix args w = Done w'" "log_frame w w'"
    using cclog_log_returns [OF assms] by blast
  with assms log_frame_ok [OF w'(2)] show ?thesis by (auto simp: Say LOG_def log_frame_def)
qed

lemma log_ops_ok:
  assumes "log_ok w" and "lw_logger w \<noteq> None"
  shows "\<exists>w'. each (log_do CCLOG_LEVEL env) ops w = Done w' \<and> log_ok w' \<and> lw_logger w' \<noteq> None
    \<and> lw_bufs w' = lw_bufs w \<and> lw_counter w' = lw_counter w"
  using assms
proof (induction ops arbitrary: w)
  case (Cons x xs)
  from log_do_ok [OF Cons.prems] obtain w1 where
    "log_do CCLOG_LEVEL env x w = Done w1" "log_ok w1" "lw_logger w1 \<noteq> None" "lw_bufs w1 = lw_bufs w"
    "lw_counter w1 = lw_counter w" by blast
  with Cons.IH [of w1] show ?case by auto
qed simp

lemma initializers_ok:
  assumes "log_ok w" and "distinct files" and "\<forall>f \<in> set files. lw_counter w f = 0"
  shows "\<exists>w'. each initializer_new files w = Done w' \<and> log_ok w' \<and> (files \<noteq> [] \<longrightarrow> lw_logger w' \<noteq> None)
    \<and> (lw_logger w \<noteq> None \<longrightarrow> lw_logger w' \<noteq> None)
    \<and> lw_bufs w' = lw_bufs w \<and> (\<forall>f. lw_counter w' f = (if f \<in> set files then 1 else lw_counter w f))"
  using assms
proof (induction files arbitrary: w)
  case (Cons f fs)
  let ?w = "w\<lparr>lw_counter := (lw_counter w)(f := lw_counter w f + 1)\<rparr>"
  have ok: "log_ok ?w" using Cons.prems(1) by simp
  obtain w1 where w1: "initializer_new f w = Done w1" "log_ok w1" "lw_logger w1 \<noteq> None" "lw_bufs w1 = lw_bufs w"
    "lw_counter w1 = (lw_counter w)(f := 1)"
  proof (cases "lw_logger w = None")
    case True
    with reset_new_ok [OF ok, of Null_log] Cons.prems(3) that show thesis by (auto simp: initializer_new_def)
  next
    case False
    with ok Cons.prems(3) that [of ?w] show thesis by (simp add: initializer_new_def)
  qed
  have "\<forall>g \<in> set fs. lw_counter w1 g = 0" using Cons.prems(2,3) w1(5) by auto
  with Cons.IH [OF w1(2), OF _ this] Cons.prems(2) obtain w' where
    "each initializer_new fs w1 = Done w'" "log_ok w'" "lw_logger w' \<noteq> None" "lw_bufs w' = lw_bufs w1"
    "\<forall>g. lw_counter w' g = (if g \<in> set fs then 1 else lw_counter w1 g)" using w1(3) by auto
  with w1 Cons.prems(2) show ?case by (intro exI [of _ w']) auto
qed simp

lemma cclog_destroy_ok:
  assumes "log_ok w"
  shows "\<exists>w'. cclog_destroy w = Done w' \<and> log_ok w' \<and> lw_logger w' = None \<and> lw_bufs w' = lw_bufs w
    \<and> lw_counter w' = lw_counter w"
  using assms by (auto simp: cclog_destroy_def delete_logger_def log_ok_def split: option.splits)

lemma destroyers_ok:
  assumes "log_ok w" and "distinct files" and "\<forall>f \<in> set files. lw_counter w f = 1"
  shows "\<exists>w'. each initializer_destroy files w = Done w' \<and> log_ok w' \<and> (files \<noteq> [] \<or> lw_logger w = None \<longrightarrow> lw_logger w' = None)
    \<and> lw_bufs w' = lw_bufs w"
  using assms
proof (induction files arbitrary: w)
  case (Cons f fs)
  let ?w = "w\<lparr>lw_counter := (lw_counter w)(f := lw_counter w f - 1)\<rparr>"
  have "log_ok ?w" using Cons.prems(1) by simp
  from cclog_destroy_ok [OF this] obtain w1 where w1: "initializer_destroy f w = Done w1" "log_ok w1"
    "lw_logger w1 = None" "lw_bufs w1 = lw_bufs w" "lw_counter w1 = (lw_counter w)(f := 0)"
    using Cons.prems(3) by (auto simp: initializer_destroy_def)
  have "\<forall>g \<in> set fs. lw_counter w1 g = 1" using Cons.prems(2,3) w1(5) by auto
  with Cons.IH [OF w1(2), OF _ this] Cons.prems(2) w1 show ?case by auto
qed simp

section \<open>Properties\<close>


definition quiet_world :: log_world where
  "quiet_world = \<lparr>lw_logger = None, lw_objects = Map.empty, lw_next = 0, lw_counter = (\<lambda>_. 0), lw_out = [], lw_syslog = [],
     lw_open = False, lw_err = [], lw_bufs = 0, lw_calls = 0\<rparr>"

definition poor_env :: log_env where
  "poor_env = \<lparr>le_memory = (\<lambda>n. n \<noteq> 3), le_stream = (\<lambda>n. if n = 2 then Takes else Raises), le_time = (\<lambda>_. [])\<rparr>"


text \<open>
  The terminal gets a line at once or not at all. A level below the logger's is not even formatted.
\<close>

lemma tty_line_atomic:
  assumes "log_ok w" and "Option.bind (lw_logger w) (lw_objects w) = Some (Tty_log l)"
  shows "\<exists>w'. cclog_log env lv prefix args w = Done w' \<and> (level_num lv < l \<longrightarrow> w' = w)
    \<and> (lw_out w' = lw_out w \<or> lw_out w' = lw_out w @
      [color_table ! level_num lv @ (le_time env (lw_calls w) @ prefix @ concat args) @ TTY_COLOR ''0;39m'' @ [10]])"
proof (cases "level_num lv < l")
  case True
  with assms(2) show ?thesis by (simp add: cclog_log_def)
next
  case False
  let ?w1 = "w\<lparr>lw_calls := lw_calls w + 1\<rparr>" and ?s = "le_time env (lw_calls w) @ prefix @ concat args"
  obtain w2 where "tty_log_impl env lv ?s ?w1 = Done w2 \<or> tty_log_impl env lv ?s ?w1 = Throw w2"
    "lw_out w2 = lw_out ?w1 \<or> lw_out w2 = lw_out ?w1 @ [color_table ! level_num lv @ ?s @ TTY_COLOR ''0;39m'' @ [10]]"
    by (rule tty_log_impl_cases)
  with assms(2) False show ?thesis by (auto simp: cclog_log_def Let_def log_error_def)
qed

text \<open>
  The counter of the initialisers is static in the header, so every file has one of its own, and the first
  file that is torn down deletes the logger. A statement that logs in the destructor of another file's
  object uses a null reference.
\<close>

lemma log_after_first_file:
  assumes "log_ok w" and "lw_counter w f = 1"
  shows "\<exists>w'. initializer_destroy f w = Done w' \<and> cclog_log env lv prefix args w' = Fault"
proof -
  let ?w = "w\<lparr>lw_counter := (lw_counter w)(f := lw_counter w f - 1)\<rparr>"
  have "log_ok ?w" using assms(1) by simp
  from cclog_destroy_ok [OF this] obtain w1 where "cclog_destroy ?w = Done w1" "lw_logger w1 = None" by blast
  with assms(2) show ?thesis by (simp add: initializer_destroy_def cclog_log_def)
qed

text \<open>A logger for the system log that replaces another is closed by it: the new one opens the log first.\<close>

lemma syslog_replaced_closed:
  assumes "log_ok w" and "Option.bind (lw_logger w) (lw_objects w) = Some (Syslog_log l)"
  shows "\<exists>w'. reset_new (Syslog_log l') w = Done w' \<and> \<not> lw_open w'"
  using assms by (auto simp: log_ok_def reset_new_def new_logger_def cclog_reset_def delete_logger_def split: option.splits)

end
