(* ===== verification/Port_Kqueue.thy ===== *)
theory Port_Kqueue
  imports Prelude "HOL-Library.Signed_Division"
begin

text \<open>
  \<^verbatim>\<open>src/mpsrc/wavy_port_kqueue.h\<close>: the port over the \<open>kqueue\<close> of the BSDs. Timers and signals have
  no descriptor there; the port gives them identifiers of its own, from a table of flags.

  The kernel is a parameter: what \<open>kevent\<close> says to a change, and what it reports.
\<close>

section \<open>State\<close>

definition XVEC_MAX :: nat where [simp]: "XVEC_MAX = 256"

datatype kfilter = EVFILT_READ | EVFILT_WRITE | EVFILT_TIMER | EVFILT_SIGNAL | EVFILT_OTHER

text \<open>The fields of \<open>struct kevent\<close> that are used; \<open>kev_add\<close> is \<open>EV_ADD|EV_ONESHOT\<close>, otherwise \<open>EV_DELETE\<close>.\<close>

record kevent =
  kev_ident :: int
  kev_filter :: kfilter
  kev_add :: bool
  kev_data :: nat
  kev_udata :: nat

record 'k kq_os =
  kevent_change :: "kevent \<Rightarrow> 'k \<Rightarrow> bool \<times> 'k"
  kevent_wait :: "nat \<Rightarrow> (int \<times> int) option \<Rightarrow> 'k \<Rightarrow> kevent list option \<times> 'k"

record 'k kq_port =
  kq_os_state :: 'k
  kq_xvec :: "bool list"
  kq_xindex :: "32 word"
  kq_fdmax :: nat

definition kq_new :: "'k \<Rightarrow> nat \<Rightarrow> 'k kq_port" where
  "kq_new k fdmax = \<lparr>kq_os_state = k, kq_xvec = replicate XVEC_MAX False, kq_xindex = 0, kq_fdmax = fdmax\<rparr>"

text \<open>
  The constructor: \<open>kq\<close> is what \<open>kqueue\<close> returned and \<open>rlim_cur\<close> what \<open>getrlimit\<close> reported. It gives the descriptors
  it closed, and no port when it throws.
\<close>

definition kq_open :: "int \<Rightarrow> nat option \<Rightarrow> 'k \<Rightarrow> int list \<times> 'k kq_port option" where
  "kq_open kq rlim_cur k =
    (case rlim_cur of
       None \<Rightarrow> ([kq], None)
     | Some cur \<Rightarrow> if kq < 0 then ([], None) else ([], Some (kq_new k cur)))"

text \<open>A constructor that throws keeps no descriptor, and a port starts with all identifiers free.\<close>

lemma kq_open_result:
  "snd (kq_open kq rlim_cur k) = None \<Longrightarrow> kq < 0 \<or> fst (kq_open kq rlim_cur k) = [kq]"
  "snd (kq_open kq rlim_cur k) = Some p \<Longrightarrow> fst (kq_open kq rlim_cur k) = [] \<and> set (kq_xvec p) \<subseteq> {False}"
  by (auto simp: kq_open_def kq_new_def split: option.splits if_splits)

definition kq_max :: "'k kq_port \<Rightarrow> nat" where
  "kq_max p = kq_fdmax p + XVEC_MAX"

section \<open>Identifiers\<close>

text \<open>
  \<open>alloc_xvec_ident\<close>: at most \<open>2 * XVEC_MAX\<close> attempts, each at the next index. One thread alone; the
  compare-and-swap succeeds when the flag is clear.
\<close>

fun alloc_attempts :: "nat \<Rightarrow> 'k kq_port \<Rightarrow> int \<times> 'k kq_port" where
  "alloc_attempts 0 p = (-1, p)"
| "alloc_attempts (Suc n) p =
    (let ident = unat (kq_xindex p) mod XVEC_MAX;
         p1 = p\<lparr>kq_xindex := kq_xindex p + 1\<rparr>
     in if \<not> kq_xvec p1 ! ident then (int ident, p1\<lparr>kq_xvec := (kq_xvec p1)[ident := True]\<rparr>)
        else alloc_attempts n p1)"

definition alloc_xvec_ident :: "'k kq_port \<Rightarrow> int \<times> 'k kq_port" where
  "alloc_xvec_ident p = alloc_attempts (XVEC_MAX * 2) p"

definition free_xvec :: "int \<Rightarrow> 'k kq_port \<Rightarrow> bool \<times> 'k kq_port" where
  "free_xvec ident p =
    (if kq_xvec p ! nat ident then (True, p\<lparr>kq_xvec := (kq_xvec p)[nat ident := False]\<rparr>) else (False, p))"

section \<open>Operations\<close>

definition kevent :: "'k kq_os \<Rightarrow> kevent \<Rightarrow> 'k kq_port \<Rightarrow> int \<times> 'k kq_port" where
  "kevent os kev p =
    (case kevent_change os kev (kq_os_state p) of
       (ok, k) \<Rightarrow> (if ok then 0 else -1, p\<lparr>kq_os_state := k\<rparr>))"

definition kq_add_fd :: "'k kq_os \<Rightarrow> int \<Rightarrow> kfilter \<Rightarrow> 'k kq_port \<Rightarrow> int \<times> 'k kq_port" where
  "kq_add_fd os x f p =
    kevent os \<lparr>kev_ident = x, kev_filter = f, kev_add = True, kev_data = 0, kev_udata = 0\<rparr> p"

definition kq_remove_fd :: "'k kq_os \<Rightarrow> int \<Rightarrow> kfilter \<Rightarrow> 'k kq_port \<Rightarrow> int \<times> 'k kq_port" where
  "kq_remove_fd os x f p =
    kevent os \<lparr>kev_ident = x, kev_filter = f, kev_add = False, kev_data = 0, kev_udata = 0\<rparr> p"

text \<open>A timer object; \<open>tm_ident\<close> is negative when the object owns no identifier.\<close>

record kq_timer =
  tm_ident :: int
  tm_init :: nat
  tm_interval :: nat

definition msec :: "nat \<times> nat \<Rightarrow> nat" where
  "msec t = fst t * 1000 + snd t div 1000 div 1000"

definition kq_create_timer :: "nat \<times> nat \<Rightarrow> (nat \<times> nat) option \<Rightarrow> 'k kq_port \<Rightarrow> int \<times> kq_timer \<times> 'k kq_port" where
  "kq_create_timer v interval p =
    (case alloc_xvec_ident p of (ident, p1) \<Rightarrow>
       if ident < 0 then (-1, \<lparr>tm_ident = ident, tm_init = 0, tm_interval = 0\<rparr>, p1)
       else (ident, \<lparr>tm_ident = ident, tm_init = msec v,
          tm_interval = (case interval of None \<Rightarrow> 0 | Some i \<Rightarrow> msec i)\<rparr>, p1))"

definition kq_add_timer :: "'k kq_os \<Rightarrow> kq_timer \<Rightarrow> 'k kq_port \<Rightarrow> int \<times> kq_timer \<times> 'k kq_port" where
  "kq_add_timer os tm p =
    (case kevent os \<lparr>kev_ident = tm_ident tm, kev_filter = EVFILT_TIMER, kev_add = True, kev_data = tm_init tm,
        kev_udata = tm_interval tm\<rparr> p of
       (r, p1) \<Rightarrow> if r < 0 then (-1, tm, p1) else (0, tm\<lparr>tm_ident := -1\<rparr>, p1))"

definition kq_timer_destroy :: "kq_timer \<Rightarrow> 'k kq_port \<Rightarrow> 'k kq_port" where
  "kq_timer_destroy tm p = (if 0 \<le> tm_ident tm then snd (free_xvec (tm_ident tm) p) else p)"

definition kq_get :: "kevent \<Rightarrow> nat" where "kq_get e = kev_data e"

text \<open>A signal object.\<close>

record kq_signal =
  sg_ident :: int
  sg_signo :: nat

definition kq_create_signal :: "nat \<Rightarrow> 'k kq_port \<Rightarrow> int \<times> kq_signal \<times> 'k kq_port" where
  "kq_create_signal signo p =
    (case alloc_xvec_ident p of (ident, p1) \<Rightarrow>
       if ident < 0 then (-1, \<lparr>sg_ident = ident, sg_signo = 0\<rparr>, p1)
       else (ident, \<lparr>sg_ident = ident, sg_signo = signo\<rparr>, p1))"

definition kq_add_signal :: "'k kq_os \<Rightarrow> kq_signal \<Rightarrow> 'k kq_port \<Rightarrow> int \<times> kq_signal \<times> 'k kq_port" where
  "kq_add_signal os sg p =
    (case kevent os \<lparr>kev_ident = sg_ident sg, kev_filter = EVFILT_SIGNAL, kev_add = True, kev_data = sg_signo sg,
        kev_udata = sg_signo sg\<rparr> p of
       (r, p1) \<Rightarrow> if r < 0 then (-1, sg, p1) else (0, sg\<lparr>sg_ident := -1\<rparr>, p1))"

definition kq_signal_destroy :: "kq_signal \<Rightarrow> 'k kq_port \<Rightarrow> 'k kq_port" where
  "kq_signal_destroy sg p = (if 0 \<le> sg_ident sg then snd (free_xvec (sg_ident sg) p) else p)"

text \<open>\<open>add_port\<close> of the port whose queue is \<open>x\<close>.\<close>

definition kq_add_port :: "'k kq_os \<Rightarrow> int \<Rightarrow> 'k kq_port \<Rightarrow> int \<times> 'k kq_port" where
  "kq_add_port os x p = (case kq_add_fd os x EVFILT_READ p of (r, p1) \<Rightarrow> if r < 0 then (-1, p1) else (x, p1))"

text \<open>
  \<open>shot_reactivate\<close>. \<open>None\<close> is the case of a timer, which is not C++: it sets a member \<open>msec\<close> that
  \<open>timer\<close> does not have. The signal object of the other case is destroyed at the end.
\<close>

definition kq_shot_reactivate :: "'k kq_os \<Rightarrow> kevent \<Rightarrow> 'k kq_port \<Rightarrow> (int \<times> 'k kq_port) option" where
  "kq_shot_reactivate os e p =
    (case kev_filter e of
       EVFILT_READ \<Rightarrow> Some (kq_add_fd os (kev_ident e) EVFILT_READ p)
     | EVFILT_WRITE \<Rightarrow> Some (kq_add_fd os (kev_ident e) EVFILT_WRITE p)
     | EVFILT_TIMER \<Rightarrow> None
     | EVFILT_SIGNAL \<Rightarrow>
         (case kq_add_signal os \<lparr>sg_ident = kev_ident e, sg_signo = kev_udata e\<rparr> p of (r, sg, p1) \<Rightarrow> Some (r, p1))
     | EVFILT_OTHER \<Rightarrow> Some (-1, p))"

definition kq_shot_remove :: "kevent \<Rightarrow> 'k kq_port \<Rightarrow> int \<times> 'k kq_port" where
  "kq_shot_remove e p =
    (case kev_filter e of
       EVFILT_READ \<Rightarrow> (0, p)
     | EVFILT_WRITE \<Rightarrow> (0, p)
     | EVFILT_TIMER \<Rightarrow> (case free_xvec (kev_ident e) p of (b, p1) \<Rightarrow> (if b then 1 else 0, p1))
     | EVFILT_SIGNAL \<Rightarrow> (case free_xvec (kev_ident e) p of (b, p1) \<Rightarrow> (if b then 1 else 0, p1))
     | EVFILT_OTHER \<Rightarrow> (-1, p))"

definition KQ_BACKLOG_SIZE :: nat where "KQ_BACKLOG_SIZE = 256"

definition kq_wait :: "'k kq_os \<Rightarrow> int option \<Rightarrow> 'k kq_port \<Rightarrow> kevent list option \<times> 'k kq_port" where
  "kq_wait os timeout_msec p =
    (case kevent_wait os KQ_BACKLOG_SIZE
        (map_option (\<lambda>ms. (ms sdiv 1000, ms smod 1000 * 1000000)) timeout_msec) (kq_os_state p) of
       (r, k) \<Rightarrow> (r, p\<lparr>kq_os_state := k\<rparr>))"

section \<open>Identifiers are unique\<close>

definition kq_ok :: "'k kq_port \<Rightarrow> bool" where
  "kq_ok p \<longleftrightarrow> length (kq_xvec p) = XVEC_MAX"

definition in_use :: "'k kq_port \<Rightarrow> int set" where
  "in_use p = {i. 0 \<le> i \<and> i < int XVEC_MAX \<and> kq_xvec p ! nat i}"

lemma length_kq_new [simp]: "length (kq_xvec (kq_new k n)) = 256"
  unfolding kq_new_def kq_port.simps length_replicate by simp

lemma nth_kq_new [simp]: "i < 256 \<Longrightarrow> \<not> kq_xvec (kq_new k n) ! i"
  unfolding kq_new_def kq_port.simps by (subst nth_replicate) simp_all

lemma kq_ok_new: "kq_ok (kq_new k n)"
  by (simp add: kq_ok_def)

lemma in_use_new: "in_use (kq_new k n) = {}"
  by (auto simp: in_use_def)

lemma unat_succ_mod: "unat (x + 1 :: 32 word) mod 256 = (unat x + 1) mod 256"
proof -
  have "unat (x + 1) = (unat x + 1) mod 2 ^ 32" by (simp add: unat_word_ariths)
  moreover have "(256 :: nat) dvd 2 ^ 32" by simp
  ultimately show ?thesis by (simp add: mod_mod_cancel)
qed

lemma alloc_attempts_result:
  assumes "kq_ok p" and "alloc_attempts n p = (ident, p')"
  shows "kq_ok p' \<and> kq_os_state p' = kq_os_state p \<and>
    (if ident < 0
     then ident = -1 \<and> kq_xvec p' = kq_xvec p \<and> (\<forall>j < n. kq_xvec p ! ((unat (kq_xindex p) + j) mod 256))
     else ident < int XVEC_MAX \<and> ident \<notin> in_use p \<and> in_use p' = insert ident (in_use p))"
  using assms
proof (induction n p rule: alloc_attempts.induct)
  case (2 n p)
  let ?i = "unat (kq_xindex p) mod 256"
  let ?p1 = "p\<lparr>kq_xindex := kq_xindex p + 1\<rparr>"
  show ?case
  proof (cases "kq_xvec p ! ?i")
    case False
    then have "ident = int ?i" "p' = ?p1\<lparr>kq_xvec := (kq_xvec p)[?i := True]\<rparr>" using 2(3) by (auto simp: Let_def)
    with False 2(2) show ?thesis by (auto simp: in_use_def kq_ok_def nth_list_update)
  next
    case True
    then have run: "alloc_attempts n ?p1 = (ident, p')" using 2(3) by (auto simp: Let_def)
    have ok: "kq_ok ?p1" "in_use ?p1 = in_use p" using 2(2) by (auto simp: kq_ok_def in_use_def)
    have "kq_xvec p ! ((unat (kq_xindex p) + j) mod 256)"
      if "\<forall>j < n. kq_xvec p ! ((unat (kq_xindex p + 1) + j) mod 256)" "j < Suc n" for j
    proof (cases j)
      case 0
      with True show ?thesis by simp
    next
      case (Suc l)
      with that have "kq_xvec p ! ((unat (kq_xindex p + 1) + l) mod 256)" by simp
      moreover have "(unat (kq_xindex p + 1) + l) mod 256 = (unat (kq_xindex p) + Suc l) mod 256"
        using unat_succ_mod [of "kq_xindex p"] by (metis add_Suc_right add_Suc mod_add_left_eq Suc_eq_plus1)
      ultimately show ?thesis using Suc by simp
    qed
    with 2(1) [OF refl refl _ ok(1) run] True ok(2) show ?thesis by auto
  qed
qed (simp add: kq_ok_def)

text \<open>
  An identifier that \<open>alloc_xvec_ident\<close> returns was free and is in use afterwards, alone with the
  ones in use before; it fails only when all 256 are in use, wherever the counter stands, and also
  when the counter wraps.
\<close>

theorem kq_alloc_fresh:
  assumes "kq_ok p" and "alloc_xvec_ident p = (ident, p')"
  shows "kq_ok p' \<and>
    (if ident < 0 then in_use p = {0..<256} \<and> in_use p' = in_use p
     else ident \<notin> in_use p \<and> ident < 256 \<and> in_use p' = insert ident (in_use p))"
proof -
  note r = alloc_attempts_result [OF assms(1) assms(2) [unfolded alloc_xvec_ident_def]]
  have "kq_xvec p ! nat i" if "ident < 0" "0 \<le> i" "i < 256" for i :: int
  proof -
    let ?x = "unat (kq_xindex p)" and ?j = "(nat i + (256 - unat (kq_xindex p) mod 256)) mod 256"
    have "kq_xvec p ! ((?x + ?j) mod 256)" using r that(1) by simp
    moreover have "(?x + ?j) mod 256 = nat i"
    proof -
      define q r where "q = ?x div 256" and "r = ?x mod 256"
      have x: "?x = 256 * q + r" "r < 256" by (simp_all add: q_def r_def)
      have "(?x + ?j) mod 256 = (?x + (nat i + (256 - r))) mod 256" by (simp add: mod_simps r_def)
      also have "?x + (nat i + (256 - r)) = nat i + 256 * (q + 1)" using x by simp
      also have "\<dots> mod 256 = nat i mod 256" by (rule mod_mult_self2)
      finally show ?thesis using that by simp
    qed
    ultimately show ?thesis by simp
  qed
  then have "ident < 0 \<Longrightarrow> in_use p = {0..<256}" by (auto simp: in_use_def)
  moreover have "ident < 0 \<Longrightarrow> in_use p' = in_use p" using r by (auto simp: in_use_def)
  ultimately show ?thesis using r by (auto split: if_splits)
qed

theorem kq_alloc_fresh_witness:
  "in_use (snd (alloc_xvec_ident (kq_new () 1024))) = insert (fst (alloc_xvec_ident (kq_new () 1024))) {}"
proof -
  obtain i p' where a: "alloc_xvec_ident (kq_new () 1024) = (i, p')" by (cases "alloc_xvec_ident (kq_new () 1024)")
  from kq_alloc_fresh [OF kq_ok_new a] show ?thesis by (auto simp: a in_use_new split: if_splits)
qed

text \<open>
  The identifiers are those of descriptors, although \<open>max\<close> leaves room for them behind \<open>m_fdmax\<close>: the
  first timer of a port has identifier 0.
\<close>

lemma kq_timer_ident_is_descriptor:
  "fst (kq_create_timer v interval (kq_new k n)) = 0"
proof -
  have "XVEC_MAX * 2 = Suc 511" by simp
  moreover have "kq_xindex (kq_new k n) = 0" by (simp add: kq_new_def)
  ultimately have "fst (alloc_xvec_ident (kq_new k n)) = 0"
    unfolding alloc_xvec_ident_def by (simp only: alloc_attempts.simps Let_def) simp
  then show ?thesis by (cases "alloc_xvec_ident (kq_new k n)") (simp add: kq_create_timer_def)
qed

text \<open>A signal is registered under the identifier of the port, not under its number.\<close>

lemma kq_signal_registered_as_ident:
  "kq_add_signal os \<lparr>sg_ident = i, sg_signo = n\<rparr> p =
    (case kevent os \<lparr>kev_ident = i, kev_filter = EVFILT_SIGNAL, kev_add = True, kev_data = n, kev_udata = n\<rparr> p of
       (r, p1) \<Rightarrow> (r, if r < 0 then \<lparr>sg_ident = i, sg_signo = n\<rparr> else \<lparr>sg_ident = -1, sg_signo = n\<rparr>, p1))"
  by (auto simp: kq_add_signal_def kevent_def split: prod.splits)

end
