(* ===== verification/Spec2Isabelle.thy ===== *)
theory Spec2Isabelle
  imports Memproto Memtext_Requests Endian Stream_Buffer Shared_Buffer Source_Pool Sparse_Array
    Pthread_Locks Thread_Errors Wavy_Core Gate_Memtext Gate_Session Gate_Wire Wavy_Objects Wavy_Reuse Core_Life Connect_Thread Control_Session Cclog Port_Kqueue
begin

text \<open>
  A verification library of memxy, a proxy for the memcached protocol: worker threads share one
  event loop, a text gate parses memcached commands and forwards them to the servers through
  libmemcached, and a control gate replaces the list of servers while the proxy runs.

  \<^bold>\<open>Parts and theories\<close> (paths are under \<^verbatim>\<open>src/\<close> of the repository)

  \<^item> \<open>Prelude\<close>, \<open>Heap\<close>, \<open>Interfaces\<close>: bytes and loads in both byte orders, counted heap blocks, outcomes
    (\<open>Done\<close>, \<open>Throw\<close>, \<open>Fault\<close>, \<open>Diverge\<close>), and the contracts between components as locales:
    \<open>read_buffer\<close> (what a receive buffer promises a connection), \<open>output_sink\<close> (what the output handler
    promises a gate), \<open>indexed_store\<close>. Two more are stated where they are used: \<open>lock_api\<close> in
    \<open>Pthread_Locks\<close> and \<open>parse_buffer\<close>, which extends \<open>read_buffer\<close>, in \<open>Gate_Loops\<close>. Each is
    interpreted on the model of the component that provides it.

  \<^item> \<open>Memproto\<close>: \<^verbatim>\<open>memproto/memproto.c\<close>. The header accessors, \<open>memproto_parser_execute\<close> and
    \<open>memproto_dispatch\<close> with every command, on words of their width. Framing, the round trip of
    storage packets, which callback runs and with what, the range of the value length.

  \<^item> \<open>Memtext\<close>, \<open>Memtext_Requests\<close>, \<open>Memtext_Session\<close>: \<^verbatim>\<open>memproto/memtext.rl\<close>. The Ragel machine as a transition function on
    bytes with its actions, the generated loop, \<open>memtext_init\<close> and \<open>memtext_execute\<close>. The invariant and
    memory safety of the parser for any input, independence of how the input is cut into calls, and
    what retrieval, storage and cas commands deliver to their callbacks. \<open>Memtext_Session\<close> follows one
    parser through a whole command line, for any position in the buffer and any callback.

  \<^item> \<open>Stream_Buffer\<close>, \<open>Shared_Buffer\<close>, \<open>Source_Pool\<close>, \<open>Sparse_Array\<close>: the containers of \<^verbatim>\<open>mp/\<close>.
    Blocks live on an explicit heap with reference counts, so that a leak or a dangling reference is
    a statement about the heap.

  \<^item> \<open>Pthread_Locks\<close>: the wrappers of \<^verbatim>\<open>mp/pthread_impl.h\<close> and \<^verbatim>\<open>mp/exclusive.pre.h\<close> over a log of the
    calls of the C library, whose answers are arbitrary. A scope leaves every lock as it found it.

  \<^item> \<open>Thread_Errors\<close>: the rest of \<^verbatim>\<open>mp/pthread_impl.h\<close>, which drops the answers of the library, the function
    a thread runs in, and the exception classes with the messages they build.

  \<^item> \<open>Wavy_Port\<close>, \<open>Port_Kqueue\<close>: the two ports, over system calls that are a parameter.

  \<^item> \<open>Wavy_Core\<close>: the event loop of \<^verbatim>\<open>mpsrc/wavy_base.cc\<close> as a step relation \<open>core_step\<close>, whose steps
    are the stretches of code between two operations on the mutex, of any number of workers and
    callers of \<open>step_next\<close>, interleaved with the rest of the program and the kernel. One thread at a
    time in the handler of a descriptor, one poller, no lost wake-up, tasks in their order.

  \<^item> \<open>Core_Life\<close>: the owner of a core (\<open>add_thread\<close>, \<open>end\<close>, \<open>join\<close>, \<open>detach\<close>, the destructor),
    interleaved with \<open>core_step\<close>. After \<open>end\<close> every step of a worker lowers a rank, so \<open>join\<close> returns;
    nothing runs on a core that was joined and destroyed.

  \<^item> \<open>Wavy_Out\<close>: the output handler of \<^verbatim>\<open>mpsrc/wavy_out.cc\<close>, with the transfer buffers, partial writes
    and write events. Refinement of a queue per descriptor.

  \<^item> \<open>Wavy_Reuse\<close>: descriptors that \<^verbatim>\<open>handler::~handler\<close> closes and the kernel gives out again, while
    \<open>Wavy_Out\<close> keeps a queue for every number. The invariant of the queues when only idle
    descriptors are closed, and what becomes of the next connection when output was still waiting.

  \<^item> \<open>Wavy_Objects\<close>: the templates of \<^verbatim>\<open>mp/wavy/core.pre.h\<close> that hand an object over with its output
    (\<open>auto_ptr\<close>, \<open>shared_ptr\<close>), the transfer buffers one can build, and the output calls of
    \<^verbatim>\<open>mp/wavy/singleton.pre.h\<close>. An object is deleted once, behind its bytes or by the
    destructor of the output handler, or stays with its owner.

  \<^item> \<open>Wavy_Net\<close>: who owns a descriptor. The handler classes of \<^verbatim>\<open>mp/wavy/core.pre.h\<close>, \<open>add_handler\<close>,
    and \<^verbatim>\<open>wavy_listen.cc\<close>, \<^verbatim>\<open>wavy_connect.cc\<close>, \<^verbatim>\<open>wavy_timer.cc\<close>, \<^verbatim>\<open>wavy_signal.cc\<close>, under any pattern of
    failing system calls and allocations.

  \<^item> \<open>Connect_Thread\<close>: \<open>connect_thread\<close> of \<^verbatim>\<open>wavy_connect.cc\<close>, whose arguments travel through the task queue of
    \<open>Wavy_Core\<close> in a block of memory. The block is read and freed by its own task, once.

  \<^item> \<open>Gate_Memtext\<close>, \<open>Gate_Loops\<close>: the callbacks of the text gate with the bytes they reply, and the
    read loops of both gates. The theorems on replies start from bytes in the receive buffer and go
    through \<open>Memtext_Requests\<close>; those on the loops hold for any buffer that satisfies \<open>parse_buffer\<close>.

  \<^item> \<open>Gate_Session\<close>, \<open>Gate_Wire\<close>: the parts of the text gate together. A client that sends any list of
    \<open>get\<close>, \<open>gets\<close>, \<open>set\<close> and \<open>delete\<close> commands, cut anywhere by \<open>read\<close>, is answered what \<open>serve_all\<close>, one
    request after the other, answers (for gets of several keys: when no fetch returns a key longer than the
    one it overwrites, \<open>all_in_place\<close>), until it sends a command the gate has no callback for, which closes
    the connection; and these bytes are what the output handler writes or keeps for
    the descriptor.

  \<^item> \<open>Proxy_Client\<close>: \<^verbatim>\<open>proxy_client.cc\<close>, as functions and as interleaved threads.

  \<^item> \<open>Startup\<close>: options, \<open>thread_init\<close> and \<open>add_thread\<close>, \<open>service::init\<close>, \<open>daemonize\<close> and \<open>main\<close>,
    composed from \<open>Wavy_Net\<close> and \<open>Proxy_Client\<close>.

  \<^item> \<open>Control_Session\<close>: the control gate and \<open>set_servers\<close> together. The lists an operator sends, cut anywhere
    by \<open>read\<close>, reach every worker; no failure takes a worker's handle away.

  \<^item> \<open>Cclog\<close>: the logger \<^verbatim>\<open>cclog/\<close>. A statement that logs returns whatever fails inside it, which is why the
    other theories leave such statements out.

  \<^bold>\<open>Conventions\<close>

  A machine integer is a word where its width matters (lengths of packets, descriptors in event data,
  expiration times, the counter of the kqueue port); sizes of allocated memory are natural numbers
  with the bound that the allocator grants. An exception, a return code and an undefined access are
  values of a sum or an outcome. \<open>Fault\<close> and \<open>Memory_fault\<close> are accesses outside the memory of the
  program; a theorem that excludes them says that the code is safe there.

  Loops are structural recursion, recursion with a measure, or \<open>partial_function (option)\<close>, whose
  \<open>None\<close> is a loop that does not end. The properties of such loops say that they return. There is no
  fuel except the 512 attempts that \<open>alloc_xvec_ident\<close> itself is limited to.

  The kernel, the allocator, libmemcached and the C library are parameters. The list that drives
  \<open>accept_loop\<close>, \<open>connect_poll\<close> or \<open>parse_opts\<close> is what the calls of the loop return, in their order.

  \<^bold>\<open>Not modelled\<close>

  The other members of \<^verbatim>\<open>mp/wavy/singleton.pre.h\<close> and the \<open>submit\<close> and \<open>connect\<close> templates of
  \<^verbatim>\<open>core.pre.h\<close> forward their arguments; the headers \<^verbatim>\<open>functional.h\<close>, \<^verbatim>\<open>memory.h\<close> and all but
  \<open>object_delete\<close> of \<^verbatim>\<open>object_callback.pre.h\<close> name types and casts of the C++ library. \<^verbatim>\<open>memxyctl\<close> is a Ruby script. The compiled tables of
  the Ragel machine are generated; the model follows the grammar in \<^verbatim>\<open>memtext.rl\<close>. The memory model
  of concurrent code is sequential consistency at the granularity of the steps.
\<close>

end
